(* ===== verification/Prelude.thy ===== *)
theory Prelude
  imports Main "HOL-Library.Word"
begin

text \<open>
  What every theory of the development shares: the names of the machine types of
  \<^verbatim>\<open>include/lstm/detail/lstm_fwd.hpp\<close>, the collections of rewrite rules the component
  proofs use, generic facts on lists and words, and the notion of a reachable state of a
  transition system together with the locale in which invariants are proved once.

  The model is that of a 64-bit platform: \<^verbatim>\<open>uword\<close>, \<^verbatim>\<open>epoch_t\<close> and \<^verbatim>\<open>hash_t\<close> are 64-bit
  unsigned words, an address is a 64-bit word, and \<^verbatim>\<open>var_storage\<close> (a pointer or the raw bytes
  of a small value) is the 64-bit content of the union.
\<close>

unbundle bit_operations_syntax

section \<open>Machine types\<close>

type_synonym uword = "64 word"
type_synonym epoch_t = "64 word"
type_synonym hash_t = "64 word"
type_synonym var_ref = "64 word"
type_synonym var_storage = "64 word"

section \<open>Collections of facts\<close>

named_theorems vec_simps \<open>refinement equations of the vector operations\<close>
named_theorems ws_simps \<open>refinement equations of the write set operations\<close>
named_theorems sys_simps \<open>unfolding rules of the transition systems\<close>

section \<open>Lists\<close>

lemma map_upt_eq_take:
  "n \<le> length xs \<Longrightarrow> map (\<lambda>i. xs ! i) [0..<n] = take n xs"
  by (rule nth_equalityI) auto

lemma map_fun_upd_upt_le [simp]:
  "n \<le> k \<Longrightarrow> map (f(k := x)) [i..<n] = map f [i..<n]"
  by (rule map_cong) auto

lemma map_of_map_pair_None:
  "map_of (map (\<lambda>e. (k e, v e)) xs) a = None \<longleftrightarrow> a \<notin> k ` set xs"
  by (induction xs) auto

lemma map_of_map_pair_nth:
  assumes "distinct (map k xs)" and "i < length xs"
  shows "map_of (map (\<lambda>e. (k e, v e)) xs) (k (xs ! i)) = Some (v (xs ! i))"
proof (rule map_of_is_SomeI)
  show "distinct (map fst (map (\<lambda>e. (k e, v e)) xs))"
    using assms(1) by (simp add: comp_def)
  show "(k (xs ! i), v (xs ! i)) \<in> set (map (\<lambda>e. (k e, v e)) xs)"
    using assms(2) by (auto intro!: image_eqI [where x = "xs ! i"])
qed

section \<open>Words\<close>

lemma and_eq_zero_iff_bits:
  "(a :: 'a::len word) AND b = 0 \<longleftrightarrow> (\<forall>n < LENGTH('a). \<not> (bit a n \<and> bit b n))"
  by (auto simp: bit_eq_iff bit_and_iff dest: bit_imp_le_length)

lemma or_and_ne_zero_mono:
  "(f :: 'a::len word) AND h \<noteq> 0 \<Longrightarrow> (f OR g) AND h \<noteq> 0"
  by (auto simp: bit_eq_iff bit_simps)

section \<open>Transition systems\<close>

text \<open>
  A system is given by a start predicate and a step relation; its reachable states are the
  least set that holds the start states and is closed under steps.
\<close>

inductive reachable :: "('s \<Rightarrow> bool) \<Rightarrow> ('s \<Rightarrow> 's \<Rightarrow> bool) \<Rightarrow> 's \<Rightarrow> bool"
  for start :: "'s \<Rightarrow> bool" and step :: "'s \<Rightarrow> 's \<Rightarrow> bool" where
  reach_start: "start s \<Longrightarrow> reachable start step s"
| reach_step: "reachable start step s \<Longrightarrow> step s t \<Longrightarrow> reachable start step t"

text \<open>
  The contract between a system and a predicate it keeps. Each concurrent component
  interprets it on its own start predicate, step relation and invariant.
\<close>

locale invariant_system =
  fixes start :: "'s \<Rightarrow> bool"
    and step :: "'s \<Rightarrow> 's \<Rightarrow> bool"
    and inv :: "'s \<Rightarrow> bool"
  assumes start_inv: "start s \<Longrightarrow> inv s"
    and step_inv: "inv s \<Longrightarrow> step s t \<Longrightarrow> inv t"
begin

lemma reachable_inv: "reachable start step s \<Longrightarrow> inv s"
  by (induction rule: reachable.induct) (auto intro: start_inv step_inv)

end

section \<open>Loops that need not end\<close>

text \<open>\<open>do { s = body(s) } while (cond(s))\<close>; \<open>None\<close> when the body fails or the loop does not end.\<close>

partial_function (option) do_while :: "('s \<Rightarrow> 's option) \<Rightarrow> ('s \<Rightarrow> bool) \<Rightarrow> 's \<Rightarrow> 's option" where
  "do_while body cond s =
     Option.bind (body s) (\<lambda>s'. if cond s' then do_while body cond s' else Some s')"

lemma do_while_step: "body s = Some s' \<Longrightarrow> do_while body cond s = (if cond s' then do_while body cond s' else Some s')"
  by (subst do_while.simps) simp

lemma do_while_fail: "body s = None \<Longrightarrow> do_while body cond s = None"
  by (subst do_while.simps) simp

lemma do_while_invariant:
  assumes "do_while body cond s = Some t" and "P s" and "\<And>s s'. body s = Some s' \<Longrightarrow> P s \<Longrightarrow> P s'"
  shows "P t"
proof -
  have "(\<forall>s s'. body s = Some s' \<longrightarrow> P s \<longrightarrow> P s') \<longrightarrow> P s \<longrightarrow> P t"
  proof (rule do_while.raw_induct [OF _ assms(1), of "\<lambda>body cond s t. (\<forall>s s'. body s = Some s' \<longrightarrow> P s \<longrightarrow> P s') \<longrightarrow> P s \<longrightarrow> P t"])
    fix dw :: "('a \<Rightarrow> 'a option) \<Rightarrow> ('a \<Rightarrow> bool) \<Rightarrow> 'a \<Rightarrow> 'a option" and body cond s t
    assume IH: "\<And>body cond s t. dw body cond s = Some t \<Longrightarrow> (\<forall>s s'. body s = Some s' \<longrightarrow> P s \<longrightarrow> P s') \<longrightarrow> P s \<longrightarrow> P t"
      and step: "Option.bind (body s) (\<lambda>s'. if cond s' then dw body cond s' else Some s') = Some t"
    then show "(\<forall>s s'. body s = Some s' \<longrightarrow> P s \<longrightarrow> P s') \<longrightarrow> P s \<longrightarrow> P t"
      by (cases "body s") (auto split: if_splits dest: IH)
  qed
  then show ?thesis using assms(2,3) by blast
qed

end
