(* ===== verification/Pod_Vector.thy ===== *)
theory Pod_Vector
  imports Prelude "HOL-Library.Multiset"
begin

text \<open>
  The growable array of \<^verbatim>\<open>detail/pod_vector.hpp\<close>. A vector owns one allocation of
  \<open>pv_last + 1\<close> slots; a slot is \<open>None\<close> while it is raw memory. The three pointers of the class are
  kept as offsets from \<open>begin_\<close>: \<open>pv_end\<close> is \<open>end_\<close> and \<open>pv_last\<close> is
  \<open>last_valid_address_\<close>. Iterators are offsets too.

  The abstraction \<open>pv_items\<close> is the list of the elements between \<open>begin_\<close> and \<open>end_\<close>. The lemmas
  show that every operation keeps \<open>end_\<close> inside the allocation (so the next unchecked push is in
  bounds) and acts on the list as its name says. The locale \<open>growable_sequence\<close> states the part
  of this contract the write set, the read set and the callback lists rely on.
\<close>

section \<open>State\<close>

record 'a pod_vector =
  pv_mem :: "nat \<Rightarrow> 'a option"
  pv_end :: nat
  pv_last :: nat

definition start_size :: nat where
  "start_size = 1024"

definition pv_new :: "'a pod_vector" where
  "pv_new = \<lparr> pv_mem = (\<lambda>_. None), pv_end = 0, pv_last = start_size - 1 \<rparr>"

section \<open>Operations\<close>

definition pv_empty :: "'a pod_vector \<Rightarrow> bool" where
  "pv_empty v \<longleftrightarrow> pv_end v = 0"

definition pv_size :: "'a pod_vector \<Rightarrow> nat" where
  "pv_size v = pv_end v"

definition pv_capacity :: "'a pod_vector \<Rightarrow> nat" where
  "pv_capacity v = pv_last v + 1"

definition pv_allocates_on_next_push :: "'a pod_vector \<Rightarrow> bool" where
  "pv_allocates_on_next_push v \<longleftrightarrow> pv_end v = pv_last v"

definition memcpy_to_new :: "(nat \<Rightarrow> 'a option) \<Rightarrow> nat \<Rightarrow> nat \<Rightarrow> 'a option" where
  "memcpy_to_new mem n = (\<lambda>i. if i < n then mem i else None)"

definition reserve_more :: "'a pod_vector \<Rightarrow> 'a pod_vector" where
  "reserve_more v =
     \<lparr> pv_mem = memcpy_to_new (pv_mem v) (pv_size v),
       pv_end = pv_size v,
       pv_last = 2 * pv_capacity v - 1 \<rparr>"

definition emplace_back :: "'a \<Rightarrow> 'a pod_vector \<Rightarrow> 'a pod_vector" where
  "emplace_back x v =
     (let v' = v\<lparr> pv_mem := (pv_mem v)(pv_end v := Some x), pv_end := pv_end v + 1 \<rparr>
      in if pv_end v' > pv_last v' then reserve_more v' else v')"

text \<open>\<open>LSTM_ASSERT(!allocates_on_next_push())\<close> is \<open>unchecked_emplace_back_assert\<close>.\<close>

definition unchecked_emplace_back_assert :: "'a pod_vector \<Rightarrow> bool" where
  "unchecked_emplace_back_assert v \<longleftrightarrow> \<not> pv_allocates_on_next_push v"

definition unchecked_emplace_back :: "'a \<Rightarrow> 'a pod_vector \<Rightarrow> 'a pod_vector" where
  "unchecked_emplace_back x v =
     v\<lparr> pv_mem := (pv_mem v)(pv_end v := Some x), pv_end := pv_end v + 1 \<rparr>"

definition unordered_erase_assert :: "nat \<Rightarrow> 'a pod_vector \<Rightarrow> bool" where
  "unordered_erase_assert ptr v \<longleftrightarrow> ptr < pv_end v"

definition unordered_erase :: "nat \<Rightarrow> 'a pod_vector \<Rightarrow> 'a pod_vector" where
  "unordered_erase ptr v =
     v\<lparr> pv_mem := (pv_mem v)(ptr := pv_mem v (pv_end v - 1)), pv_end := pv_end v - 1 \<rparr>"

definition pv_clear :: "'a pod_vector \<Rightarrow> 'a pod_vector" where
  "pv_clear v = v\<lparr> pv_end := 0 \<rparr>"

definition shrink_to_fit :: "'a pod_vector \<Rightarrow> 'a pod_vector" where
  "shrink_to_fit v =
     (let new_capacity = pv_size v + 1
      in if new_capacity \<noteq> pv_capacity v
         then \<lparr> pv_mem = memcpy_to_new (pv_mem v) (pv_size v),
                pv_end = pv_size v,
                pv_last = new_capacity - 1 \<rparr>
         else v)"

text \<open>Dereferencing an iterator, and \<open>back()\<close>; \<open>None\<close> is a read of memory that holds no element.\<close>

definition pv_deref :: "'a pod_vector \<Rightarrow> nat \<Rightarrow> 'a option" where
  "pv_deref v i = (if i < pv_end v then pv_mem v i else None)"

definition pv_back :: "'a pod_vector \<Rightarrow> 'a option" where
  "pv_back v = (if pv_end v = 0 then None else pv_mem v (pv_end v - 1))"

section \<open>Abstraction and invariant\<close>

definition pv_items :: "'a pod_vector \<Rightarrow> 'a list" where
  "pv_items v = map (\<lambda>i. the (pv_mem v i)) [0..<pv_end v]"

definition pv_inv :: "'a pod_vector \<Rightarrow> bool" where
  "pv_inv v \<longleftrightarrow> pv_end v \<le> pv_last v \<and> (\<forall>i < pv_end v. pv_mem v i \<noteq> None)"

section \<open>Refinement of lists\<close>

lemma length_pv_items [vec_simps]: "length (pv_items v) = pv_end v"
  by (simp add: pv_items_def)

lemma pv_size_items [vec_simps]: "pv_size v = length (pv_items v)"
  by (simp add: pv_size_def vec_simps)

lemma pv_empty_items [vec_simps]: "pv_empty v \<longleftrightarrow> pv_items v = []"
  by (simp add: pv_empty_def pv_items_def)

lemma pv_items_nth: "i < pv_end v \<Longrightarrow> pv_items v ! i = the (pv_mem v i)"
  by (simp add: pv_items_def)

lemma pv_deref_items:
  "pv_inv v \<Longrightarrow> pv_deref v i = (if i < length (pv_items v) then Some (pv_items v ! i) else None)"
  by (auto simp: pv_deref_def pv_inv_def pv_items_nth vec_simps)

lemma pv_new_refines: "pv_inv pv_new" "pv_items pv_new = []"
  by (simp_all add: pv_inv_def pv_new_def pv_items_def)

lemma memcpy_items:
  "map (\<lambda>i. the (memcpy_to_new m n i)) [0..<n] = map (\<lambda>i. the (m i)) [0..<n]"
  by (simp add: memcpy_to_new_def)

lemma reserve_more_items [vec_simps]: "pv_items (reserve_more v) = pv_items v"
  by (simp add: reserve_more_def pv_items_def memcpy_items pv_size_def)

lemma unchecked_emplace_back_items [vec_simps]:
  "pv_items (unchecked_emplace_back x v) = pv_items v @ [x]"
  by (simp add: unchecked_emplace_back_def pv_items_def)

lemma emplace_back_items [vec_simps]: "pv_items (emplace_back x v) = pv_items v @ [x]"
proof -
  have "emplace_back x v = (if pv_end v + 1 > pv_last v then reserve_more (unchecked_emplace_back x v)
      else unchecked_emplace_back x v)"
    by (simp add: emplace_back_def unchecked_emplace_back_def Let_def)
  then show ?thesis by (simp add: vec_simps)
qed

lemma emplace_back_inv: "pv_inv v \<Longrightarrow> pv_inv (emplace_back x v)"
  by (auto simp: pv_inv_def emplace_back_def Let_def reserve_more_def memcpy_to_new_def
      pv_size_def pv_capacity_def)

lemma unchecked_emplace_back_eq:
  "pv_inv v \<Longrightarrow> unchecked_emplace_back_assert v \<Longrightarrow> unchecked_emplace_back x v = emplace_back x v"
  by (auto simp: pv_inv_def unchecked_emplace_back_assert_def pv_allocates_on_next_push_def
      unchecked_emplace_back_def emplace_back_def Let_def)

lemma pv_clear_refines: "pv_inv v \<Longrightarrow> pv_inv (pv_clear v)" "pv_items (pv_clear v) = []"
  by (auto simp: pv_inv_def pv_clear_def pv_items_def)

lemma unordered_erase_items:
  assumes "unordered_erase_assert i v"
  shows "pv_items (unordered_erase i v) = butlast ((pv_items v)[i := last (pv_items v)])"
proof (rule nth_equalityI)
  show "length (pv_items (unordered_erase i v)) = length (butlast ((pv_items v)[i := last (pv_items v)]))"
    by (simp add: vec_simps) (simp add: unordered_erase_def)
next
  fix j assume "j < length (pv_items (unordered_erase i v))"
  then have j: "j < pv_end v - 1"
    by (simp add: vec_simps) (simp add: unordered_erase_def)
  then have ne: "pv_items v \<noteq> []"
    by (auto simp: pv_items_def)
  have "last (pv_items v) = the (pv_mem v (pv_end v - 1))"
    using j by (simp add: last_conv_nth [OF ne] vec_simps pv_items_nth)
  then show "pv_items (unordered_erase i v) ! j = butlast ((pv_items v)[i := last (pv_items v)]) ! j"
    using j assms
    by (auto simp: pv_items_def unordered_erase_def unordered_erase_assert_def nth_butlast nth_list_update)
qed

lemma mset_swap_remove:
  assumes "i < length xs"
  shows "mset (butlast (xs[i := last xs])) = mset xs - {# xs ! i #}"
proof (cases xs rule: rev_cases)
  case (snoc ys y)
  show ?thesis
  proof (cases "i = length ys")
    case False
    then have "i < length ys" using assms snoc by simp
    then show ?thesis
      by (simp add: snoc list_update_append1 nth_append mset_update)
  qed (simp add: snoc)
qed (use assms in simp)

lemma unordered_erase_mset:
  assumes "unordered_erase_assert i v"
  shows "mset (pv_items (unordered_erase i v)) = mset (pv_items v) - {# pv_items v ! i #}"
  using assms by (simp add: unordered_erase_items mset_swap_remove unordered_erase_assert_def vec_simps)

lemma unordered_erase_inv: "pv_inv v \<Longrightarrow> unordered_erase_assert i v \<Longrightarrow> pv_inv (unordered_erase i v)"
  by (auto simp: pv_inv_def unordered_erase_def unordered_erase_assert_def)

lemma shrink_to_fit_refines:
  "pv_inv v \<Longrightarrow> pv_inv (shrink_to_fit v)"
  "pv_items (shrink_to_fit v) = pv_items v"
  "pv_inv v \<Longrightarrow> pv_allocates_on_next_push (shrink_to_fit v)"
  by (auto simp: shrink_to_fit_def Let_def pv_inv_def pv_items_def memcpy_to_new_def pv_size_def
      pv_capacity_def pv_allocates_on_next_push_def)

lemma pv_back_items: "pv_inv v \<Longrightarrow> pv_items v \<noteq> [] \<Longrightarrow> pv_back v = Some (last (pv_items v))"
  by (auto simp: pv_back_def pv_inv_def last_conv_nth vec_simps pv_items_nth)
    (auto simp: pv_items_def)

section \<open>The interface its clients use\<close>

text \<open>
  A client either pushes, or first asks whether the next push allocates and then uses the
  unchecked push. The second protocol is the hot path of every transactional read and write;
  \<open>guarded_push\<close> says once that it is a push.
\<close>

locale growable_sequence =
  fixes inv :: "'v \<Rightarrow> bool"
    and items :: "'v \<Rightarrow> 'a list"
    and push :: "'a \<Rightarrow> 'v \<Rightarrow> 'v"
    and unchecked_push :: "'a \<Rightarrow> 'v \<Rightarrow> 'v"
    and full :: "'v \<Rightarrow> bool"
    and clear :: "'v \<Rightarrow> 'v"
  assumes inv_push: "inv v \<Longrightarrow> inv (push x v)"
    and items_push: "items (push x v) = items v @ [x]"
    and unchecked_push_eq: "inv v \<Longrightarrow> \<not> full v \<Longrightarrow> unchecked_push x v = push x v"
    and inv_clear: "inv v \<Longrightarrow> inv (clear v)"
    and items_clear: "items (clear v) = []"
begin

lemma guarded_push:
  assumes "inv v"
  shows "inv (if full v then push x v else unchecked_push x v)"
    and "items (if full v then push x v else unchecked_push x v) = items v @ [x]"
  using assms by (auto simp: inv_push items_push unchecked_push_eq)

lemma push_many:
  assumes "inv v"
  shows "inv (fold push xs v) \<and> items (fold push xs v) = items v @ xs"
  using assms by (induction xs arbitrary: v) (auto simp: inv_push items_push)

lemma clear_then_push_many:
  assumes "inv v"
  shows "items (fold push xs (clear v)) = xs"
  using push_many [OF inv_clear [OF assms], of xs] by (simp add: items_clear)

end

interpretation pv: growable_sequence pv_inv pv_items emplace_back unchecked_emplace_back
  pv_allocates_on_next_push pv_clear
  by unfold_locales
    (simp_all add: emplace_back_inv vec_simps unchecked_emplace_back_eq
      unchecked_emplace_back_assert_def pv_clear_refines)

section \<open>Properties\<close>

text \<open>\<open>emplace_back\<close>, guarded or not by \<open>allocates_on_next_push\<close> and through any number of
  growths, appends to the list of elements and never loses or reorders one.\<close>

theorem pod_vector_push_many:
  assumes "pv_inv v"
  shows "pv_inv (fold emplace_back xs v) \<and> pv_items (fold emplace_back xs v) = pv_items v @ xs
    \<and> (\<not> pv_allocates_on_next_push v \<longrightarrow> unchecked_emplace_back x v = emplace_back x v)"
  using pv.push_many [OF assms, of xs] pv.unchecked_push_eq [OF assms] by blast

theorem pod_vector_push_many_witness:
  "pv_items (fold emplace_back [1, 2, 3 :: nat] \<lparr> pv_mem = (\<lambda>_. None), pv_end = 0, pv_last = 0 \<rparr>) = [1, 2, 3]"
proof -
  have "pv_inv \<lparr> pv_mem = (\<lambda>_. None :: nat option), pv_end = 0, pv_last = 0 \<rparr>"
    by (simp add: pv_inv_def)
  from pod_vector_push_many [OF this, of "[1, 2, 3]"] show ?thesis by (simp add: pv_items_def)
qed

text \<open>\<open>unordered_erase\<close> removes exactly the element at its argument, and moves the last one there.\<close>

theorem pod_vector_unordered_erase:
  assumes "pv_inv v" and "unordered_erase_assert i v"
  shows "pv_inv (unordered_erase i v)
    \<and> pv_items (unordered_erase i v) = butlast ((pv_items v)[i := last (pv_items v)])"
  using unordered_erase_inv [OF assms] unordered_erase_items [OF assms(2)] by blast

theorem pod_vector_unordered_erase_witness:
  "pv_items (unordered_erase 0 \<lparr> pv_mem = (\<lambda>i. if i < 3 then Some i else None), pv_end = 3, pv_last = 7 \<rparr>) = [2, 1]"
proof -
  let ?v = "\<lparr> pv_mem = (\<lambda>i. if i < 3 then Some i else None), pv_end = 3, pv_last = 7 \<rparr>"
  have "pv_inv ?v" "unordered_erase_assert 0 ?v"
    by (simp_all add: pv_inv_def unordered_erase_assert_def)
  from pod_vector_unordered_erase [OF this] show ?thesis
    by (simp add: pv_items_def upt_rec)
qed

end
