(* ===== verification/Write_Set.thy ===== *)
theory Write_Set
  imports Pod_Vector
begin

text \<open>
  The write set of a transaction: \<^verbatim>\<open>detail/pod_hash_set.hpp\<close> over a \<^verbatim>\<open>pod_vector\<close> of
  \<^verbatim>\<open>write_set_value_type\<close>, with the lookup result of \<^verbatim>\<open>detail/write_set_lookup.hpp\<close>. The
  class is a vector searched linearly behind a one-word Bloom filter of the addresses in it.

  The lemmas show that the filter never hides an entry as long as every entry is pushed with the
  hash of its own address, so that \<open>find\<close> and \<open>lookup\<close> agree with a finite map from addresses to
  pending values. The locale \<open>write_buffer\<close> is that contract; reads and writes of a transaction
  are proved against it.
\<close>

section \<open>Hashing an address\<close>

text \<open>The loop of \<open>calcShift\<close>, over \<open>l\<close> and \<open>foo\<close>.\<close>

lemma drop_bit_one_less: "(0 :: 64 word) < foo \<Longrightarrow> unat (drop_bit 1 foo) < unat foo"
proof -
  assume "0 < foo"
  moreover have "unat (drop_bit 1 foo) = unat foo div 2"
    by (simp only: unat_drop_bit_eq) (simp add: drop_bit_eq_div)
  ultimately show ?thesis by (simp add: word_less_nat_alt)
qed

function calcShift_loop :: "hash_t \<Rightarrow> hash_t \<Rightarrow> hash_t" where
  "calcShift_loop l foo = (if foo > 0 then calcShift_loop (l + 1) (drop_bit 1 foo) else l)"
  by pat_completeness auto
termination
  by (relation "measure (\<lambda>(l, foo). unat foo)") (auto dest: drop_bit_one_less)

declare calcShift_loop.simps [simp del]

definition calcShift :: "hash_t \<Rightarrow> hash_t" where
  "calcShift alignof_T = calcShift_loop 0 alignof_T - 1"

text \<open>\<open>alignof(var_aligner) << 1\<close>: the aligner holds two 8-byte atomics.\<close>

definition alignof_var_base :: hash_t where
  "alignof_var_base = push_bit 1 8"

definition dumb_reference_hash :: "hash_t \<Rightarrow> var_ref \<Rightarrow> hash_t" where
  "dumb_reference_hash alignof_T address =
     (let raw_hash = drop_bit (unat (calcShift alignof_T)) address
      in push_bit (unat (raw_hash AND 63)) 1)"

abbreviation var_hash :: "var_ref \<Rightarrow> hash_t" where
  "var_hash \<equiv> dumb_reference_hash alignof_var_base"

lemma calcShift_var_base: "calcShift alignof_var_base = 4"
  by (simp add: calcShift_def alignof_var_base_def calcShift_loop.simps)

lemma dumb_reference_hash_nonzero [simp]: "dumb_reference_hash al a \<noteq> 0"
proof -
  let ?n = "unat ((drop_bit (unat (calcShift al)) a) AND 63)"
  have "?n \<le> unat (63 :: 64 word)"
    by (rule word_and_le1 [THEN word_le_nat_alt [THEN iffD1]])
  then have "?n < 64" by simp
  moreover have "push_bit ?n (1 :: 64 word) = 0 \<Longrightarrow> \<not> ?n < 64"
    using bit_push_bit_iff [of ?n "1 :: 64 word" ?n] by simp
  ultimately show ?thesis
    by (auto simp only: dumb_reference_hash_def Let_def)
qed

section \<open>State\<close>

record write_set_value_type =
  dest_var :: var_ref
  pending_write :: var_storage

record pod_hash_set =
  hs_filter :: hash_t
  hs_data :: "write_set_value_type pod_vector"

definition hs_new :: pod_hash_set where
  "hs_new = \<lparr> hs_filter = 0, hs_data = pv_new \<rparr>"

text \<open>
  The result of \<open>lookup\<close>: a pointer to the slot of the pending write (an offset into the vector),
  or the hash to push with. The hash of a successful lookup is 0.
\<close>

record write_set_lookup =
  wl_hash :: hash_t
  wl_pending_write :: "nat option"

definition lookup_of_pending :: "nat \<Rightarrow> write_set_lookup" where
  "lookup_of_pending slot = \<lparr> wl_hash = 0, wl_pending_write = Some slot \<rparr>"

definition lookup_of_hash :: "hash_t \<Rightarrow> write_set_lookup" where
  "lookup_of_hash h = \<lparr> wl_hash = h, wl_pending_write = None \<rparr>"

definition lookup_success :: "write_set_lookup \<Rightarrow> bool" where
  "lookup_success l \<longleftrightarrow> wl_hash l = 0"

section \<open>Operations\<close>

definition hs_begin :: "pod_hash_set \<Rightarrow> nat" where
  "hs_begin w = 0"

definition hs_end :: "pod_hash_set \<Rightarrow> nat" where
  "hs_end w = pv_end (hs_data w)"

definition hs_empty :: "pod_hash_set \<Rightarrow> bool" where
  "hs_empty w \<longleftrightarrow> pv_empty (hs_data w)"

definition hs_size :: "pod_hash_set \<Rightarrow> nat" where
  "hs_size w = pv_size (hs_data w)"

definition hs_allocates_on_next_push :: "pod_hash_set \<Rightarrow> bool" where
  "hs_allocates_on_next_push w \<longleftrightarrow> pv_allocates_on_next_push (hs_data w)"

definition hs_clear :: "pod_hash_set \<Rightarrow> pod_hash_set" where
  "hs_clear w = w\<lparr> hs_filter := 0, hs_data := pv_clear (hs_data w) \<rparr>"

text \<open>The loop of \<open>find_impl\<close>, from the iterator \<open>result\<close>.\<close>

function find_from :: "pod_hash_set \<Rightarrow> var_ref \<Rightarrow> nat \<Rightarrow> nat" where
  "find_from w ptr result =
     (case pv_deref (hs_data w) result of
        None \<Rightarrow> result
      | Some e \<Rightarrow> if ptr \<noteq> dest_var e then find_from w ptr (Suc result) else result)"
  by pat_completeness auto
termination
  by (relation "measure (\<lambda>(w, ptr, result). hs_end w - result)")
    (auto simp: pv_deref_def hs_end_def split: if_splits)

declare find_from.simps [simp del]

definition find_impl :: "pod_hash_set \<Rightarrow> var_ref \<Rightarrow> nat" where
  "find_impl w value = find_from w value (hs_begin w)"

definition find_slow_path :: "pod_hash_set \<Rightarrow> var_ref \<Rightarrow> nat" where
  "find_slow_path w v = (let iter = find_impl w v in iter)"

definition hs_find :: "pod_hash_set \<Rightarrow> var_ref \<Rightarrow> nat" where
  "hs_find w v = (if hs_filter w AND var_hash v = 0 then hs_end w else find_slow_path w v)"

definition lookup_slow_path :: "pod_hash_set \<Rightarrow> var_ref \<Rightarrow> hash_t \<Rightarrow> write_set_lookup" where
  "lookup_slow_path w v h =
     (let iter = find_impl w v
      in if iter \<noteq> hs_end w then lookup_of_pending iter else lookup_of_hash h)"

definition hs_lookup :: "pod_hash_set \<Rightarrow> var_ref \<Rightarrow> write_set_lookup" where
  "hs_lookup w v =
     (let h = var_hash v
      in if hs_filter w AND h = 0 then lookup_of_hash h else lookup_slow_path w v h)"

definition hs_push_back_assert :: "pod_hash_set \<Rightarrow> var_ref \<Rightarrow> hash_t \<Rightarrow> bool" where
  "hs_push_back_assert w value h \<longleftrightarrow> h \<noteq> 0 \<and> hs_find w value = hs_end w"

definition hs_push_back :: "var_ref \<Rightarrow> var_storage \<Rightarrow> hash_t \<Rightarrow> pod_hash_set \<Rightarrow> pod_hash_set" where
  "hs_push_back value pending h w =
     w\<lparr> hs_filter := hs_filter w OR h,
        hs_data := emplace_back \<lparr> dest_var = value, pending_write = pending \<rparr> (hs_data w) \<rparr>"

definition hs_unchecked_push_back :: "var_ref \<Rightarrow> var_storage \<Rightarrow> hash_t \<Rightarrow> pod_hash_set \<Rightarrow> pod_hash_set" where
  "hs_unchecked_push_back value pending h w =
     w\<lparr> hs_filter := hs_filter w OR h,
        hs_data := unchecked_emplace_back \<lparr> dest_var = value, pending_write = pending \<rparr> (hs_data w) \<rparr>"

text \<open>
  Reading \<open>iter->pending_write()\<close>, and the assignment through the reference that
  \<open>write_set_lookup::pending_write()\<close> returns.
\<close>

definition hs_pending_at :: "pod_hash_set \<Rightarrow> nat \<Rightarrow> var_storage" where
  "hs_pending_at w slot = pending_write (the (pv_deref (hs_data w) slot))"

definition hs_set_pending :: "nat \<Rightarrow> var_storage \<Rightarrow> pod_hash_set \<Rightarrow> pod_hash_set" where
  "hs_set_pending slot s w =
     w\<lparr> hs_data := (hs_data w)\<lparr> pv_mem := (pv_mem (hs_data w))
          (slot := map_option (\<lambda>e. e\<lparr> pending_write := s \<rparr>) (pv_mem (hs_data w) slot)) \<rparr> \<rparr>"

section \<open>Abstraction and invariant\<close>

definition hs_items :: "pod_hash_set \<Rightarrow> write_set_value_type list" where
  "hs_items w = pv_items (hs_data w)"

definition hs_dests :: "pod_hash_set \<Rightarrow> var_ref list" where
  "hs_dests w = map dest_var (hs_items w)"

definition hs_view :: "pod_hash_set \<Rightarrow> var_ref \<rightharpoonup> var_storage" where
  "hs_view w = map_of (map (\<lambda>e. (dest_var e, pending_write e)) (hs_items w))"

definition hs_inv :: "pod_hash_set \<Rightarrow> bool" where
  "hs_inv w \<longleftrightarrow> pv_inv (hs_data w) \<and> distinct (hs_dests w)
     \<and> (\<forall>a \<in> set (hs_dests w). hs_filter w AND var_hash a \<noteq> 0)"

definition hs_pending :: "pod_hash_set \<Rightarrow> var_ref \<Rightarrow> var_storage option" where
  "hs_pending w v = (let iter = hs_find w v in if iter = hs_end w then None else Some (hs_pending_at w iter))"

section \<open>Searching\<close>

lemma hs_end_length: "hs_end w = length (hs_items w)"
  by (simp add: hs_end_def hs_items_def vec_simps)

lemma hs_view_None_iff [ws_simps]: "hs_view w a = None \<longleftrightarrow> a \<notin> set (hs_dests w)"
  by (simp add: hs_view_def hs_dests_def map_of_map_pair_None)

lemma dom_hs_view [ws_simps]: "dom (hs_view w) = set (hs_dests w)"
  by (rule set_eqI) (simp only: domIff hs_view_None_iff not_not)

lemma find_from_takeWhile:
  "pv_inv (hs_data w) \<Longrightarrow> r \<le> length (hs_items w) \<Longrightarrow>
   find_from w a r = r + length (takeWhile (\<lambda>e. a \<noteq> dest_var e) (drop r (hs_items w)))"
proof (induction w a r rule: find_from.induct)
  case (1 w a r)
  show ?case
  proof (cases "r < length (hs_items w)")
    case True
    then have "drop r (hs_items w) = hs_items w ! r # drop (Suc r) (hs_items w)"
      by (simp add: Cons_nth_drop_Suc)
    with 1 True show ?thesis
      by (auto simp: find_from.simps [of w a r] pv_deref_items hs_items_def)
  next
    case False
    with 1 show ?thesis
      by (subst find_from.simps) (simp add: pv_deref_items hs_items_def)
  qed
qed

lemma find_impl_takeWhile:
  "pv_inv (hs_data w) \<Longrightarrow> find_impl w a = length (takeWhile (\<lambda>e. a \<noteq> dest_var e) (hs_items w))"
  by (simp add: find_impl_def hs_begin_def find_from_takeWhile)

lemma takeWhile_dest_bound:
  "length (takeWhile (\<lambda>e. a \<noteq> dest_var e) es) < length es \<longleftrightarrow> a \<in> dest_var ` set es"
  by (induction es) auto

lemma takeWhile_dest_nth:
  "a \<in> dest_var ` set es \<Longrightarrow> dest_var (es ! length (takeWhile (\<lambda>e. a \<noteq> dest_var e) es)) = a"
  by (induction es) auto

text \<open>\<open>find\<close> ignores the filter: an address in the set always passes it.\<close>

lemma hs_find_eq: "hs_inv w \<Longrightarrow> hs_find w a = find_impl w a"
proof (cases "a \<in> set (hs_dests w)")
  case False
  assume "hs_inv w"
  with False show ?thesis
    using takeWhile_dest_bound [of a "hs_items w"]
      length_takeWhile_le [of "\<lambda>e. a \<noteq> dest_var e" "hs_items w"]
    by (auto simp: hs_find_def find_slow_path_def hs_end_length find_impl_takeWhile hs_inv_def hs_dests_def)
qed (simp add: hs_find_def find_slow_path_def hs_inv_def)

lemma hs_find_found:
  assumes "hs_inv w"
  shows "hs_find w a = hs_end w \<longleftrightarrow> a \<notin> set (hs_dests w)"
    and "a \<in> set (hs_dests w) \<Longrightarrow> hs_find w a < hs_end w \<and> dest_var (hs_items w ! hs_find w a) = a"
proof -
  have f: "hs_find w a = length (takeWhile (\<lambda>e. a \<noteq> dest_var e) (hs_items w))"
    using assms by (simp add: hs_find_eq find_impl_takeWhile hs_inv_def)
  show "hs_find w a = hs_end w \<longleftrightarrow> a \<notin> set (hs_dests w)"
    using takeWhile_dest_bound [of a "hs_items w"]
      length_takeWhile_le [of "\<lambda>e. a \<noteq> dest_var e" "hs_items w"]
    by (auto simp: f hs_end_length hs_dests_def)
  show "hs_find w a < hs_end w \<and> dest_var (hs_items w ! hs_find w a) = a"
    if "a \<in> set (hs_dests w)"
    using that takeWhile_dest_bound [of a "hs_items w"] takeWhile_dest_nth [of a "hs_items w"]
    by (simp add: f hs_end_length hs_dests_def)
qed

lemma hs_pending_at_items:
  "hs_inv w \<Longrightarrow> i < hs_end w \<Longrightarrow> hs_pending_at w i = pending_write (hs_items w ! i)"
  by (simp add: hs_pending_at_def hs_inv_def pv_deref_items hs_items_def hs_end_length)

lemma hs_view_nth:
  "hs_inv w \<Longrightarrow> i < hs_end w \<Longrightarrow>
   hs_view w (dest_var (hs_items w ! i)) = Some (pending_write (hs_items w ! i))"
  unfolding hs_view_def hs_inv_def hs_dests_def hs_end_length
  by (intro map_of_map_pair_nth) auto

lemma hs_pending_view [ws_simps]: "hs_inv w \<Longrightarrow> hs_pending w a = hs_view w a"
proof (cases "a \<in> set (hs_dests w)")
  case True
  assume "hs_inv w"
  with True hs_find_found [of w a] hs_view_nth [of w "hs_find w a"] show ?thesis
    by (simp add: hs_pending_def Let_def hs_pending_at_items)
next
  case False
  assume "hs_inv w"
  with False hs_find_found [of w a] show ?thesis
    by (simp add: hs_pending_def ws_simps flip: hs_view_None_iff)
qed

lemma hs_lookup_eq:
  assumes "hs_inv w"
  shows "hs_lookup w a =
    (if a \<in> set (hs_dests w) then lookup_of_pending (hs_find w a) else lookup_of_hash (var_hash a))"
proof (cases "a \<in> set (hs_dests w)")
  case True
  with assms hs_find_found [OF assms, of a] show ?thesis
    by (auto simp: hs_lookup_def Let_def lookup_slow_path_def hs_find_eq hs_inv_def)
next
  case False
  with assms hs_find_found [OF assms, of a] show ?thesis
    by (simp add: hs_lookup_def Let_def lookup_slow_path_def hs_find_eq)
qed

lemma hs_lookup_success [ws_simps]:
  "hs_inv w \<Longrightarrow> lookup_success (hs_lookup w a) \<longleftrightarrow> a \<in> set (hs_dests w)"
  by (simp add: hs_lookup_eq lookup_success_def lookup_of_pending_def lookup_of_hash_def)

lemma hs_lookup_hash [ws_simps]:
  "hs_inv w \<Longrightarrow> a \<notin> set (hs_dests w) \<Longrightarrow> wl_hash (hs_lookup w a) = var_hash a"
  by (simp add: hs_lookup_eq lookup_of_hash_def)

lemma filter_miss:
  "hs_inv w \<Longrightarrow> hs_filter w AND var_hash a = 0 \<Longrightarrow> a \<notin> set (hs_dests w)"
  by (auto simp: hs_inv_def)

section \<open>Pushing, overwriting, clearing\<close>

lemma hs_new_refines: "hs_inv hs_new" "hs_view hs_new = Map.empty" "hs_items hs_new = []"
  by (simp_all add: hs_inv_def hs_new_def hs_dests_def hs_items_def hs_view_def pv_new_refines)

lemma hs_clear_refines:
  "hs_inv w \<Longrightarrow> hs_inv (hs_clear w)"
  "hs_items (hs_clear w) = []"
  "hs_view (hs_clear w) = Map.empty"
  by (simp_all add: hs_inv_def hs_clear_def hs_dests_def hs_items_def hs_view_def pv_clear_refines)

lemma hs_empty_items [ws_simps]: "hs_empty w \<longleftrightarrow> hs_items w = []"
  by (simp add: hs_empty_def hs_items_def vec_simps)

lemma hs_push_back_items [ws_simps]:
  "hs_items (hs_push_back a s h w) = hs_items w @ [\<lparr> dest_var = a, pending_write = s \<rparr>]"
  by (simp add: hs_push_back_def hs_items_def vec_simps)

lemma hs_push_back_dests [ws_simps]: "hs_dests (hs_push_back a s h w) = hs_dests w @ [a]"
  by (simp add: hs_dests_def ws_simps)

lemma hs_push_back_inv:
  assumes "hs_inv w" and "a \<notin> set (hs_dests w)"
  shows "hs_inv (hs_push_back a s (var_hash a) w)"
proof -
  have "(hs_filter w OR var_hash a) AND var_hash b \<noteq> 0" if "b \<in> set (hs_dests w)" for b
    using that assms by (intro or_and_ne_zero_mono) (simp add: hs_inv_def)
  moreover have "(hs_filter w OR var_hash a) AND var_hash a = var_hash a"
    by (rule bit_eqI) (auto simp: bit_simps)
  ultimately show ?thesis
    using assms by (auto simp: hs_inv_def ws_simps) (simp_all add: hs_push_back_def emplace_back_inv)
qed

lemma hs_push_back_view [ws_simps]:
  "a \<notin> set (hs_dests w) \<Longrightarrow> hs_view (hs_push_back a s h w) = (hs_view w)(a \<mapsto> s)"
proof
  fix b assume "a \<notin> set (hs_dests w)"
  then have "map_of (map (\<lambda>e. (dest_var e, pending_write e)) (hs_items w)) a = None"
    by (simp add: map_of_map_pair_None hs_dests_def)
  then show "hs_view (hs_push_back a s h w) b = ((hs_view w)(a \<mapsto> s)) b"
    by (auto simp: hs_view_def ws_simps map_add_def split: option.splits)
qed

lemma hs_unchecked_push_back_eq:
  "hs_inv w \<Longrightarrow> \<not> hs_allocates_on_next_push w \<Longrightarrow>
   hs_unchecked_push_back a s h w = hs_push_back a s h w"
  by (simp add: hs_unchecked_push_back_def hs_push_back_def hs_inv_def hs_allocates_on_next_push_def
      pv.unchecked_push_eq)

lemma hs_set_pending_items:
  assumes "hs_inv w" and "i < hs_end w"
  shows "hs_items (hs_set_pending i s w) = (hs_items w)[i := (hs_items w ! i)\<lparr> pending_write := s \<rparr>]"
proof (rule nth_equalityI)
  show "length (hs_items (hs_set_pending i s w)) =
      length ((hs_items w)[i := (hs_items w ! i)\<lparr> pending_write := s \<rparr>])"
    by (simp add: hs_items_def hs_set_pending_def vec_simps)
next
  fix j assume "j < length (hs_items (hs_set_pending i s w))"
  then have "j < pv_end (hs_data w)"
    by (simp add: hs_items_def hs_set_pending_def vec_simps)
  moreover have "pv_mem (hs_data w) i \<noteq> None"
    using assms by (auto simp: hs_inv_def pv_inv_def hs_end_def)
  ultimately show "hs_items (hs_set_pending i s w) ! j =
      (hs_items w)[i := (hs_items w ! i)\<lparr> pending_write := s \<rparr>] ! j"
    using assms by (auto simp: hs_items_def hs_set_pending_def pv_items_def nth_list_update hs_end_def)
qed

lemma hs_set_pending_dests:
  assumes "hs_inv w" and "i < hs_end w"
  shows "hs_dests (hs_set_pending i s w) = hs_dests w"
  using assms
  by (auto simp: hs_dests_def hs_set_pending_items map_update hs_end_length
      intro!: nth_equalityI simp: nth_list_update)

lemma hs_set_pending_inv: "hs_inv w \<Longrightarrow> i < hs_end w \<Longrightarrow> hs_inv (hs_set_pending i s w)"
  using hs_set_pending_dests [of w i s]
  by (auto simp: hs_inv_def hs_set_pending_def pv_inv_def)

lemma hs_set_pending_view:
  assumes "hs_inv w" and "i < hs_end w"
  shows "hs_view (hs_set_pending i s w) = (hs_view w)(dest_var (hs_items w ! i) \<mapsto> s)"
proof
  fix a
  let ?w = "hs_set_pending i s w"
  have inv: "hs_inv ?w" and end_eq: "hs_end ?w = hs_end w"
    using assms by (auto simp: hs_set_pending_inv hs_end_length hs_set_pending_items)
  have nth: "hs_items ?w ! j = (if j = i then (hs_items w ! i)\<lparr> pending_write := s \<rparr> else hs_items w ! j)"
    if "j < hs_end w" for j
    using that assms by (auto simp: hs_set_pending_items nth_list_update hs_end_length)
  show "hs_view ?w a = ((hs_view w)(dest_var (hs_items w ! i) \<mapsto> s)) a"
  proof (cases "a \<in> set (hs_dests w)")
    case False
    moreover have "a \<noteq> dest_var (hs_items w ! i)"
      using False assms by (auto simp: hs_dests_def hs_end_length)
    ultimately show ?thesis
      using hs_view_None_iff [of w a] hs_view_None_iff [of ?w a] hs_set_pending_dests [OF assms]
      by simp
  next
    case True
    then obtain j where j: "j < hs_end w" "dest_var (hs_items w ! j) = a"
      by (auto simp: hs_dests_def in_set_conv_nth hs_end_length)
    show ?thesis
    proof (cases "j = i")
      case True
      then show ?thesis using hs_view_nth [OF inv, of j] j end_eq nth by auto
    next
      case False
      have "distinct (hs_dests w)" using assms by (simp add: hs_inv_def)
      then have "dest_var (hs_items w ! i) \<noteq> a"
        using j False assms by (auto simp: hs_dests_def hs_end_length distinct_conv_nth)
      then show ?thesis
        using hs_view_nth [OF inv, of j] hs_view_nth [OF assms(1), of j] j end_eq nth False by auto
    qed
  qed
qed

section \<open>The interface of the write set\<close>

text \<open>
  The two ways a write reaches the set once its address has been looked up: a push with the hash
  the lookup returned, or an assignment through the slot it returned.
\<close>

definition hs_add_looked_up :: "var_ref \<Rightarrow> var_storage \<Rightarrow> pod_hash_set \<Rightarrow> pod_hash_set" where
  "hs_add_looked_up a s w = hs_push_back a s (wl_hash (hs_lookup w a)) w"

definition hs_overwrite_looked_up :: "var_ref \<Rightarrow> var_storage \<Rightarrow> pod_hash_set \<Rightarrow> pod_hash_set" where
  "hs_overwrite_looked_up a s w = hs_set_pending (the (wl_pending_write (hs_lookup w a))) s w"

locale write_buffer =
  fixes inv :: "'w \<Rightarrow> bool"
    and view :: "'w \<Rightarrow> 'a \<rightharpoonup> 'b"
    and find :: "'w \<Rightarrow> 'a \<Rightarrow> 'b option"
    and add :: "'a \<Rightarrow> 'b \<Rightarrow> 'w \<Rightarrow> 'w"
    and overwrite :: "'a \<Rightarrow> 'b \<Rightarrow> 'w \<Rightarrow> 'w"
    and clear :: "'w \<Rightarrow> 'w"
  assumes find_view: "inv w \<Longrightarrow> find w a = view w a"
    and inv_add: "inv w \<Longrightarrow> view w a = None \<Longrightarrow> inv (add a s w)"
    and view_add: "inv w \<Longrightarrow> view w a = None \<Longrightarrow> view (add a s w) = (view w)(a \<mapsto> s)"
    and inv_overwrite: "inv w \<Longrightarrow> view w a \<noteq> None \<Longrightarrow> inv (overwrite a s w)"
    and view_overwrite: "inv w \<Longrightarrow> view w a \<noteq> None \<Longrightarrow> view (overwrite a s w) = (view w)(a \<mapsto> s)"
    and inv_clear: "inv w \<Longrightarrow> inv (clear w)"
    and view_clear: "inv w \<Longrightarrow> view (clear w) = Map.empty"
begin

lemma write_refines:
  assumes "inv w"
  shows "inv (if find w a = None then add a s w else overwrite a s w)"
    and "view (if find w a = None then add a s w else overwrite a s w) = (view w)(a \<mapsto> s)"
  using assms by (auto simp: find_view inv_add view_add inv_overwrite view_overwrite)

text \<open>A series of writes leaves the last value written to each address, over what was there.\<close>

lemma write_many:
  assumes "inv w"
  shows "inv (fold (\<lambda>(a, s) w. if find w a = None then add a s w else overwrite a s w) ws w) \<and>
    view (fold (\<lambda>(a, s) w. if find w a = None then add a s w else overwrite a s w) ws w) =
      view w ++ map_of (rev ws)"
  using assms
proof (induction ws arbitrary: w)
  case (Cons x ws)
  obtain a s where x: "x = (a, s)" by (cases x)
  let ?w = "if find w a = None then add a s w else overwrite a s w"
  note this_write = write_refines [OF Cons.prems, of a s]
  have "view w ++ map_of (rev (x # ws)) = view ?w ++ map_of (rev ws)"
    by (simp only: this_write x rev.simps map_of_append map_add_assoc)
      (simp add: map_add_upd)
  with Cons.IH [OF this_write(1)] x show ?case by simp
qed simp

lemma read_own_write:
  assumes "inv w"
  shows "find (if find w a = None then add a s w else overwrite a s w) b =
    (if b = a then Some s else find w b)"
  using write_refines [OF assms, of a s] find_view [OF assms] by (simp add: find_view)

end

interpretation ws: write_buffer hs_inv hs_view hs_pending hs_add_looked_up hs_overwrite_looked_up hs_clear
proof (unfold_locales, goal_cases)
  case (1 w a)
  then show ?case by (rule hs_pending_view)
next
  case (2 w a s)
  then show ?case by (simp add: hs_add_looked_up_def hs_view_None_iff hs_push_back_inv hs_lookup_hash)
next
  case (3 w a s)
  then show ?case by (simp add: hs_add_looked_up_def hs_view_None_iff hs_push_back_view)
next
  case (4 w a s)
  then show ?case
    using hs_find_found [of w a]
    by (simp add: hs_overwrite_looked_up_def hs_view_None_iff hs_lookup_eq lookup_of_pending_def
        hs_set_pending_inv)
next
  case (5 w a s)
  then show ?case
    using hs_find_found [of w a]
    by (simp add: hs_overwrite_looked_up_def hs_view_None_iff hs_lookup_eq lookup_of_pending_def
        hs_set_pending_view)
qed (simp_all add: hs_clear_refines)

section \<open>Properties\<close>

text \<open>C34: The write set is a finite map. \<open>lookup\<close> succeeds exactly on the addresses that were written,
  in spite of collisions in the Bloom filter, and adding or overwriting through what \<open>lookup\<close>
  returned updates that map at one address.\<close>

theorem write_set_is_map:
  assumes "hs_inv w"
  shows "(lookup_success (hs_lookup w a) \<longleftrightarrow> hs_view w a \<noteq> None)
    \<and> hs_pending w a = hs_view w a
    \<and> (let w' = (if lookup_success (hs_lookup w a) then hs_overwrite_looked_up a s w else hs_add_looked_up a s w)
       in hs_inv w' \<and> hs_view w' = (hs_view w)(a \<mapsto> s))"
proof -
  have "lookup_success (hs_lookup w a) \<longleftrightarrow> hs_view w a \<noteq> None"
    using assms hs_view_None_iff [of w a] by (simp add: ws_simps)
  then show ?thesis
    using ws.write_refines [OF assms, of a s] ws.find_view [OF assms, of a] by (auto simp: Let_def)
qed

text \<open>Two addresses that share a bit of the filter.\<close>

definition colliding_set :: pod_hash_set where
  "colliding_set = hs_add_looked_up 16 5 hs_new"

theorem write_set_is_map_witness:
  "var_hash 1040 = var_hash 16 \<and> \<not> lookup_success (hs_lookup colliding_set 1040)
   \<and> hs_pending colliding_set 16 = Some 5"
proof -
  have base: "hs_view hs_new 16 = None" "hs_inv hs_new" by (simp_all add: hs_new_refines)
  then have "\<not> lookup_success (hs_lookup hs_new 16)" using write_set_is_map by blast
  then have w: "hs_inv colliding_set" "hs_view colliding_set = (hs_view hs_new)(16 \<mapsto> 5)"
    using write_set_is_map [OF base(2), of 16 5] by (auto simp: colliding_set_def Let_def)
  have "var_hash 1040 = var_hash 16"
    by (simp add: dumb_reference_hash_def calcShift_var_base drop_bit_eq_div)
  with w show ?thesis
    using write_set_is_map [OF w(1), of 1040 0] write_set_is_map [OF w(1), of 16 0]
    by (simp add: hs_new_refines)
qed

end
