(* ===== verification/Quiescence_Buffer.thy ===== *)
theory Quiescence_Buffer
  imports Prelude
begin

text \<open>
  The ring buffer of deferred callbacks of \<^verbatim>\<open>detail/quiescence_buffer.hpp\<close>. The callbacks of one
  transaction form a chunk: a header (epoch, size, size of the chunk before) followed by the
  callbacks. The last chunk, from \<open>epoch_begin\<close> on, belongs to the running transaction and its
  header has no epoch or size yet. Indices are 64-bit words that are reduced by \<open>wrap\<close> when they
  address the buffer, as in the code; \<open>write_pos\<close> itself is not reduced and may wrap around.

  \<open>qb_rep q chunks working\<close> relates the buffer to a queue of finished chunks and the list of
  working callbacks. The lemmas show that every operation of the class is the expected operation
  on that queue, through the growth of the buffer and the wrap-around of the indices.

  Callbacks are values of a type parameter. \<open>do_first_epoch_callbacks\<close> returns the callbacks it
  invokes, in order; a callback that re-enters the same buffer is not modelled.
\<close>

section \<open>State\<close>

record quiescence_header =
  qh_epoch :: "epoch_t option"
  qh_size :: "uword option"
  qh_prev_size :: uword

datatype 'cb quiescence_buf_elem = Header quiescence_header | Callback 'cb

definition is_power_of_two :: "uword \<Rightarrow> bool" where
  "is_power_of_two u \<longleftrightarrow> u \<noteq> 0 \<and> u AND (u - 1) = 0"

definition ReclaimLimit :: uword where
  "ReclaimLimit = 1024"

record 'cb quiescence_buffer =
  qb_write_pos :: uword
  qb_epoch_begin :: uword
  qb_ring_begin :: uword
  qb_buffer :: "uword \<Rightarrow> 'cb quiescence_buf_elem option"
  qb_last_valid_index :: uword

section \<open>Operations\<close>

definition qb_capacity :: "'cb quiescence_buffer \<Rightarrow> uword" where
  "qb_capacity q = qb_last_valid_index q + 1"

definition qb_wrap :: "'cb quiescence_buffer \<Rightarrow> uword \<Rightarrow> uword" where
  "qb_wrap q index = index AND (qb_capacity q - 1)"

definition qb_size :: "'cb quiescence_buffer \<Rightarrow> uword" where
  "qb_size q = qb_wrap q (qb_write_pos q - qb_ring_begin q)"

definition working_epoch_size :: "'cb quiescence_buffer \<Rightarrow> uword" where
  "working_epoch_size q = qb_wrap q (qb_write_pos q - qb_epoch_begin q)"

definition qb_reserve_assert :: "'cb quiescence_buffer \<Rightarrow> bool" where
  "qb_reserve_assert q \<longleftrightarrow> push_bit 1 (qb_capacity q) > qb_capacity q"

definition qb_reserve_more :: "'cb quiescence_buffer \<Rightarrow> 'cb quiescence_buffer" where
  "qb_reserve_more q =
     (let first_chunk_size = qb_capacity q - qb_ring_begin q;
          new_buffer = (\<lambda>i. if i < first_chunk_size then qb_buffer q (qb_ring_begin q + i)
            else if i < first_chunk_size + qb_ring_begin q then qb_buffer q (i - first_chunk_size)
            else None)
      in \<lparr> qb_write_pos = qb_capacity q,
           qb_epoch_begin = qb_wrap q (qb_epoch_begin q - qb_ring_begin q),
           qb_ring_begin = 0,
           qb_buffer = new_buffer,
           qb_last_valid_index = push_bit 1 (qb_capacity q) - 1 \<rparr>)"

definition initialize_header :: "uword \<Rightarrow> 'cb quiescence_buf_elem" where
  "initialize_header prev_size = Header \<lparr> qh_epoch = None, qh_size = None, qh_prev_size = prev_size \<rparr>"

definition qb_new :: "'cb quiescence_buffer" where
  "qb_new = \<lparr> qb_write_pos = 1, qb_epoch_begin = 0, qb_ring_begin = 0,
     qb_buffer = (\<lambda>_. None)(0 := Some (initialize_header 0)),
     qb_last_valid_index = ReclaimLimit * 2 - 1 \<rparr>"

definition qb_empty :: "'cb quiescence_buffer \<Rightarrow> bool" where
  "qb_empty q \<longleftrightarrow> qb_size q = 1"

definition qb_allocates_on_next_push :: "'cb quiescence_buffer \<Rightarrow> bool" where
  "qb_allocates_on_next_push q \<longleftrightarrow> qb_wrap q (qb_write_pos q - qb_ring_begin q) = qb_last_valid_index q"

definition working_epoch_empty :: "'cb quiescence_buffer \<Rightarrow> bool" where
  "working_epoch_empty q \<longleftrightarrow> working_epoch_size q = 1"

definition clear_working_epoch :: "'cb quiescence_buffer \<Rightarrow> 'cb quiescence_buffer" where
  "clear_working_epoch q = q\<lparr> qb_write_pos := qb_epoch_begin q + 1 \<rparr>"

definition qb_unchecked_emplace_back :: "'cb \<Rightarrow> 'cb quiescence_buffer \<Rightarrow> 'cb quiescence_buffer" where
  "qb_unchecked_emplace_back c q =
     q\<lparr> qb_buffer := (qb_buffer q)(qb_wrap q (qb_write_pos q) := Some (Callback c)),
        qb_write_pos := qb_write_pos q + 1 \<rparr>"

definition qb_emplace_back :: "'cb \<Rightarrow> 'cb quiescence_buffer \<Rightarrow> 'cb quiescence_buffer" where
  "qb_emplace_back c q =
     (let q' = q\<lparr> qb_buffer := (qb_buffer q)(qb_wrap q (qb_write_pos q) := Some (Callback c)),
                  qb_write_pos := qb_write_pos q + 1 \<rparr>
      in if qb_wrap q' (qb_write_pos q') = qb_ring_begin q' then qb_reserve_more q' else q')"

text \<open>Writing a field of the header at \<open>buffer[i]\<close>, and reading the header there.\<close>

definition set_header :: "uword \<Rightarrow> (quiescence_header \<Rightarrow> quiescence_header) \<Rightarrow>
    'cb quiescence_buffer \<Rightarrow> 'cb quiescence_buffer" where
  "set_header i f q =
     (case qb_buffer q i of
        Some (Header h) \<Rightarrow> q\<lparr> qb_buffer := (qb_buffer q)(i := Some (Header (f h))) \<rparr>
      | _ \<Rightarrow> q)"

definition header_at :: "'cb quiescence_buffer \<Rightarrow> uword \<Rightarrow> quiescence_header option" where
  "header_at q i = (case qb_buffer q i of Some (Header h) \<Rightarrow> Some h | _ \<Rightarrow> None)"

definition finalize_epoch :: "epoch_t \<Rightarrow> 'cb quiescence_buffer \<Rightarrow> bool \<times> 'cb quiescence_buffer" where
  "finalize_epoch epoch q =
     (if working_epoch_empty q then (False, q)
      else
        let q1 = set_header (qb_epoch_begin q) (\<lambda>h. h\<lparr> qh_epoch := Some epoch \<rparr>) q;
            q2 = set_header (qb_epoch_begin q1) (\<lambda>h. h\<lparr> qh_size := Some (working_epoch_size q1) \<rparr>) q1;
            prev_size = working_epoch_size q2;
            q3 = q2\<lparr> qb_epoch_begin := qb_wrap q2 (qb_write_pos q2) \<rparr>;
            q4 = q3\<lparr> qb_buffer := (qb_buffer q3)(qb_epoch_begin q3 := Some (initialize_header prev_size)) \<rparr>;
            q5 = q4\<lparr> qb_write_pos := qb_write_pos q4 + 1 \<rparr>;
            q6 = (if qb_wrap q5 (qb_write_pos q5) = qb_ring_begin q5 then qb_reserve_more q5 else q5)
        in (qb_size q6 \<ge> ReclaimLimit, q6))"

text \<open>The loop \<open>for (; cur_idx != end; ++cur_idx) buffer[wrap(cur_idx)].callback()\<close>.\<close>

lemma word_distance_Suc: "(cur :: 64 word) \<noteq> fin \<Longrightarrow> unat (fin - (cur + 1)) < unat (fin - cur)"
proof -
  assume "cur \<noteq> fin"
  then have "unat (fin - cur - 1) < unat (fin - cur)"
    by (intro measure_unat) simp
  then show ?thesis by (simp add: diff_diff_eq)
qed

function run_callbacks :: "'cb quiescence_buffer \<Rightarrow> uword \<Rightarrow> uword \<Rightarrow> 'cb list option" where
  "run_callbacks q cur_idx fin =
     (if cur_idx = fin then Some []
      else case qb_buffer q (qb_wrap q cur_idx) of
          Some (Callback c) \<Rightarrow> map_option (\<lambda>cs. c # cs) (run_callbacks q (cur_idx + 1) fin)
        | _ \<Rightarrow> None)"
  by pat_completeness auto
termination
  by (relation "measure (\<lambda>(q, cur, fin). unat (fin - cur))") (auto dest: word_distance_Suc)

declare run_callbacks.simps [simp del]

definition do_first_epoch_callbacks :: "'cb quiescence_buffer \<Rightarrow> ('cb list \<times> 'cb quiescence_buffer) option" where
  "do_first_epoch_callbacks q =
     (let cur_idx = qb_ring_begin q in
      case Option.bind (header_at q cur_idx) qh_size of
        None \<Rightarrow> None
      | Some cur_size \<Rightarrow>
          let fin = cur_idx + cur_size
          in map_option (\<lambda>cs. (cs, q\<lparr> qb_ring_begin := qb_wrap q fin \<rparr>)) (run_callbacks q (cur_idx + 1) fin))"

definition back_epoch :: "'cb quiescence_buffer \<Rightarrow> epoch_t option" where
  "back_epoch q =
     (case header_at q (qb_epoch_begin q) of
        None \<Rightarrow> None
      | Some h \<Rightarrow>
          Option.bind (header_at q (qb_wrap q (qb_epoch_begin q - qh_prev_size h))) qh_epoch)"

definition front_epoch :: "'cb quiescence_buffer \<Rightarrow> epoch_t option" where
  "front_epoch q = Option.bind (header_at q (qb_ring_begin q)) qh_epoch"

section \<open>Ring positions\<close>

text \<open>
  \<open>qb_holds q k es\<close>: the capacity is \<open>2 ^ k\<close> and the elements \<open>es\<close> lie in the ring from
  \<open>ring_begin\<close> up to \<open>write_pos\<close>. It allows a full ring, which exists only inside an operation,
  before \<open>reserve_more\<close>.
\<close>

definition qb_pos :: "nat \<Rightarrow> uword \<Rightarrow> nat \<Rightarrow> uword" where
  "qb_pos k rb j = take_bit k (rb + of_nat j)"

definition qb_holds :: "'cb quiescence_buffer \<Rightarrow> nat \<Rightarrow> 'cb quiescence_buf_elem list \<Rightarrow> bool" where
  "qb_holds q k es \<longleftrightarrow> 0 < k \<and> k < 64 \<and> qb_last_valid_index q = mask k \<and> take_bit k (qb_ring_begin q) = qb_ring_begin q
     \<and> length es \<le> 2 ^ k
     \<and> (\<forall>j < length es. qb_buffer q (qb_pos k (qb_ring_begin q) j) = Some (es ! j))
     \<and> take_bit k (qb_write_pos q) = qb_pos k (qb_ring_begin q) (length es)"

lemma qb_capacity_mask: "qb_last_valid_index q = mask k \<Longrightarrow> qb_capacity q - 1 = mask k"
  by (simp add: qb_capacity_def)

lemma qb_wrap_take_bit: "qb_last_valid_index q = mask k \<Longrightarrow> qb_wrap q i = take_bit k i"
  by (simp add: qb_wrap_def qb_capacity_mask take_bit_eq_mask)

lemma unat_take_bit: "unat (take_bit k (w :: uword)) = unat w mod 2 ^ k"
  by (simp only: unsigned_take_bit_eq) (simp add: take_bit_eq_mod)

lemma pow2_dvd_64: "k \<le> 64 \<Longrightarrow> (2 :: nat) ^ k dvd 2 ^ 64"
  by (rule le_imp_power_dvd)

lemma unat_qb_pos:
  assumes "k < 64"
  shows "unat (qb_pos k rb j) = (unat rb + j) mod 2 ^ k"
proof -
  have dvd: "(2 :: nat) ^ k dvd 2 ^ LENGTH(64)"
    using assms pow2_dvd_64 [of k] by simp
  have "unat (rb + of_nat j) = (unat rb + j mod 2 ^ LENGTH(64)) mod 2 ^ LENGTH(64)"
    by (simp only: unat_word_ariths unat_of_nat)
  then show ?thesis
    by (simp only: qb_pos_def unat_take_bit mod_mod_cancel [OF dvd] mod_add_right_eq)
qed

lemma uint_take_bit: "uint (take_bit k (w :: uword)) = uint w mod 2 ^ k"
  by (simp only: unsigned_take_bit_eq) (simp add: take_bit_eq_mod)

lemma take_bit_add_left: "take_bit k (take_bit k (x :: uword) + y) = take_bit k (x + y)"
  and take_bit_diff_word: "take_bit k (take_bit k x - take_bit k y) = take_bit k (x - y)"
proof (atomize (full), cases "k < 64")
  case True
  have dvd: "(2 :: int) ^ k dvd 2 ^ LENGTH(64)"
    by (rule le_imp_power_dvd) (use True in simp)
  show "take_bit k (take_bit k x + y) = take_bit k (x + y) \<and>
      take_bit k (take_bit k x - take_bit k y) = take_bit k (x - y)"
    by (simp only: word_uint_eq_iff uint_take_bit uint_word_ariths mod_mod_cancel [OF dvd]
        mod_diff_eq mod_add_left_eq)
next
  case False
  then show "take_bit k (take_bit k x + y) = take_bit k (x + y) \<and>
      take_bit k (take_bit k x - take_bit k y) = take_bit k (x - y)"
    by (simp add: take_bit_word_eq_self)
qed

lemma qb_pos_0: "take_bit k rb = rb \<Longrightarrow> qb_pos k rb 0 = rb"
  by (simp add: qb_pos_def)

lemma take_bit_qb_pos [simp]: "take_bit k (qb_pos k rb j) = qb_pos k rb j"
  by (simp add: qb_pos_def)

lemma qb_pos_add: "take_bit k (qb_pos k rb i + of_nat j) = qb_pos k rb (i + j)"
  by (simp add: qb_pos_def take_bit_add_left add.assoc)

lemma qb_pos_qb_pos: "qb_pos k (qb_pos k rb i) j = qb_pos k rb (i + j)"
  by (simp add: qb_pos_def take_bit_add_left add.assoc)

lemma take_bit_take_bit_self: "take_bit k (take_bit k (w :: uword)) = take_bit k w"
  by simp

lemma qb_pos_Suc: "take_bit k (qb_pos k rb i + 1) = qb_pos k rb (Suc i)"
  using qb_pos_add [of k rb i 1] by simp

lemma of_nat_small: "k < 64 \<Longrightarrow> i < 2 ^ k \<Longrightarrow> unat (of_nat i :: uword) = i"
proof -
  assume "k < 64" and "i < 2 ^ k"
  then have "i < 2 ^ LENGTH(64)"
    using power_strict_increasing [of k 64 "2 :: nat"] by simp
  then show ?thesis by (simp only: unat_of_nat mod_less)
qed

lemma qb_pos_diff:
  assumes "k < 64" and "d < 2 ^ k"
  shows "take_bit k (qb_pos k rb (i + d) - qb_pos k rb i) = of_nat d"
proof -
  have "take_bit k (qb_pos k rb (i + d) - qb_pos k rb i) = take_bit k (of_nat d)"
    by (simp add: qb_pos_def take_bit_diff_word)
  also have "\<dots> = of_nat d"
    using assms by (simp add: word_unat_eq_iff unat_take_bit of_nat_small)
  finally show ?thesis .
qed

lemma qb_pos_inj:
  assumes "k < 64" and "i < 2 ^ k" and "j < 2 ^ k" and "qb_pos k rb i = qb_pos k rb j"
  shows "i = j"
proof -
  have *: "j - i = 0" if "i \<le> j" and "j < 2 ^ k" and "qb_pos k rb j = qb_pos k rb i" for i j
  proof -
    have "of_nat (j - i) = (0 :: uword)"
      using qb_pos_diff [OF assms(1), of "j - i" rb i] that by simp
    moreover have "unat (of_nat (j - i) :: uword) = j - i"
      using that by (intro of_nat_small [OF assms(1)]) simp
    ultimately show ?thesis by simp
  qed
  from assms have "i \<le> j \<Longrightarrow> j - i = 0" and "j \<le> i \<Longrightarrow> i - j = 0"
    by (metis *)+
  then show ?thesis by arith
qed

lemma qb_pos_full: "k < 64 \<Longrightarrow> qb_pos k rb (2 ^ k) = qb_pos k rb 0"
  by (simp add: word_unat_eq_iff unat_qb_pos)

section \<open>Pushing an element, growing a full ring\<close>

lemma qb_holds_push:
  assumes "qb_holds q k es" and "length es < 2 ^ k"
  shows "qb_holds (q\<lparr> qb_buffer := (qb_buffer q)(qb_wrap q (qb_write_pos q) := Some e),
      qb_write_pos := qb_write_pos q + 1 \<rparr>) k (es @ [e])"
proof -
  let ?rb = "qb_ring_begin q"
  have h: "k < 64" "qb_last_valid_index q = mask k"
      "take_bit k (qb_write_pos q) = qb_pos k ?rb (length es)"
    using assms(1) by (simp_all add: qb_holds_def)
  have "qb_pos k ?rb j \<noteq> qb_pos k ?rb (length es)" if "j < length es" for j
    using qb_pos_inj [OF h(1), of j "length es" ?rb] that assms(2) by auto
  moreover have "take_bit k (qb_write_pos q + 1) = qb_pos k ?rb (Suc (length es))"
    using take_bit_add_left [of k "qb_write_pos q" 1] h(3) by (simp add: qb_pos_Suc)
  ultimately show ?thesis
    using assms h by (auto simp: qb_holds_def qb_wrap_take_bit nth_append less_Suc_eq)
qed

definition qb_grow :: "'cb quiescence_buffer \<Rightarrow> 'cb quiescence_buffer" where
  "qb_grow q = (if qb_wrap q (qb_write_pos q) = qb_ring_begin q then qb_reserve_more q else q)"

lemma qb_full_iff:
  assumes "qb_holds q k es" and "0 < length es"
  shows "qb_wrap q (qb_write_pos q) = qb_ring_begin q \<longleftrightarrow> length es = 2 ^ k"
proof -
  let ?rb = "qb_ring_begin q"
  have h: "k < 64" "qb_wrap q (qb_write_pos q) = qb_pos k ?rb (length es)" "qb_pos k ?rb 0 = ?rb"
      "length es \<le> 2 ^ k"
    using assms(1) by (simp_all add: qb_holds_def qb_wrap_take_bit qb_pos_0)
  then show ?thesis
    using qb_pos_inj [OF h(1), of "length es" 0 ?rb] qb_pos_full [OF h(1), of ?rb] assms(2)
    by (cases "length es = 2 ^ k") auto
qed

lemma unat_mask_Suc: "k < 64 \<Longrightarrow> unat (mask k + 1 :: uword) = 2 ^ k"
proof -
  assume "k < 64"
  then have "(2 :: nat) ^ k < 2 ^ LENGTH(64)"
    by (simp only: power_strict_increasing_iff) simp
  then have "unat (of_nat (2 ^ k) :: uword) = 2 ^ k"
    by (simp only: unat_of_nat mod_less)
  then show ?thesis by (simp add: mask_eq_exp_minus_1)
qed

lemma push_bit_mask_Suc: "push_bit 1 (mask k + 1 :: uword) - 1 = mask (Suc k)"
  by (simp add: mask_eq_exp_minus_1 push_bit_eq_mult)

lemma reserve_assert_iff:
  assumes "qb_holds q k es"
  shows "qb_reserve_assert q \<longleftrightarrow> Suc k < 64"
proof -
  have k: "k < 64" and cap: "qb_capacity q = mask k + 1"
    using assms by (simp_all add: qb_holds_def qb_capacity_def)
  have d: "push_bit 1 (qb_capacity q) = mask (Suc k) + 1"
    using push_bit_mask_Suc [of k] cap by (simp add: eq_diff_eq)
  show ?thesis
  proof (cases "Suc k < 64")
    case True
    then show ?thesis
      unfolding qb_reserve_assert_def d unfolding cap word_less_nat_alt unat_mask_Suc [OF True] unat_mask_Suc [OF k]
      by simp
  next
    case False
    with k have "Suc k = LENGTH(64)" by simp
    then have "mask (Suc k) = (- 1 :: uword)"
      by (metis mask_eq_take_bit_minus_one take_bit_word_eq_self order_refl)
    then show ?thesis
      unfolding qb_reserve_assert_def d using False by simp
  qed
qed

text \<open>The copy made by \<open>reserve_more\<close> straightens the ring: slot \<open>i\<close> gets its \<open>i\<close>-th element.\<close>

lemma reserve_more_buffer:
  assumes "qb_holds q k es" and "j < 2 ^ k"
  shows "qb_buffer (qb_reserve_more q) (of_nat j) = qb_buffer q (qb_pos k (qb_ring_begin q) j)"
proof -
  let ?rb = "qb_ring_begin q" and ?f = "qb_capacity q - qb_ring_begin q"
  have k: "k < 64" and rb: "take_bit k ?rb = ?rb" and cap: "qb_capacity q = mask k + 1"
    using assms(1) by (simp_all add: qb_holds_def qb_capacity_def)
  have ucap: "unat (qb_capacity q) = 2 ^ k"
    using unat_mask_Suc [OF k] cap by simp
  have urb: "unat ?rb < 2 ^ k"
    using arg_cong [OF rb, of unat] by (simp add: unat_take_bit) (metis mod_less_divisor zero_less_numeral zero_less_power)
  have uf: "unat ?f = 2 ^ k - unat ?rb"
    using urb ucap by (simp add: unat_sub word_le_nat_alt)
  have uj: "unat (of_nat j :: uword) = j"
    using assms(2) by (rule of_nat_small [OF k])
  have upos: "unat (qb_pos k ?rb j) = (unat ?rb + j) mod 2 ^ k"
    by (rule unat_qb_pos [OF k])
  have k64: "(2 :: nat) ^ k \<le> 2 ^ 63"
    by (rule power_increasing) (use k in simp_all)
  show ?thesis
  proof (cases "j < 2 ^ k - unat ?rb")
    case True
    then have "unat (?rb + of_nat j) = unat ?rb + j"
      using uj urb k64 by (subst unat_add_lem [THEN iffD1]) auto
    with True have "?rb + of_nat j = qb_pos k ?rb j"
      using upos by (simp add: word_unat_eq_iff)
    with True uf uj show ?thesis
      by (simp add: qb_reserve_more_def Let_def word_less_nat_alt)
  next
    case False
    then have le: "?f \<le> of_nat j" using uf uj by (simp add: word_le_nat_alt)
    have "unat (of_nat j - ?f) = unat ?rb + j - 2 ^ k"
      using False uf uj urb assms(2) le by (simp add: unat_sub)
    moreover have "(unat ?rb + j) mod 2 ^ k = unat ?rb + j - 2 ^ k"
    proof -
      have "2 ^ k \<le> unat ?rb + j" using False by simp
      moreover have "unat ?rb + j - 2 ^ k < 2 ^ k" using urb assms(2) by simp
      ultimately show ?thesis by (simp add: le_mod_geq)
    qed
    ultimately have "of_nat j - ?f = qb_pos k ?rb j"
      using upos by (simp add: word_unat_eq_iff)
    moreover have "\<not> of_nat j < ?f" using le by simp
    moreover have "of_nat j < ?f + ?rb"
      using uj ucap assms(2) by (simp add: word_less_nat_alt)
    ultimately show ?thesis
      by (simp add: qb_reserve_more_def Let_def)
  qed
qed

lemma qb_pos_zero: "k < 64 \<Longrightarrow> j < 2 ^ k \<Longrightarrow> qb_pos k 0 j = of_nat j"
  by (simp add: qb_pos_def word_unat_eq_iff unat_take_bit of_nat_small)

lemma reserve_more_holds:
  assumes "qb_holds q k es" and "length es = 2 ^ k" and "Suc k < 64"
  shows "qb_holds (qb_reserve_more q) (Suc k) es"
proof -
  have k: "k < 64" and cap: "qb_capacity q = mask k + 1"
    using assms(1) by (simp_all add: qb_holds_def qb_capacity_def)
  have b: "qb_buffer (qb_reserve_more q) (qb_pos (Suc k) 0 j) = Some (es ! j)" if "j < length es" for j
    using that assms qb_pos_zero [of "Suc k" j] reserve_more_buffer [OF assms(1), of j]
    by (simp add: qb_holds_def)
  have "of_nat (2 ^ k) = (mask k + 1 :: uword)"
    by (simp add: mask_eq_exp_minus_1)
  then have w: "take_bit (Suc k) (mask k + 1) = qb_pos (Suc k) 0 (2 ^ k)"
    by (simp add: qb_pos_def)
  show ?thesis
    using assms b w push_bit_mask_Suc [of k]
    by (simp add: qb_holds_def qb_reserve_more_def Let_def cap)
qed

lemma qb_grow_holds:
  assumes h: "qb_holds q k es" and m: "m < length es"
    and eb: "qb_epoch_begin q = qb_pos k (qb_ring_begin q) m"
    and room: "length es = 2 ^ k \<Longrightarrow> qb_reserve_assert q"
  shows "\<exists>k'. qb_holds (qb_grow q) k' es \<and> length es < 2 ^ k'
    \<and> qb_epoch_begin (qb_grow q) = qb_pos k' (qb_ring_begin (qb_grow q)) m"
proof (cases "length es = 2 ^ k")
  case True
  then have k: "Suc k < 64" and q: "qb_grow q = qb_reserve_more q"
    using room reserve_assert_iff [OF h] qb_full_iff [OF h] m by (auto simp: qb_grow_def)
  have rb: "qb_pos k (qb_ring_begin q) 0 = qb_ring_begin q" and mask: "qb_last_valid_index q = mask k"
    using h by (simp_all add: qb_holds_def qb_pos_0)
  have "qb_wrap q (qb_epoch_begin q - qb_ring_begin q) = of_nat m"
    using qb_pos_diff [of k m "qb_ring_begin q" 0] m True k by (simp add: qb_wrap_take_bit [OF mask] eb rb)
  then have "qb_epoch_begin (qb_reserve_more q) = qb_pos (Suc k) (qb_ring_begin (qb_reserve_more q)) m"
    using qb_pos_zero [OF k, of m] m True by (simp add: qb_reserve_more_def Let_def)
  then show ?thesis
    using reserve_more_holds [OF h True k] True m by (intro exI [of _ "Suc k"]) (simp add: q)
next
  case False
  then have "length es < 2 ^ k" and "qb_grow q = q"
    using h m qb_full_iff [OF h] by (auto simp: qb_holds_def qb_grow_def simp flip: length_greater_0_conv)
  with h eb show ?thesis by auto
qed

section \<open>The buffer as a queue of chunks\<close>

definition chunk_size :: "'cb list \<Rightarrow> uword" where
  "chunk_size cbs = of_nat (Suc (length cbs))"

fun chunks_elems :: "uword \<Rightarrow> (epoch_t \<times> 'cb list) list \<Rightarrow> 'cb quiescence_buf_elem list" where
  "chunks_elems p [] = []"
| "chunks_elems p ((e, cbs) # cs) =
     Header \<lparr> qh_epoch = Some e, qh_size = Some (chunk_size cbs), qh_prev_size = p \<rparr>
       # map Callback cbs @ chunks_elems (chunk_size cbs) cs"

fun chunks_last :: "uword \<Rightarrow> (epoch_t \<times> 'cb list) list \<Rightarrow> uword" where
  "chunks_last p [] = p"
| "chunks_last p ((e, cbs) # cs) = chunks_last (chunk_size cbs) cs"

definition qb_elems :: "uword \<Rightarrow> (epoch_t \<times> 'cb list) list \<Rightarrow> 'cb list \<Rightarrow> 'cb quiescence_buf_elem list" where
  "qb_elems p chunks working =
     chunks_elems p chunks @ initialize_header (chunks_last p chunks) # map Callback working"

definition qb_rep :: "'cb quiescence_buffer \<Rightarrow> (epoch_t \<times> 'cb list) list \<Rightarrow> 'cb list \<Rightarrow> bool" where
  "qb_rep q chunks working \<longleftrightarrow>
     (\<exists>k p. qb_holds q k (qb_elems p chunks working) \<and> length (qb_elems p chunks working) < 2 ^ k
        \<and> qb_epoch_begin q = qb_pos k (qb_ring_begin q) (length (chunks_elems p chunks))
        \<and> (\<forall>(e, cbs) \<in> set chunks. cbs \<noteq> []))"

text \<open>The number of slots a queue takes.\<close>

definition queue_slots :: "(epoch_t \<times> 'cb list) list \<Rightarrow> 'cb list \<Rightarrow> nat" where
  "queue_slots chunks working = Suc (length working) + sum_list (map (\<lambda>(e, cbs). Suc (length cbs)) chunks)"

lemma length_chunks_elems: "length (chunks_elems p cs) = sum_list (map (\<lambda>(e, cbs). Suc (length cbs)) cs)"
  by (induction p cs rule: chunks_elems.induct) auto

lemma length_qb_elems: "length (qb_elems p cs w) = queue_slots cs w"
  by (simp add: qb_elems_def queue_slots_def length_chunks_elems)

lemma chunks_elems_snoc:
  "chunks_elems p (cs @ [(e, w)]) = chunks_elems p cs @
     Header \<lparr> qh_epoch = Some e, qh_size = Some (chunk_size w), qh_prev_size = chunks_last p cs \<rparr> # map Callback w"
  by (induction p cs rule: chunks_elems.induct) auto

lemma chunks_last_snoc: "chunks_last p (cs @ [(e, w)]) = chunk_size w"
  by (induction p cs rule: chunks_last.induct) auto

lemma qb_elems_snoc: "qb_elems p cs (w @ [c]) = qb_elems p cs w @ [Callback c]"
  by (simp add: qb_elems_def)

lemma qb_rep_cases:
  assumes "qb_rep q cs w"
  obtains k p where "qb_holds q k (qb_elems p cs w)" and "queue_slots cs w < 2 ^ k"
    and "qb_epoch_begin q = qb_pos k (qb_ring_begin q) (length (chunks_elems p cs))"
    and "\<forall>(e, cbs) \<in> set cs. cbs \<noteq> []"
  using assms unfolding qb_rep_def length_qb_elems by blast

lemma qb_repI:
  assumes "qb_holds q k (qb_elems p cs w)" and "queue_slots cs w < 2 ^ k"
    and "qb_epoch_begin q = qb_pos k (qb_ring_begin q) (length (chunks_elems p cs))"
    and "\<forall>(e, cbs) \<in> set cs. cbs \<noteq> []"
  shows "qb_rep q cs w"
  using assms unfolding qb_rep_def length_qb_elems by blast

subsection \<open>Sizes\<close>

lemma qb_size_rep:
  assumes "qb_rep q cs w"
  shows "unat (qb_size q) = queue_slots cs w"
proof -
  obtain k p where h: "qb_holds q k (qb_elems p cs w)" "queue_slots cs w < 2 ^ k"
    using assms by (rule qb_rep_cases)
  let ?n = "queue_slots cs w"
  have hk: "k < 64" "qb_last_valid_index q = mask k"
    and wp: "take_bit k (qb_write_pos q) = qb_pos k (qb_ring_begin q) ?n"
    and rb: "take_bit k (qb_ring_begin q) = qb_pos k (qb_ring_begin q) 0"
    using h(1) by (simp_all add: qb_holds_def length_qb_elems qb_pos_0)
  have "qb_size q = take_bit k (take_bit k (qb_write_pos q) - take_bit k (qb_ring_begin q))"
    by (simp add: qb_size_def qb_wrap_take_bit [OF hk(2)] take_bit_diff_word)
  then have "qb_size q = of_nat ?n"
    using qb_pos_diff [OF hk(1) h(2), of "qb_ring_begin q" 0] wp rb by simp
  then show ?thesis
    using of_nat_small [OF hk(1) h(2)] by simp
qed

lemma working_epoch_size_holds:
  assumes "qb_holds q k (qb_elems p cs w)" and "queue_slots cs w < 2 ^ k"
    and "qb_epoch_begin q = qb_pos k (qb_ring_begin q) (length (chunks_elems p cs))"
  shows "working_epoch_size q = chunk_size w" and "Suc (length w) < 2 ^ k"
proof -
  let ?m = "length (chunks_elems p cs)"
  have hk: "k < 64" "qb_last_valid_index q = mask k"
    using assms(1) by (simp_all add: qb_holds_def)
  have n: "queue_slots cs w = ?m + Suc (length w)"
    by (simp add: queue_slots_def length_chunks_elems)
  have wp: "take_bit k (qb_write_pos q) = qb_pos k (qb_ring_begin q) (?m + Suc (length w))"
    using assms(1) n by (simp add: qb_holds_def length_qb_elems)
  show "Suc (length w) < 2 ^ k" using assms(2) n by simp
  have "working_epoch_size q = take_bit k (take_bit k (qb_write_pos q) - take_bit k (qb_epoch_begin q))"
    by (simp add: working_epoch_size_def qb_wrap_take_bit [OF hk(2)] take_bit_diff_word)
  then show "working_epoch_size q = chunk_size w"
    using qb_pos_diff [OF hk(1) \<open>Suc (length w) < 2 ^ k\<close>, of "qb_ring_begin q" ?m] wp assms(3)
    by (simp add: chunk_size_def)
qed

lemma chunk_size_eq_1: "k < 64 \<Longrightarrow> Suc (length w) < 2 ^ k \<Longrightarrow> chunk_size w = 1 \<longleftrightarrow> w = []"
  using of_nat_small [of k "Suc (length w)"] by (auto simp: chunk_size_def word_unat_eq_iff)

lemma working_epoch_empty_rep:
  assumes "qb_rep q cs w"
  shows "working_epoch_empty q \<longleftrightarrow> w = []"
proof -
  obtain k p where h: "qb_holds q k (qb_elems p cs w)" "queue_slots cs w < 2 ^ k"
    "qb_epoch_begin q = qb_pos k (qb_ring_begin q) (length (chunks_elems p cs))"
    using assms by (rule qb_rep_cases)
  then have "k < 64" by (simp add: qb_holds_def)
  then show ?thesis
    using working_epoch_size_holds [OF h] chunk_size_eq_1 [of k w] by (simp add: working_epoch_empty_def)
qed

lemma qb_empty_rep:
  assumes "qb_rep q cs w"
  shows "qb_empty q \<longleftrightarrow> cs = [] \<and> w = []"
proof -
  have "qb_empty q \<longleftrightarrow> queue_slots cs w = 1"
    using qb_size_rep [OF assms] by (auto simp: qb_empty_def word_unat_eq_iff)
  then show ?thesis by (cases cs) (auto simp: queue_slots_def)
qed

lemma qb_new_rep: "qb_rep qb_new [] []"
proof (rule qb_repI [of _ 11 0])
  show "qb_holds qb_new 11 (qb_elems 0 [] ([] :: 'a list))"
    by (simp add: qb_holds_def qb_new_def qb_elems_def qb_pos_def ReclaimLimit_def mask_eq_exp_minus_1)
qed (simp_all add: queue_slots_def qb_new_def qb_pos_def)

subsection \<open>Pushing callbacks\<close>

lemma qb_emplace_back_grow:
  "qb_emplace_back c q = qb_grow (qb_unchecked_emplace_back c q)"
  by (simp add: qb_emplace_back_def qb_unchecked_emplace_back_def qb_grow_def Let_def)

text \<open>A full buffer can grow while its capacity is below \<open>2 ^ 63\<close>; that is the assertion of \<open>reserve_more\<close>.\<close>

definition qb_room :: "'cb quiescence_buffer \<Rightarrow> bool" where
  "qb_room q \<longleftrightarrow> qb_reserve_assert q \<or> \<not> qb_allocates_on_next_push q"

lemma qb_allocates_iff:
  assumes "qb_holds q k es" and "length es < 2 ^ k"
  shows "qb_allocates_on_next_push q \<longleftrightarrow> Suc (length es) = 2 ^ k"
proof -
  have hk: "k < 64" "qb_last_valid_index q = mask k"
    and wp: "take_bit k (qb_write_pos q) = qb_pos k (qb_ring_begin q) (length es)"
    and rb: "take_bit k (qb_ring_begin q) = qb_pos k (qb_ring_begin q) 0"
    using assms by (simp_all add: qb_holds_def qb_pos_0)
  have "qb_wrap q (qb_write_pos q - qb_ring_begin q) =
      take_bit k (take_bit k (qb_write_pos q) - take_bit k (qb_ring_begin q))"
    by (simp add: qb_wrap_take_bit [OF hk(2)] take_bit_diff_word)
  then have "qb_wrap q (qb_write_pos q - qb_ring_begin q) = of_nat (length es)"
    using qb_pos_diff [OF hk(1) assms(2), of "qb_ring_begin q" 0] wp rb by simp
  moreover have "of_nat (length es) = (mask k :: uword) \<longleftrightarrow> of_nat (Suc (length es)) = (mask k + 1 :: uword)"
    by auto
  moreover have "of_nat (Suc (length es)) = (mask k + 1 :: uword) \<longleftrightarrow> Suc (length es) = 2 ^ k"
  proof -
    have "unat (of_nat (Suc (length es)) :: uword) = Suc (length es)"
    proof -
      have "Suc (length es) \<le> 2 ^ 63"
        using assms(2) power_increasing [of k 63 "2 :: nat"] hk(1) by simp
      then show ?thesis by (simp only: unat_of_nat) simp
    qed
    then show ?thesis
      by (simp only: word_unat_eq_iff unat_mask_Suc [OF hk(1)])
  qed
  ultimately show ?thesis
    by (simp only: qb_allocates_on_next_push_def hk(2))
qed

lemma reserve_assert_push: "qb_reserve_assert (qb_unchecked_emplace_back c q) = qb_reserve_assert q"
  by (simp add: qb_reserve_assert_def qb_capacity_def qb_unchecked_emplace_back_def)

lemma qb_room_slots:
  assumes "qb_rep q cs w" and "queue_slots cs w < 2 ^ 62"
  shows "qb_room q"
proof -
  obtain k p where h: "qb_holds q k (qb_elems p cs w)" "queue_slots cs w < 2 ^ k"
    using assms(1) by (rule qb_rep_cases)
  have "Suc k < 64" if "qb_allocates_on_next_push q"
  proof -
    have "Suc (queue_slots cs w) = 2 ^ k"
      using that qb_allocates_iff [OF h(1)] h(2) by (simp add: length_qb_elems)
    then have "(2 :: nat) ^ k \<le> 2 ^ 62" using assms(2) by simp
    then have "k \<le> 62" by (rule power_le_imp_le_exp [rotated]) simp
    then show ?thesis by simp
  qed
  then show ?thesis
    using reserve_assert_iff [OF h(1)] by (auto simp: qb_room_def)
qed

lemma queue_slots_snoc [simp]: "queue_slots cs (w @ [c]) = Suc (queue_slots cs w)"
  by (simp add: queue_slots_def)

lemma qb_emplace_back_rep:
  assumes "qb_rep q cs w" and "qb_room q"
  shows "qb_rep (qb_emplace_back c q) cs (w @ [c])"
proof -
  obtain k p where h: "qb_holds q k (qb_elems p cs w)" "queue_slots cs w < 2 ^ k"
    and eb: "qb_epoch_begin q = qb_pos k (qb_ring_begin q) (length (chunks_elems p cs))"
    and ne: "\<forall>(e, cbs) \<in> set cs. cbs \<noteq> []"
    using assms(1) by (rule qb_rep_cases)
  let ?q = "qb_unchecked_emplace_back c q"
  have push: "qb_holds ?q k (qb_elems p cs (w @ [c]))"
    using qb_holds_push [OF h(1)] h(2) by (simp add: qb_unchecked_emplace_back_def qb_elems_snoc length_qb_elems)
  have "\<exists>k'. qb_holds (qb_grow ?q) k' (qb_elems p cs (w @ [c])) \<and> length (qb_elems p cs (w @ [c])) < 2 ^ k'
      \<and> qb_epoch_begin (qb_grow ?q) = qb_pos k' (qb_ring_begin (qb_grow ?q)) (length (chunks_elems p cs))"
  proof (rule qb_grow_holds [OF push])
    show "length (chunks_elems p cs) < length (qb_elems p cs (w @ [c]))"
      by (simp add: qb_elems_def)
    show "qb_epoch_begin ?q = qb_pos k (qb_ring_begin ?q) (length (chunks_elems p cs))"
      using eb by (simp add: qb_unchecked_emplace_back_def)
    show "qb_reserve_assert ?q" if "length (qb_elems p cs (w @ [c])) = 2 ^ k"
      using that assms(2) qb_allocates_iff [OF h(1)] h(2)
      by (simp add: qb_elems_snoc qb_room_def reserve_assert_push length_qb_elems)
  qed
  then show ?thesis
    using ne unfolding qb_emplace_back_grow length_qb_elems by (blast intro: qb_repI)
qed

lemma qb_unchecked_emplace_back_eq:
  assumes "qb_rep q cs w" and "\<not> qb_allocates_on_next_push q"
  shows "qb_unchecked_emplace_back c q = qb_emplace_back c q"
proof -
  obtain k p where h: "qb_holds q k (qb_elems p cs w)" "queue_slots cs w < 2 ^ k"
    using assms(1) by (rule qb_rep_cases)
  have push: "qb_holds (qb_unchecked_emplace_back c q) k (qb_elems p cs (w @ [c]))"
    using qb_holds_push [OF h(1)] h(2) by (simp add: qb_unchecked_emplace_back_def qb_elems_snoc length_qb_elems)
  have "length (qb_elems p cs (w @ [c])) \<noteq> 2 ^ k"
    using assms(2) qb_allocates_iff [OF h(1)] h(2) by (simp add: qb_elems_snoc length_qb_elems)
  then show ?thesis
    using qb_full_iff [OF push] by (simp add: qb_emplace_back_grow qb_grow_def qb_elems_def)
qed

subsection \<open>Clearing the working chunk\<close>

lemma clear_working_epoch_rep:
  assumes "qb_rep q cs w"
  shows "qb_rep (clear_working_epoch q) cs []"
proof -
  obtain k p where h: "qb_holds q k (qb_elems p cs w)" "queue_slots cs w < 2 ^ k"
    and eb: "qb_epoch_begin q = qb_pos k (qb_ring_begin q) (length (chunks_elems p cs))"
    and ne: "\<forall>(e, cbs) \<in> set cs. cbs \<noteq> []"
    using assms by (rule qb_rep_cases)
  have prefix: "qb_elems p cs w = qb_elems p cs [] @ map Callback w"
    by (simp add: qb_elems_def)
  have "take_bit k (qb_epoch_begin q + 1) = qb_pos k (qb_ring_begin q) (length (qb_elems p cs []))"
    using qb_pos_Suc [of k "qb_ring_begin q" "length (chunks_elems p cs)"] eb by (simp add: qb_elems_def)
  then have "qb_holds (clear_working_epoch q) k (qb_elems p cs [])"
    using h(1) unfolding prefix by (auto simp: qb_holds_def clear_working_epoch_def nth_append)
  then show ?thesis
    using h(2) eb ne by (intro qb_repI [of _ k p]) (simp_all add: clear_working_epoch_def queue_slots_def)
qed

subsection \<open>Finishing the working chunk\<close>

lemma set_header_holds:
  assumes "qb_holds q k es" and "m < length es" and "length es < 2 ^ k" and "es ! m = Header h"
  shows "qb_holds (set_header (qb_pos k (qb_ring_begin q) m) f q) k (es[m := Header (f h)])"
proof -
  have k: "k < 64" using assms(1) by (simp add: qb_holds_def)
  have "qb_pos k (qb_ring_begin q) j \<noteq> qb_pos k (qb_ring_begin q) m" if "j < length es" "j \<noteq> m" for j
    using qb_pos_inj [OF k, of j m "qb_ring_begin q"] that assms by auto
  then show ?thesis
    using assms by (auto simp: qb_holds_def set_header_def nth_list_update)
qed

lemma set_header_fields [simp]:
  "qb_ring_begin (set_header i f q) = qb_ring_begin q"
  "qb_epoch_begin (set_header i f q) = qb_epoch_begin q"
  "qb_write_pos (set_header i f q) = qb_write_pos q"
  "qb_last_valid_index (set_header i f q) = qb_last_valid_index q"
  "working_epoch_size (set_header i f q) = working_epoch_size q"
  by (auto simp: set_header_def working_epoch_size_def qb_wrap_def qb_capacity_def
      split: option.splits quiescence_buf_elem.splits)

text \<open>The two writes to the header of the working chunk turn it into a finished chunk.\<close>

lemma finished_header_holds:
  assumes h: "qb_holds q k (qb_elems p cs w)" "queue_slots cs w < 2 ^ k"
    and eb: "qb_epoch_begin q = qb_pos k (qb_ring_begin q) (length (chunks_elems p cs))"
  shows "qb_holds (set_header (qb_epoch_begin q) (\<lambda>h. h\<lparr> qh_size := Some (chunk_size w) \<rparr>)
      (set_header (qb_epoch_begin q) (\<lambda>h. h\<lparr> qh_epoch := Some e \<rparr>) q)) k (chunks_elems p (cs @ [(e, w)]))"
proof -
  let ?m = "length (chunks_elems p cs)"
  let ?q = "set_header (qb_epoch_begin q) (\<lambda>h. h\<lparr> qh_epoch := Some e \<rparr>) q"
  let ?h = "\<lparr> qh_epoch = None, qh_size = None, qh_prev_size = chunks_last p cs \<rparr>"
  have m: "?m < length (qb_elems p cs w)" "qb_elems p cs w ! ?m = Header ?h"
    by (simp_all add: qb_elems_def initialize_header_def)
  have 1: "qb_holds ?q k ((qb_elems p cs w)[?m := Header (?h\<lparr> qh_epoch := Some e \<rparr>)])"
    using set_header_holds [OF h(1) m(1) _ m(2), of "\<lambda>h. h\<lparr> qh_epoch := Some e \<rparr>"] h(2) eb
    by (simp add: length_qb_elems)
  have "qb_holds (set_header (qb_epoch_begin q) (\<lambda>h. h\<lparr> qh_size := Some (chunk_size w) \<rparr>) ?q) k
      ((qb_elems p cs w)[?m := Header (?h\<lparr> qh_epoch := Some e \<rparr>),
         ?m := Header (?h\<lparr> qh_epoch := Some e, qh_size := Some (chunk_size w) \<rparr>)])"
    using set_header_holds [OF 1, of ?m "?h\<lparr> qh_epoch := Some e \<rparr>" "\<lambda>h. h\<lparr> qh_size := Some (chunk_size w) \<rparr>"]
      m h(2) eb by (simp add: length_qb_elems)
  then show ?thesis
    by (simp add: qb_elems_def chunks_elems_snoc)
qed

text \<open>Steps \<open>q2\<close> to \<open>q6\<close> of \<open>finalize_epoch\<close>: open the next working chunk.\<close>

lemma open_chunk_rep:
  assumes h: "qb_holds q k (chunks_elems p cs)" and len: "length (chunks_elems p cs) < 2 ^ k"
    and ne: "\<forall>(e, cbs) \<in> set cs. cbs \<noteq> []"
    and room: "Suc (length (chunks_elems p cs)) = 2 ^ k \<Longrightarrow> qb_reserve_assert q"
  shows "qb_rep (qb_grow (q\<lparr> qb_epoch_begin := qb_wrap q (qb_write_pos q),
      qb_buffer := (qb_buffer q)(qb_wrap q (qb_write_pos q) := Some (initialize_header (chunks_last p cs))),
      qb_write_pos := qb_write_pos q + 1 \<rparr>)) cs []"
proof -
  let ?m = "length (chunks_elems p cs)"
  let ?q = "q\<lparr> qb_epoch_begin := qb_wrap q (qb_write_pos q),
      qb_buffer := (qb_buffer q)(qb_wrap q (qb_write_pos q) := Some (initialize_header (chunks_last p cs))),
      qb_write_pos := qb_write_pos q + 1 \<rparr>"
  let ?qp = "q\<lparr> qb_buffer := (qb_buffer q)(qb_wrap q (qb_write_pos q) := Some (initialize_header (chunks_last p cs))),
      qb_write_pos := qb_write_pos q + 1 \<rparr>"
  have "qb_holds ?qp k (qb_elems p cs [])"
    using qb_holds_push [OF h len] by (simp add: qb_elems_def)
  then have push: "qb_holds ?q k (qb_elems p cs [])"
    by (simp add: qb_holds_def)
  have "\<exists>k'. qb_holds (qb_grow ?q) k' (qb_elems p cs []) \<and> length (qb_elems p cs []) < 2 ^ k'
      \<and> qb_epoch_begin (qb_grow ?q) = qb_pos k' (qb_ring_begin (qb_grow ?q)) ?m"
  proof (rule qb_grow_holds [OF push])
    show "?m < length (qb_elems p cs [])"
      by (simp add: qb_elems_def)
    have mask: "qb_last_valid_index q = mask k" and wp: "take_bit k (qb_write_pos q) = qb_pos k (qb_ring_begin q) ?m"
      using h by (simp_all add: qb_holds_def)
    have "qb_wrap q (qb_write_pos q) = qb_pos k (qb_ring_begin q) ?m"
      by (simp only: qb_wrap_take_bit [OF mask] wp)
    then show "qb_epoch_begin ?q = qb_pos k (qb_ring_begin ?q) ?m"
      by simp
    show "qb_reserve_assert ?q" if "length (qb_elems p cs []) = 2 ^ k"
      using that room by (simp add: qb_elems_def qb_reserve_assert_def qb_capacity_def)
  qed
  then show ?thesis
    using ne unfolding length_qb_elems by (blast intro: qb_repI)
qed

lemma finalize_epoch_empty: "qb_rep q cs [] \<Longrightarrow> finalize_epoch e q = (False, q)"
  by (simp add: finalize_epoch_def working_epoch_empty_rep)

lemma ReclaimLimit_le_iff: "ReclaimLimit \<le> w \<longleftrightarrow> 1024 \<le> unat w"
  by (simp add: ReclaimLimit_def word_le_nat_alt)

lemma finalize_epoch_rep:
  assumes "qb_rep q cs w" and "w \<noteq> []" and "qb_room q"
  shows "qb_rep (snd (finalize_epoch e q)) (cs @ [(e, w)]) []"
    and "fst (finalize_epoch e q) \<longleftrightarrow> 1024 \<le> queue_slots (cs @ [(e, w)]) []"
proof -
  obtain k p where h: "qb_holds q k (qb_elems p cs w)" "queue_slots cs w < 2 ^ k"
    and eb: "qb_epoch_begin q = qb_pos k (qb_ring_begin q) (length (chunks_elems p cs))"
    and ne: "\<forall>(e, cbs) \<in> set cs. cbs \<noteq> []"
    using assms(1) by (rule qb_rep_cases)
  let ?q2 = "set_header (qb_epoch_begin q) (\<lambda>h. h\<lparr> qh_size := Some (chunk_size w) \<rparr>)
      (set_header (qb_epoch_begin q) (\<lambda>h. h\<lparr> qh_epoch := Some e \<rparr>) q)"
  let ?q5 = "?q2\<lparr> qb_epoch_begin := qb_wrap ?q2 (qb_write_pos ?q2),
      qb_buffer := (qb_buffer ?q2)(qb_wrap ?q2 (qb_write_pos ?q2) :=
        Some (initialize_header (chunks_last p (cs @ [(e, w)])))),
      qb_write_pos := qb_write_pos ?q2 + 1 \<rparr>"
  have size: "working_epoch_size q = chunk_size w"
    using working_epoch_size_holds(1) [OF h eb] .
  have "\<not> working_epoch_empty q"
    using working_epoch_empty_rep [OF assms(1)] assms(2) by simp
  then have fin: "finalize_epoch e q = (qb_size (qb_grow ?q5) \<ge> ReclaimLimit, qb_grow ?q5)"
    by (simp add: finalize_epoch_def Let_def size chunks_last_snoc qb_grow_def)
  have len: "length (chunks_elems p (cs @ [(e, w)])) = queue_slots cs w"
    by (simp add: length_chunks_elems queue_slots_def)
  have rep: "qb_rep (qb_grow ?q5) (cs @ [(e, w)]) []"
  proof (rule open_chunk_rep)
    show "qb_holds ?q2 k (chunks_elems p (cs @ [(e, w)]))"
      by (rule finished_header_holds [OF h eb])
    show "\<forall>(e, cbs) \<in> set (cs @ [(e, w)]). cbs \<noteq> []"
      using ne assms(2) by auto
    show "qb_reserve_assert ?q2" if "Suc (length (chunks_elems p (cs @ [(e, w)]))) = 2 ^ k"
      using that assms(3) qb_allocates_iff [OF h(1)] h(2)
      by (simp add: len qb_room_def length_qb_elems) (simp add: qb_reserve_assert_def qb_capacity_def)
  qed (use len h(2) in simp)
  then show "qb_rep (snd (finalize_epoch e q)) (cs @ [(e, w)]) []"
    by (simp add: fin)
  show "fst (finalize_epoch e q) \<longleftrightarrow> 1024 \<le> queue_slots (cs @ [(e, w)]) []"
    using qb_size_rep [OF rep] by (simp add: fin ReclaimLimit_le_iff)
qed

subsection \<open>Invoking the oldest chunk\<close>

lemma run_callbacks_spec:
  assumes "qb_holds q k es" and "length es < 2 ^ k"
  shows "i + length cbs \<le> length es \<Longrightarrow> (\<forall>j < length cbs. es ! (i + j) = Callback (cbs ! j)) \<Longrightarrow>
    run_callbacks q (qb_ring_begin q + of_nat i) (qb_ring_begin q + of_nat (i + length cbs)) = Some cbs"
proof (induction cbs arbitrary: i)
  case Nil
  show ?case by (simp add: run_callbacks.simps)
next
  case (Cons c cbs)
  let ?rb = "qb_ring_begin q"
  have k: "k < 64" and mask: "qb_last_valid_index q = mask k"
    and elem: "qb_buffer q (qb_pos k ?rb i) = Some (es ! i)"
    using assms(1) Cons.prems(1) by (simp_all add: qb_holds_def)
  have ne: "?rb + of_nat i \<noteq> ?rb + of_nat (i + length (c # cbs))"
  proof
    assume "?rb + of_nat i = ?rb + of_nat (i + length (c # cbs))"
    then have "of_nat (length (c # cbs)) = (0 :: uword)" by simp
    moreover have "unat (of_nat (length (c # cbs)) :: uword) = length (c # cbs)"
      using Cons.prems(1) assms(2) by (intro of_nat_small [OF k]) simp
    ultimately show False by simp
  qed
  have "run_callbacks q (?rb + of_nat (Suc i)) (?rb + of_nat (Suc i + length cbs)) = Some cbs"
  proof (rule Cons.IH)
    show "Suc i + length cbs \<le> length es" using Cons.prems(1) by simp
    show "\<forall>j < length cbs. es ! (Suc i + j) = Callback (cbs ! j)"
      using Cons.prems(2) by (metis Suc_mono add_Suc_shift length_Cons nth_Cons_Suc)
  qed
  then have rest: "run_callbacks q (?rb + of_nat i + 1) (?rb + of_nat (i + length (c # cbs))) = Some cbs"
    by (simp add: algebra_simps)
  have "es ! i = Callback c" using Cons.prems(2) by (auto dest: spec [of _ 0])
  then have "qb_buffer q (qb_wrap q (?rb + of_nat i)) = Some (Callback c)"
    using elem by (simp add: qb_wrap_take_bit [OF mask] qb_pos_def)
  then show ?case
    by (subst run_callbacks.simps) (simp only: ne rest if_False option.case quiescence_buf_elem.case option.map)
qed


text \<open>Moving \<open>ring_begin\<close> past a prefix of the elements drops that prefix.\<close>

lemma qb_holds_drop:
  assumes "qb_holds q k (xs @ ys)" and "ys \<noteq> []"
  shows "qb_holds (q\<lparr> qb_ring_begin := qb_pos k (qb_ring_begin q) (length xs) \<rparr>) k ys"
proof -
  have "qb_buffer q (qb_pos k (qb_ring_begin q) (length xs + j)) = Some (ys ! j)" if "j < length ys" for j
    using assms(1) that by (auto simp: qb_holds_def dest!: spec [of _ "length xs + j"])
  then show ?thesis
    using assms(1) by (simp add: qb_holds_def qb_pos_qb_pos)
qed

lemma header_at_holds:
  assumes "qb_holds q k es" and "m < length es" and "es ! m = Header h"
  shows "header_at q (qb_pos k (qb_ring_begin q) m) = Some h"
  using assms by (simp add: qb_holds_def header_at_def)

lemma header_at_front:
  assumes "qb_holds q k (qb_elems p ((e, cbs) # cs) w)"
  shows "header_at q (qb_ring_begin q) = Some \<lparr> qh_epoch = Some e, qh_size = Some (chunk_size cbs), qh_prev_size = p \<rparr>"
proof -
  have "qb_pos k (qb_ring_begin q) 0 = qb_ring_begin q"
    using assms by (simp add: qb_holds_def qb_pos_0)
  then show ?thesis
    using header_at_holds [OF assms, of 0] by (simp add: qb_elems_def)
qed

lemma do_first_epoch_callbacks_rep:
  assumes "qb_rep q ((e, cbs) # cs) w"
  obtains q' where "do_first_epoch_callbacks q = Some (cbs, q')" and "qb_rep q' cs w"
proof -
  obtain k p where h: "qb_holds q k (qb_elems p ((e, cbs) # cs) w)" "queue_slots ((e, cbs) # cs) w < 2 ^ k"
    and eb: "qb_epoch_begin q = qb_pos k (qb_ring_begin q) (length (chunks_elems p ((e, cbs) # cs)))"
    and ne: "\<forall>(e, cbs) \<in> set ((e, cbs) # cs). cbs \<noteq> []"
    using assms by (rule qb_rep_cases)
  have mask: "qb_last_valid_index q = mask k" using h(1) by (simp add: qb_holds_def)
  let ?hd = "Header \<lparr> qh_epoch = Some e, qh_size = Some (chunk_size cbs), qh_prev_size = p \<rparr> # map Callback cbs"
  let ?q' = "q\<lparr> qb_ring_begin := qb_pos k (qb_ring_begin q) (Suc (length cbs)) \<rparr>"
  have split: "qb_elems p ((e, cbs) # cs) w = ?hd @ qb_elems (chunk_size cbs) cs w"
    by (simp add: qb_elems_def)
  have run: "run_callbacks q (qb_ring_begin q + of_nat 1) (qb_ring_begin q + of_nat (1 + length cbs)) = Some cbs"
  proof (rule run_callbacks_spec [OF h(1)])
    show "\<forall>j<length cbs. qb_elems p ((e, cbs) # cs) w ! (1 + j) = Callback (cbs ! j)"
      by (simp add: split nth_append)
  qed (use h(2) in \<open>simp_all add: length_qb_elems queue_slots_def\<close>)
  have fin: "qb_wrap q (qb_ring_begin q + chunk_size cbs) = qb_pos k (qb_ring_begin q) (Suc (length cbs))"
    by (simp add: qb_wrap_take_bit [OF mask] qb_pos_def chunk_size_def)
  have "do_first_epoch_callbacks q = Some (cbs, ?q')"
    using run fin by (simp add: do_first_epoch_callbacks_def Let_def header_at_front [OF h(1)] chunk_size_def)
  moreover have "qb_rep ?q' cs w"
  proof (rule qb_repI)
    show "qb_holds ?q' k (qb_elems (chunk_size cbs) cs w)"
      using qb_holds_drop [of q k ?hd "qb_elems (chunk_size cbs) cs w"] h(1)
      unfolding split by (simp add: qb_elems_def)
    show "queue_slots cs w < 2 ^ k"
      using h(2) by (simp add: queue_slots_def)
    show "qb_epoch_begin ?q' = qb_pos k (qb_ring_begin ?q') (length (chunks_elems (chunk_size cbs) cs))"
      using eb by (simp add: qb_pos_qb_pos)
  qed (use ne in auto)
  ultimately show thesis by (rule that)
qed

lemma front_epoch_rep: "qb_rep q ((e, cbs) # cs) w \<Longrightarrow> front_epoch q = Some e"
  by (erule qb_rep_cases) (simp add: front_epoch_def header_at_front)

lemma back_epoch_rep:
  assumes "qb_rep q (cs @ [(e, cbs)]) w"
  shows "back_epoch q = Some e"
proof -
  obtain k p where h: "qb_holds q k (qb_elems p (cs @ [(e, cbs)]) w)" "queue_slots (cs @ [(e, cbs)]) w < 2 ^ k"
    and eb: "qb_epoch_begin q = qb_pos k (qb_ring_begin q) (length (chunks_elems p (cs @ [(e, cbs)])))"
    using assms by (rule qb_rep_cases)
  have hk: "k < 64" "qb_last_valid_index q = mask k" using h(1) by (simp_all add: qb_holds_def)
  let ?m = "length (chunks_elems p cs)" and ?n = "Suc (length cbs)" and ?rb = "qb_ring_begin q"
  have len: "length (chunks_elems p (cs @ [(e, cbs)])) = ?m + ?n"
    by (simp add: chunks_elems_snoc)
  have cur: "header_at q (qb_epoch_begin q) = Some \<lparr> qh_epoch = None, qh_size = None, qh_prev_size = chunk_size cbs \<rparr>"
    unfolding eb by (rule header_at_holds [OF h(1)]) (simp_all add: qb_elems_def chunks_last_snoc initialize_header_def)
  have "take_bit k (qb_epoch_begin q - chunk_size cbs) = take_bit k (?rb + of_nat (?m + ?n) - of_nat ?n)"
    unfolding eb len qb_pos_def chunk_size_def
    by (metis take_bit_diff_word take_bit_take_bit_self)
  then have prev: "qb_wrap q (qb_epoch_begin q - chunk_size cbs) = qb_pos k ?rb ?m"
    by (simp add: qb_wrap_take_bit [OF hk(2)] qb_pos_def)
  have "header_at q (qb_pos k ?rb ?m)
      = Some \<lparr> qh_epoch = Some e, qh_size = Some (chunk_size cbs), qh_prev_size = chunks_last p cs \<rparr>"
    by (rule header_at_holds [OF h(1)]) (simp_all add: qb_elems_def chunks_elems_snoc nth_append)
  then show ?thesis
    by (simp add: back_epoch_def cur prev)
qed

section \<open>The interface\<close>

text \<open>
  What \<^verbatim>\<open>thread_data\<close> relies on: a queue of chunks with a working chunk at its end. \<open>room\<close> is the
  condition under which a push or the start of a chunk does not exceed the largest capacity.
\<close>

locale callback_queue =
  fixes rep :: "'q \<Rightarrow> (epoch_t \<times> 'cb list) list \<Rightarrow> 'cb list \<Rightarrow> bool"
    and room :: "'q \<Rightarrow> bool"
    and push :: "'cb \<Rightarrow> 'q \<Rightarrow> 'q"
    and clear :: "'q \<Rightarrow> 'q"
    and finish :: "epoch_t \<Rightarrow> 'q \<Rightarrow> 'q"
    and pop :: "'q \<Rightarrow> ('cb list \<times> 'q) option"
    and front :: "'q \<Rightarrow> epoch_t option"
    and is_empty :: "'q \<Rightarrow> bool"
  assumes rep_push: "rep q cs w \<Longrightarrow> room q \<Longrightarrow> rep (push c q) cs (w @ [c])"
    and rep_clear: "rep q cs w \<Longrightarrow> rep (clear q) cs []"
    and rep_finish: "rep q cs w \<Longrightarrow> w \<noteq> [] \<Longrightarrow> room q \<Longrightarrow> rep (finish e q) (cs @ [(e, w)]) []"
    and rep_finish_empty: "rep q cs [] \<Longrightarrow> finish e q = q"
    and rep_pop: "rep q ((e, cbs) # cs) w \<Longrightarrow> \<exists>q'. pop q = Some (cbs, q') \<and> rep q' cs w"
    and rep_front: "rep q ((e, cbs) # cs) w \<Longrightarrow> front q = Some e"
    and rep_is_empty: "rep q cs w \<Longrightarrow> is_empty q \<longleftrightarrow> cs = [] \<and> w = []"
begin

text \<open>The loop that runs the first chunk, and then the next one as long as \<open>cond\<close> holds.\<close>

lemma drain:
  assumes more: "\<And>l q e cbs cs. rep q ((e, cbs) # cs) [] \<Longrightarrow> cond (l, q) \<longleftrightarrow> keep e"
    and stop: "\<And>l q. rep q [] [] \<Longrightarrow> \<not> cond (l, q)"
    and body: "\<And>l q. body (l, q) = map_option (\<lambda>(cbs, q'). (l @ cbs, q')) (pop q)"
  shows "rep q ((e, cbs) # cs) [] \<Longrightarrow>
    \<exists>q'. do_while body cond (l, q) = Some (l @ cbs @ concat (map snd (takeWhile (keep \<circ> fst) cs)), q')
      \<and> rep q' (dropWhile (keep \<circ> fst) cs) []"
proof (induction cs arbitrary: q e cbs l)
  case Nil
  then obtain q' where "pop q = Some (cbs, q')" "rep q' [] []"
    using rep_pop by blast
  then show ?case
    using stop by (simp add: do_while_step [of body "(l, q)"] body)
next
  case (Cons c cs)
  obtain e' cbs' where c: "c = (e', cbs')" by (cases c)
  obtain q' where q': "pop q = Some (cbs, q')" "rep q' ((e', cbs') # cs) []"
    using rep_pop Cons.prems c by blast
  then have loop: "do_while body cond (l, q) =
      (if keep e' then do_while body cond (l @ cbs, q') else Some (l @ cbs, q'))"
    using more by (simp add: do_while_step [of body "(l, q)"] body)
  show ?case
  proof (cases "keep e'")
    case True
    then show ?thesis
      using Cons.IH [OF q'(2), of "l @ cbs"] loop c by simp
  next
    case False
    then show ?thesis
      using q'(2) loop c by simp
  qed
qed

text \<open>The callbacks of a committed transaction become one chunk at the back of the queue.\<close>

lemma rep_push_many:
  assumes "rep q cs w" and "\<And>i. i < length xs \<Longrightarrow> room (fold push (take i xs) q)"
  shows "rep (fold push xs q) cs (w @ xs)"
  using assms
proof (induction xs arbitrary: q w)
  case Nil
  then show ?case by simp
next
  case (Cons x xs)
  have "room q" using Cons.prems(2) [of 0] by simp
  with Cons.prems(1) have "rep (push x q) cs (w @ [x])" by (rule rep_push)
  moreover have "room (fold push (take i xs) (push x q))" if "i < length xs" for i
    using Cons.prems(2) [of "Suc i"] that by simp
  ultimately show ?case
    using Cons.IH [of "push x q" "w @ [x]"] by simp
qed

lemma rep_commit:
  assumes "rep q cs []" and "xs \<noteq> []" and "\<And>i. i \<le> length xs \<Longrightarrow> room (fold push (take i xs) q)"
  shows "rep (finish e (fold push xs q)) (cs @ [(e, xs)]) []"
proof -
  have "rep (fold push xs q) cs ([] @ xs)"
    using assms by (intro rep_push_many) auto
  then show ?thesis
    using rep_finish assms(2) assms(3) [of "length xs"] by simp
qed

lemma rep_abort:
  assumes "rep q cs []" and "\<And>i. i < length xs \<Longrightarrow> room (fold push (take i xs) q)"
  shows "rep (clear (fold push xs q)) cs []"
  using rep_clear rep_push_many [OF assms] by blast

end

interpretation qb: callback_queue qb_rep qb_room qb_emplace_back clear_working_epoch
    "\<lambda>e q. snd (finalize_epoch e q)" do_first_epoch_callbacks front_epoch qb_empty
proof
  show "qb_rep q ((e, cbs) # cs) w \<Longrightarrow> \<exists>q'. do_first_epoch_callbacks q = Some (cbs, q') \<and> qb_rep q' cs w"
    for q :: "'a quiescence_buffer" and e cbs cs w
    by (rule do_first_epoch_callbacks_rep) blast+
qed (simp_all add: qb_emplace_back_rep clear_working_epoch_rep finalize_epoch_rep(1) finalize_epoch_empty
      front_epoch_rep qb_empty_rep)

section \<open>Properties\<close>

text \<open>Growing a full ring keeps every element at its distance from the front, wherever in the
  buffer the ring wraps around, and doubles the capacity.\<close>

theorem quiescence_buffer_growth:
  assumes "qb_holds q k es" and "length es = 2 ^ k" and "qb_reserve_assert q"
  shows "qb_holds (qb_reserve_more q) (Suc k) es \<and> qb_last_valid_index (qb_reserve_more q) = mask (Suc k)"
proof -
  have "Suc k < 64" using assms(3) reserve_assert_iff [OF assms(1)] by simp
  from reserve_more_holds [OF assms(1,2) this] show ?thesis by (simp add: qb_holds_def)
qed

definition wrapped_ring :: "char quiescence_buffer" where
  "wrapped_ring = \<lparr> qb_write_pos = 3, qb_epoch_begin = 1, qb_ring_begin = 1,
     qb_buffer = (\<lambda>_. None)(0 := Some (Callback CHR ''b''), 1 := Some (Callback CHR ''a'')), qb_last_valid_index = 1 \<rparr>"

theorem quiescence_buffer_growth_witness:
  "qb_holds (qb_reserve_more wrapped_ring) 2 [Callback CHR ''a'', Callback CHR ''b'']"
proof -
  have h: "qb_holds wrapped_ring 1 [Callback CHR ''a'', Callback CHR ''b'']"
    by (auto simp: qb_holds_def wrapped_ring_def qb_pos_def mask_eq_exp_minus_1 less_Suc_eq numeral_2_eq_2
        take_bit_eq_mod)
  have "qb_reserve_assert wrapped_ring"
    by (simp add: reserve_assert_iff [OF h])
  from quiescence_buffer_growth [OF h _ this] show ?thesis by (simp add: numeral_2_eq_2)
qed

text \<open>C33: The buffer is a queue of chunks: pushes extend the working chunk, an abort empties it, and a
  commit closes it with its epoch at the back of the queue and reports whether the queue has
  reached the reclaim limit.\<close>

theorem quiescence_buffer_enqueue:
  assumes "qb_rep q cs w" and "qb_room q"
  shows "qb_rep (qb_emplace_back c q) cs (w @ [c]) \<and> qb_rep (clear_working_epoch q) cs []
    \<and> (if w = [] then finalize_epoch e q = (False, q)
       else qb_rep (snd (finalize_epoch e q)) (cs @ [(e, w)]) []
         \<and> (fst (finalize_epoch e q) \<longleftrightarrow> 1024 \<le> queue_slots (cs @ [(e, w)]) []))"
proof (cases "w = []")
  case True
  with assms finalize_epoch_empty [of q cs e] qb.rep_push [OF assms, of c] qb.rep_clear [OF assms(1)]
  show ?thesis by simp
next
  case False
  with finalize_epoch_rep [OF assms(1) False assms(2)] qb.rep_push [OF assms, of c] qb.rep_clear [OF assms(1)]
  show ?thesis by simp
qed

theorem quiescence_buffer_enqueue_witness:
  "qb_rep (snd (finalize_epoch 7 (qb_emplace_back CHR ''x'' qb_new))) [(7, ''x'')] []"
proof -
  have r: "qb_rep (qb_new :: char quiescence_buffer) [] []" by (rule qb_new_rep)
  have room: "qb_room (qb_new :: char quiescence_buffer)"
    by (rule qb_room_slots [OF r]) (simp add: queue_slots_def)
  have x: "qb_rep (qb_emplace_back CHR ''x'' qb_new) [] ''x''"
    using quiescence_buffer_enqueue [OF r room, of "CHR ''x''"] by simp
  have "qb_room (qb_emplace_back CHR ''x'' qb_new)"
    by (rule qb_room_slots [OF x]) (simp add: queue_slots_def)
  from quiescence_buffer_enqueue [OF x this, of _ 7] show ?thesis by simp
qed

text \<open>C39: \<open>do_first_epoch_callbacks\<close> invokes the callbacks of the oldest chunk, each once and in the order
  they were pushed, and removes that chunk; \<open>front_epoch\<close> and \<open>back_epoch\<close> read the epochs of the
  oldest and of the newest chunk.\<close>

theorem quiescence_buffer_dequeue:
  assumes "qb_rep q cs w" and "cs \<noteq> []"
  shows "\<exists>q'. do_first_epoch_callbacks q = Some (snd (hd cs), q') \<and> qb_rep q' (tl cs) w
    \<and> front_epoch q = Some (fst (hd cs)) \<and> back_epoch q = Some (fst (last cs))"
proof -
  obtain e cbs cs' where cs: "cs = (e, cbs) # cs'" using assms(2) by (cases cs) auto
  obtain q' where q': "do_first_epoch_callbacks q = Some (cbs, q')" "qb_rep q' cs' w"
    using assms(1) unfolding cs by (rule do_first_epoch_callbacks_rep)
  have "cs = butlast cs @ [(fst (last cs), snd (last cs))]" using assms(2) by simp
  then have "back_epoch q = Some (fst (last cs))" using assms(1) back_epoch_rep by metis
  moreover have "front_epoch q = Some e" using front_epoch_rep assms(1) unfolding cs .
  ultimately show ?thesis using q' cs by auto
qed

theorem quiescence_buffer_dequeue_witness:
  "\<exists>q'. do_first_epoch_callbacks (snd (finalize_epoch 7 (qb_emplace_back CHR ''x'' qb_new))) = Some (''x'', q')
     \<and> qb_rep q' [] []"
proof -
  have r: "qb_rep (qb_new :: char quiescence_buffer) [] []" by (rule qb_new_rep)
  have room: "qb_room (qb_new :: char quiescence_buffer)"
    by (rule qb_room_slots [OF r]) (simp add: queue_slots_def)
  have x: "qb_rep (qb_emplace_back CHR ''x'' qb_new) [] ''x''"
    using qb.rep_push [OF r room, of "CHR ''x''"] by simp
  have "qb_room (qb_emplace_back CHR ''x'' qb_new)"
    by (rule qb_room_slots [OF x]) (simp add: queue_slots_def)
  from qb.rep_finish [OF x _ this, of 7]
  have "qb_rep (snd (finalize_epoch 7 (qb_emplace_back CHR ''x'' qb_new))) [(7, ''x'')] []" by simp
  from quiescence_buffer_dequeue [OF this] show ?thesis by auto
qed

end
