(* ===== verification/Versions.thy ===== *)
theory Versions
  imports Prelude
begin

text \<open>
  Version locks and the global clock: the bit constants of
  \<^verbatim>\<open>detail/thread_synchronization.hpp\<close> and the \<^verbatim>\<open>transaction_domain\<close> of
  \<^verbatim>\<open>detail/transaction_domain.hpp\<close>. The lemmas say that a locked version is above every
  version a transaction can hold, that locking and unlocking with \<^verbatim>\<open>xor\<close> are inverse, and that
  the clock stays below the lock bit as long as the assertion of \<open>fetch_and_bump_clock\<close> holds.
\<close>

section \<open>Version words\<close>

definition lock_bit :: epoch_t where
  "lock_bit = push_bit (8 * 8 - 1) 1"

definition off_state :: epoch_t where
  "off_state = NOT 0"

definition locked :: "epoch_t \<Rightarrow> bool" where
  "locked version \<longleftrightarrow> version AND lock_bit \<noteq> 0"

definition as_locked :: "epoch_t \<Rightarrow> epoch_t" where
  "as_locked version = version OR lock_bit"

definition commit_failed :: epoch_t where
  "commit_failed = off_state"

section \<open>The transaction domain\<close>

record transaction_domain =
  clock :: epoch_t

definition new_domain :: transaction_domain where
  "new_domain = \<lparr> clock = 0 \<rparr>"

definition get_clock :: "transaction_domain \<Rightarrow> epoch_t" where
  "get_clock d = clock d"

definition bump_size :: epoch_t where
  "bump_size = 1"

definition max_version :: epoch_t where
  "max_version = NOT (push_bit (8 * 8 - unat bump_size) 1)"

definition fetch_and_bump_clock :: "transaction_domain \<Rightarrow> epoch_t \<times> transaction_domain" where
  "fetch_and_bump_clock d = (clock d, d\<lparr> clock := clock d + bump_size \<rparr>)"

text \<open>The assertion on the fetched value.\<close>

definition bump_assert :: "epoch_t \<Rightarrow> bool" where
  "bump_assert result \<longleftrightarrow> result < max_version - bump_size"

section \<open>Facts\<close>

lemma lock_bit_val: "lock_bit = 2 ^ 63"
  by (simp add: lock_bit_def push_bit_eq_mult)

lemma bit_lock_bit: "bit lock_bit n \<longleftrightarrow> n = 63"
proof -
  have "bit lock_bit n \<longleftrightarrow> n < 64 \<and> n = 63"
    unfolding lock_bit_def bit_push_bit_iff by (auto simp: bit_1_iff)
  then show ?thesis by auto
qed

lemma locked_iff_bit: "locked v \<longleftrightarrow> bit v 63"
  by (auto simp: locked_def and_eq_zero_iff_bits bit_lock_bit)

lemma locked_iff_ge: "locked v \<longleftrightarrow> lock_bit \<le> v"
proof -
  let ?q = "uint v div 2 ^ 63"
  have odd1: "odd q \<longleftrightarrow> 1 \<le> q" if "q < 2" and "0 \<le> q" for q :: int
    using that by presburger
  have bit: "bit v 63 \<longleftrightarrow> odd ?q"
    using bit_uint_iff [of v 63] by (simp add: bit_iff_odd)
  have "uint v < 2 ^ 64"
    using uint_lt2p [of v] by simp
  then have "?q < 2"
    by (simp add: div_less_iff_less_mult)
  moreover have "0 \<le> ?q"
    by (rule pos_imp_zdiv_nonneg_iff [THEN iffD2]) simp_all
  ultimately have "odd ?q \<longleftrightarrow> 1 \<le> ?q" by (rule odd1)
  moreover have "1 \<le> ?q \<longleftrightarrow> 2 ^ 63 \<le> uint v"
    using zdiv_mono1 [of "2 ^ 63" "uint v" "2 ^ 63"] by (auto simp: not_less div_pos_pos_trivial leI)
  moreover have "lock_bit \<le> v \<longleftrightarrow> 2 ^ 63 \<le> uint v"
    by (simp add: lock_bit_val word_le_def)
  ultimately show ?thesis using bit by (simp add: locked_iff_bit)
qed

lemma locked_as_locked [simp]: "locked (as_locked v)"
  by (simp add: locked_iff_bit as_locked_def bit_or_iff bit_lock_bit)

lemma as_locked_xor:
  "\<not> locked v \<Longrightarrow> as_locked v XOR lock_bit = v"
  by (rule bit_eqI) (auto simp: as_locked_def bit_or_iff bit_xor_iff bit_lock_bit locked_iff_bit)

lemma locked_not_valid:
  "locked v \<Longrightarrow> \<not> locked rv \<Longrightarrow> \<not> v \<le> rv"
  by (auto simp: locked_iff_ge)

lemma unlocked_le: "\<not> locked w \<Longrightarrow> v \<le> w \<Longrightarrow> \<not> locked v"
  by (auto simp: locked_iff_ge)

lemma off_state_val: "off_state = - 1"
  by (simp add: off_state_def)

lemma less_off_state [simp]: "a < off_state \<longleftrightarrow> a \<noteq> off_state"
  by (simp add: off_state_val word_order.not_eq_extremum)

lemma off_state_le [simp]: "off_state \<le> a \<longleftrightarrow> a = off_state"
  by (simp add: off_state_val word_order.extremum_unique)

lemma numeral_off_state [simp]:
  "numeral n = off_state \<longleftrightarrow> (numeral n :: epoch_t) = - 1"
  "off_state = numeral n \<longleftrightarrow> (numeral n :: epoch_t) = - 1"
  by (auto simp: off_state_val)

lemma locked_off_state [simp]: "locked off_state"
  by (simp add: off_state_val locked_iff_bit)

lemma not_locked_0 [simp]: "\<not> locked 0"
  by (simp add: locked_iff_bit)

lemma unlocked_not_failed: "\<not> locked v \<Longrightarrow> v \<noteq> commit_failed"
  by (auto simp: commit_failed_def)

lemma max_version_val: "max_version = lock_bit - 1"
  by (simp add: max_version_def bump_size_def lock_bit_val)

lemma bump_facts:
  assumes "bump_assert c"
  shows "c < c + bump_size" "\<not> locked (c + bump_size)" "\<not> locked c"
    "v \<le> c + bump_size \<longleftrightarrow> v \<le> c \<or> v = c + bump_size"
proof -
  have c: "unat c < 2 ^ 63 - 2"
    using assms by (simp add: bump_assert_def max_version_val lock_bit_val bump_size_def word_less_nat_alt)
  then have u: "unat (c + 1) = unat c + 1"
    by (simp add: unat_word_ariths)
  show "c < c + bump_size"
    using u by (simp add: bump_size_def word_less_nat_alt)
  show "\<not> locked (c + bump_size)" "\<not> locked c"
    using u c by (simp_all add: locked_iff_ge lock_bit_val bump_size_def word_le_nat_alt)
  show "v \<le> c + bump_size \<longleftrightarrow> v \<le> c \<or> v = c + bump_size"
    using u by (auto simp: bump_size_def word_le_nat_alt word_unat_eq_iff)
qed

section \<open>Properties\<close>

text \<open>A lock held by anyone makes a variable newer than every transaction, and unlocking by
  \<open>xor\<close> restores the version that was locked.\<close>

theorem locked_version_never_valid:
  assumes "\<not> locked v" and "\<not> locked rv"
  shows "locked (as_locked v) \<and> \<not> as_locked v \<le> rv \<and> as_locked v XOR lock_bit = v"
  using assms by (simp add: as_locked_xor locked_not_valid)

theorem locked_version_never_valid_witness: "\<not> as_locked 3 \<le> 9000 \<and> as_locked 3 XOR lock_bit = 3"
proof -
  have "\<not> locked 3" "\<not> locked 9000"
    by (simp_all add: locked_iff_ge lock_bit_val)
  then show ?thesis using locked_version_never_valid by blast
qed

text \<open>As long as the assertion of \<open>fetch_and_bump_clock\<close> holds, the new clock is above the old
  one, stays clear of the lock bit, and the next version is usable by \<open>publish\<close>.\<close>

theorem clock_stays_unlocked:
  assumes "bump_assert (clock d)"
  shows "fst (fetch_and_bump_clock d) = clock d
    \<and> clock d < clock (snd (fetch_and_bump_clock d))
    \<and> \<not> locked (clock (snd (fetch_and_bump_clock d)))
    \<and> clock d \<noteq> commit_failed"
  using bump_facts [OF assms] unlocked_not_failed by (simp add: fetch_and_bump_clock_def)

theorem clock_stays_unlocked_witness:
  "fst (fetch_and_bump_clock \<lparr> clock = 41 \<rparr>) = 41 \<and> \<not> locked (clock (snd (fetch_and_bump_clock \<lparr> clock = 41 \<rparr>)))"
proof -
  have "bump_assert (clock \<lparr> clock = 41 \<rparr>)"
    by (simp add: bump_assert_def max_version_val lock_bit_val bump_size_def)
  from clock_stays_unlocked [OF this] show ?thesis by simp
qed

end
