(* ===== verification/Thread_Sync.thy ===== *)
theory Thread_Sync
  imports Versions
begin

text \<open>
  \<^verbatim>\<open>thread_synchronization_node\<close> of \<^verbatim>\<open>detail/thread_synchronization.hpp\<close> as one thread runs it:
  the announcement of the epoch a critical section started in, and the wait for the other threads.
  The word of another thread changes while this thread waits, so \<open>wait_min_epoch\<close> takes, for every
  registered node, the list of the values its successive loads return; a list that ends before the
  wait does stands for a wait that does not end.
\<close>

section \<open>Announcing an epoch\<close>

record sync_node =
  active :: epoch_t

definition new_node :: sync_node where
  "new_node = \<lparr> active = off_state \<rparr>"

definition node_epoch :: "sync_node \<Rightarrow> epoch_t" where
  "node_epoch n = active n"

definition node_in_critical_section :: "sync_node \<Rightarrow> bool" where
  "node_in_critical_section n \<longleftrightarrow> active n \<noteq> off_state"

definition access_lock_assert :: "epoch_t \<Rightarrow> sync_node \<Rightarrow> bool" where
  "access_lock_assert epoch n \<longleftrightarrow> \<not> node_in_critical_section n \<and> epoch \<noteq> off_state"

definition access_lock :: "epoch_t \<Rightarrow> sync_node \<Rightarrow> sync_node" where
  "access_lock epoch n = n\<lparr> active := epoch \<rparr>"

definition access_relock_assert :: "epoch_t \<Rightarrow> sync_node \<Rightarrow> bool" where
  "access_relock_assert epoch n \<longleftrightarrow> node_in_critical_section n \<and> epoch \<noteq> off_state \<and> active n \<le> epoch"

definition access_relock :: "epoch_t \<Rightarrow> sync_node \<Rightarrow> sync_node" where
  "access_relock epoch n = n\<lparr> active := epoch \<rparr>"

definition access_unlock_assert :: "sync_node \<Rightarrow> bool" where
  "access_unlock_assert n \<longleftrightarrow> node_in_critical_section n"

definition access_unlock :: "sync_node \<Rightarrow> sync_node" where
  "access_unlock n = n\<lparr> active := off_state \<rparr>"

definition epoch_less_equal_to :: "epoch_t \<Rightarrow> sync_node \<Rightarrow> bool" where
  "epoch_less_equal_to epoch n \<longleftrightarrow> active n \<le> epoch"

section \<open>Waiting for the others\<close>

fun wait_on_epoch :: "epoch_t \<Rightarrow> epoch_t list \<Rightarrow> bool" where
  "wait_on_epoch epoch [] = False"
| "wait_on_epoch epoch (td_epoch # loads) = (if td_epoch \<le> epoch then wait_on_epoch epoch loads else True)"

fun wait_min_loop :: "epoch_t \<Rightarrow> epoch_t \<Rightarrow> epoch_t list list \<Rightarrow> epoch_t option" where
  "wait_min_loop epoch result [] = Some result"
| "wait_min_loop epoch result ([] # nodes) = None"
| "wait_min_loop epoch result ((td_epoch # loads) # nodes) =
     (if td_epoch \<le> epoch then (if wait_on_epoch epoch loads then wait_min_loop epoch result nodes else None)
      else if td_epoch < result then wait_min_loop epoch td_epoch nodes
      else wait_min_loop epoch result nodes)"

definition wait_min_epoch :: "epoch_t \<Rightarrow> epoch_t list list \<Rightarrow> epoch_t option" where
  "wait_min_epoch epoch nodes = wait_min_loop epoch off_state nodes"

definition synchronize_min_epoch :: "epoch_t \<Rightarrow> epoch_t list list \<Rightarrow> epoch_t option" where
  "synchronize_min_epoch epoch nodes = wait_min_epoch epoch nodes"

section \<open>Facts\<close>

text \<open>
  A node is quiet for \<open>c\<close> when some load saw it past \<open>c\<close>: outside every critical section that
  began at an epoch up to \<open>c\<close>.
\<close>

definition quiet_for :: "epoch_t \<Rightarrow> epoch_t list \<Rightarrow> bool" where
  "quiet_for c loads \<longleftrightarrow> (\<exists>a \<in> set loads. c < a)"

lemma wait_on_epoch_iff: "wait_on_epoch e loads \<longleftrightarrow> quiet_for e loads"
  by (induction e loads rule: wait_on_epoch.induct) (auto simp: quiet_for_def)

text \<open>
  The result bounds the epochs of the threads that did not have to be waited for; the others have
  left the critical section they were in.
\<close>

lemma wait_min_loop_bound:
  "wait_min_loop e r nodes = Some m \<Longrightarrow> e < r \<Longrightarrow>
   m \<le> r \<and> e < m \<and> (\<forall>loads \<in> set nodes. loads \<noteq> [] \<and> (hd loads \<le> e \<and> quiet_for e (tl loads) \<or> m \<le> hd loads))"
proof (induction e r nodes rule: wait_min_loop.induct)
  case (3 e r a loads nodes)
  consider "a \<le> e" "wait_on_epoch e loads" | "\<not> a \<le> e" "a < r" | "\<not> a \<le> e" "\<not> a < r"
    using 3 by (auto split: if_splits)
  then show ?case
  proof cases
    case 1
    with 3 show ?thesis by (auto simp: wait_on_epoch_iff)
  next
    case 2
    with 3 have "m \<le> a \<and> e < m" and "\<forall>loads \<in> set nodes. loads \<noteq> [] \<and>
        (hd loads \<le> e \<and> quiet_for e (tl loads) \<or> m \<le> hd loads)"
      by auto
    with 2 show ?thesis by auto
  next
    case 3: 3
    with "3.IH"(3) "3.prems" show ?thesis by auto
  qed
qed auto

lemma wait_min_epoch_quiet:
  assumes "wait_min_epoch e nodes = Some m" and "e \<noteq> off_state" and "loads \<in> set nodes" and "c \<le> e \<or> c < m"
  shows "quiet_for c loads \<or> hd loads \<le> e \<and> quiet_for e (tl loads)"
proof -
  have "e < off_state"
    using assms(2) by simp
  then have "e < m" "loads \<noteq> []" "hd loads \<le> e \<and> quiet_for e (tl loads) \<or> m \<le> hd loads"
    using wait_min_loop_bound [of e off_state nodes m] assms by (auto simp: wait_min_epoch_def)
  then show ?thesis
    using assms(4) by (cases loads) (auto simp: quiet_for_def)
qed

section \<open>Properties\<close>

text \<open>When \<open>synchronize_min_epoch\<close> returns, every thread it looked at has been seen outside the
  critical sections that began up to the epoch waited for; and the value returned lies above that
  epoch and does not exceed the epoch of any thread that did not have to be waited for.\<close>

theorem synchronize_min_epoch_quiet:
  assumes "synchronize_min_epoch e nodes = Some m" and "e \<noteq> off_state"
  shows "e < m \<and> (\<forall>loads \<in> set nodes. quiet_for e loads \<and> (hd loads \<le> e \<or> m \<le> hd loads))"
proof -
  have "e < off_state"
    using assms(2) by simp
  then have *: "e < m \<and> (\<forall>loads \<in> set nodes. loads \<noteq> [] \<and> (hd loads \<le> e \<and> quiet_for e (tl loads) \<or> m \<le> hd loads))"
    using wait_min_loop_bound [of e off_state nodes m] assms(1)
    by (auto simp: synchronize_min_epoch_def wait_min_epoch_def)
  have "quiet_for e loads \<and> (hd loads \<le> e \<or> m \<le> hd loads)" if "loads \<in> set nodes" for loads
    using * that by (cases loads) (auto simp: quiet_for_def)
  with * show ?thesis by blast
qed

theorem synchronize_min_epoch_quiet_witness:
  "synchronize_min_epoch 5 [[off_state], [3, 3, 9], [8]] = Some 8
   \<and> quiet_for 5 [3, 3, 9] \<and> (5 :: epoch_t) < 8"
proof -
  have s: "synchronize_min_epoch 5 [[off_state], [3, 3, 9], [8]] = Some 8" and ne: "5 \<noteq> off_state"
    by (simp_all add: synchronize_min_epoch_def wait_min_epoch_def)
  show ?thesis using s synchronize_min_epoch_quiet [OF s ne] by simp
qed

end
