(* ===== verification/Var_Detail.thy ===== *)
theory Var_Detail
  imports Versions
begin

text \<open>
  Transactional variables: the part of \<^verbatim>\<open>detail/var_detail.hpp\<close> and \<^verbatim>\<open>var.hpp\<close> that does not
  involve a transaction, the grace-period callbacks of \<^verbatim>\<open>detail/gp_callback.hpp\<close>, and the memory
  the standard allocator hands out.

  A variable is a version lock and a storage word. A small trivially copyable value lies in the
  storage itself (\<open>Atomic\<close>); any other value is an object on the heap and the storage is its
  address (\<open>Heap\<close>). The allocator is the standard one: \<open>allocate\<close> takes an address from a list of
  free blocks and fails when there is none, and a freed block is the first to be handed out
  again. Using a block in a state the language does not allow (destroying what was not
  constructed, freeing twice) is the error \<open>Undefined_behaviour\<close>, never a silent no-op.
\<close>

section \<open>Errors\<close>

datatype cxx_error =
    Bad_alloc
  | Ctor_exception
  | User_exception
  | Tx_retry
  | Undefined_behaviour

section \<open>Memory\<close>

text \<open>Raw storage for one object, an object, or raw storage for an array of so many objects.\<close>

datatype 'v block = Raw | Object 'v | Raw_Array uword

record 'v memory =
  mem_blocks :: "uword \<Rightarrow> 'v block option"
  mem_free :: "uword list"

definition mem_allocate :: "'v memory \<Rightarrow> (uword \<times> 'v memory) option" where
  "mem_allocate m =
     (case mem_free m of
        [] \<Rightarrow> None
      | p # ps \<Rightarrow> Some (p, m\<lparr> mem_blocks := (mem_blocks m)(p := Some Raw), mem_free := ps \<rparr>))"

definition mem_construct :: "uword \<Rightarrow> 'v \<Rightarrow> 'v memory \<Rightarrow> 'v memory option" where
  "mem_construct p v m =
     (if mem_blocks m p = Some Raw then Some (m\<lparr> mem_blocks := (mem_blocks m)(p := Some (Object v)) \<rparr>) else None)"

definition mem_destroy :: "uword \<Rightarrow> 'v memory \<Rightarrow> 'v memory option" where
  "mem_destroy p m =
     (case mem_blocks m p of
        Some (Object v) \<Rightarrow> Some (m\<lparr> mem_blocks := (mem_blocks m)(p := Some Raw) \<rparr>)
      | _ \<Rightarrow> None)"

definition mem_deallocate :: "uword \<Rightarrow> 'v memory \<Rightarrow> 'v memory option" where
  "mem_deallocate p m =
     (if mem_blocks m p = Some Raw
      then Some (m\<lparr> mem_blocks := (mem_blocks m)(p := None), mem_free := p # mem_free m \<rparr>) else None)"

definition mem_load :: "uword \<Rightarrow> 'v memory \<Rightarrow> 'v option" where
  "mem_load p m = (case mem_blocks m p of Some (Object v) \<Rightarrow> Some v | _ \<Rightarrow> None)"

definition mem_assign :: "uword \<Rightarrow> 'v \<Rightarrow> 'v memory \<Rightarrow> 'v memory option" where
  "mem_assign p v m =
     (case mem_blocks m p of
        Some (Object _) \<Rightarrow> Some (m\<lparr> mem_blocks := (mem_blocks m)(p := Some (Object v)) \<rparr>)
      | _ \<Rightarrow> None)"

text \<open>The storage of an array has to be given back with the count it was taken with.\<close>

definition mem_allocate_n :: "uword \<Rightarrow> 'v memory \<Rightarrow> (uword \<times> 'v memory) option" where
  "mem_allocate_n count m =
     (case mem_free m of
        [] \<Rightarrow> None
      | p # ps \<Rightarrow> Some (p, m\<lparr> mem_blocks := (mem_blocks m)(p := Some (Raw_Array count)), mem_free := ps \<rparr>))"

definition mem_deallocate_n :: "uword \<Rightarrow> uword \<Rightarrow> 'v memory \<Rightarrow> 'v memory option" where
  "mem_deallocate_n p count m =
     (if mem_blocks m p = Some (Raw_Array count)
      then Some (m\<lparr> mem_blocks := (mem_blocks m)(p := None), mem_free := p # mem_free m \<rparr>) else None)"

text \<open>Free addresses are distinct and not in use.\<close>

definition mem_inv :: "'v memory \<Rightarrow> bool" where
  "mem_inv m \<longleftrightarrow> distinct (mem_free m) \<and> (\<forall>p \<in> set (mem_free m). mem_blocks m p = None)"

section \<open>Variables\<close>

record var_base =
  version_lock :: epoch_t
  storage :: var_storage

datatype var_type = Heap | Atomic

text \<open>What \<open>var_type_switch\<close> asks of the type \<open>T\<close>.\<close>

record type_traits =
  tt_sizeof :: nat
  tt_alignof :: nat
  tt_trivially_copy_constructible :: bool
  tt_trivially_move_constructible :: bool
  tt_trivially_copy_assignable :: bool
  tt_trivially_move_assignable :: bool
  tt_trivially_destructible :: bool

definition var_type_switch :: "type_traits \<Rightarrow> var_type" where
  "var_type_switch T =
     (if tt_sizeof T \<le> 8 \<and> tt_alignof T \<le> 8
         \<and> tt_trivially_copy_constructible T \<and> tt_trivially_move_constructible T
         \<and> tt_trivially_copy_assignable T \<and> tt_trivially_move_assignable T
         \<and> tt_trivially_destructible T
      then Atomic else Heap)"

definition new_var_base :: "var_storage \<Rightarrow> var_base" where
  "new_var_base in_storage = \<lparr> version_lock = 0, storage = in_storage \<rparr>"

text \<open>
  The static functions of \<open>var_alloc_policy\<close>. The argument of \<open>allocate_construct\<close> is the value the
  constructor of \<open>T\<close> produces, or \<open>None\<close> when it throws.
\<close>

definition destroy_deallocate :: "var_storage \<Rightarrow> 'v memory \<Rightarrow> 'v memory option" where
  "destroy_deallocate s m = Option.bind (mem_destroy s m) (mem_deallocate s)"

definition allocate_construct :: "'v option \<Rightarrow> 'v memory \<Rightarrow> (cxx_error + var_storage) \<times> 'v memory" where
  "allocate_construct u m =
     (case mem_allocate m of
        None \<Rightarrow> (Inl Bad_alloc, m)
      | Some (ptr, m1) \<Rightarrow>
          (case u of
             Some v \<Rightarrow>
               (case mem_construct ptr v m1 of
                  Some m2 \<Rightarrow> (Inr ptr, m2)
                | None \<Rightarrow> (Inl Undefined_behaviour, m1))
           | None \<Rightarrow>
               (case destroy_deallocate ptr m1 of
                  Some m2 \<Rightarrow> (Inl Ctor_exception, m2)
                | None \<Rightarrow> (Inl Undefined_behaviour, m1))))"

definition var_load :: "var_storage \<Rightarrow> 'v memory \<Rightarrow> 'v option" where
  "var_load s m = mem_load s m"

definition var_store :: "var_storage \<Rightarrow> 'v \<Rightarrow> 'v memory \<Rightarrow> 'v memory option" where
  "var_store s u m = mem_assign s u m"

text \<open>Constructor and destructor of a heap variable, and the unsynchronised accessors.\<close>

definition var_construct :: "'v option \<Rightarrow> 'v memory \<Rightarrow> (cxx_error + var_base) \<times> 'v memory" where
  "var_construct u m =
     (case allocate_construct u m of
        (Inl e, m') \<Rightarrow> (Inl e, m')
      | (Inr s, m') \<Rightarrow> (Inr (new_var_base s), m'))"

definition var_destruct :: "var_base \<Rightarrow> 'v memory \<Rightarrow> 'v memory option" where
  "var_destruct v m = destroy_deallocate (storage v) m"

definition unsafe_get :: "var_base \<Rightarrow> 'v memory \<Rightarrow> 'v option" where
  "unsafe_get v m = var_load (storage v) m"

definition unsafe_set :: "'v \<Rightarrow> var_base \<Rightarrow> 'v memory \<Rightarrow> 'v memory option" where
  "unsafe_set u v m = var_store (storage v) u m"

text \<open>The same for an atomic variable, whose value is the storage word.\<close>

definition atomic_allocate_construct :: "uword \<Rightarrow> var_storage" where
  "atomic_allocate_construct u = u"

text \<open>Its constructors construct the value in the storage word.\<close>

definition atomic_var_construct :: "uword \<Rightarrow> var_base" where
  "atomic_var_construct u = new_var_base (atomic_allocate_construct u)"

definition atomic_load :: "var_storage \<Rightarrow> uword" where
  "atomic_load s = s"

definition atomic_unsafe_get :: "var_base \<Rightarrow> uword" where
  "atomic_unsafe_get v = atomic_load (storage v)"

definition atomic_unsafe_set :: "uword \<Rightarrow> var_base \<Rightarrow> var_base" where
  "atomic_unsafe_set u v = v\<lparr> storage := u \<rparr>"

section \<open>Grace-period callbacks\<close>

text \<open>
  A callback is one of the lambdas the library builds, or a callback of the user, which is a
  value the model only records.
\<close>

datatype 'c gp_callback =
    Destroy_Deallocate var_storage
  | Deallocate uword
  | Deallocate_N uword uword
  | Destroy uword
  | User 'c

definition run_gp_callback :: "'c gp_callback \<Rightarrow> 'v memory \<times> 'c list \<Rightarrow> ('v memory \<times> 'c list) option" where
  "run_gp_callback cb = (\<lambda>(m, log). case cb of
       Destroy_Deallocate s \<Rightarrow> map_option (\<lambda>m'. (m', log)) (destroy_deallocate s m)
     | Deallocate p \<Rightarrow> map_option (\<lambda>m'. (m', log)) (mem_deallocate p m)
     | Deallocate_N p n \<Rightarrow> map_option (\<lambda>m'. (m', log)) (mem_deallocate_n p n m)
     | Destroy p \<Rightarrow> map_option (\<lambda>m'. (m', log)) (mem_destroy p m)
     | User c \<Rightarrow> Some (m, log @ [c]))"

fun run_gp_callbacks :: "'c gp_callback list \<Rightarrow> 'v memory \<times> 'c list \<Rightarrow> ('v memory \<times> 'c list) option" where
  "run_gp_callbacks [] s = Some s"
| "run_gp_callbacks (cb # cbs) s = Option.bind (run_gp_callback cb s) (run_gp_callbacks cbs)"

section \<open>Facts\<close>

lemma var_type_switch_atomic:
  "var_type_switch T = Atomic \<Longrightarrow> tt_sizeof T \<le> 8 \<and> tt_alignof T \<le> 8 \<and> tt_trivially_destructible T"
  by (simp add: var_type_switch_def split: if_splits)

lemma mem_allocate_Some:
  assumes "mem_inv m" and "mem_allocate m = Some (p, m')"
  shows "mem_inv m'" "mem_blocks m p = None" "mem_blocks m' = (mem_blocks m)(p := Some Raw)"
    "mem_free m = p # mem_free m'"
  using assms by (auto simp: mem_allocate_def mem_inv_def split: list.splits)

lemma mem_deallocate_Some:
  assumes "mem_inv m" and "mem_deallocate p m = Some m'"
  shows "mem_inv m'" "mem_blocks m p = Some Raw" "mem_blocks m' = (mem_blocks m)(p := None)"
    "mem_free m' = p # mem_free m"
  using assms by (auto simp: mem_deallocate_def mem_inv_def split: if_splits)

lemma allocate_construct_ok:
  assumes "mem_inv m" and "mem_free m = p # ps"
  shows "allocate_construct (Some v) m =
    (Inr p, m\<lparr> mem_blocks := (mem_blocks m)(p := Some (Object v)), mem_free := ps \<rparr>)"
  using assms by (simp add: allocate_construct_def mem_allocate_def mem_construct_def)

lemma allocate_construct_cases:
  assumes "mem_inv m"
  obtains "mem_free m = []" and "allocate_construct (Some v) m = (Inl Bad_alloc, m)"
    | p ps where "mem_free m = p # ps" and "mem_blocks m p = None"
      and "allocate_construct (Some v) m =
        (Inr p, m\<lparr> mem_blocks := (mem_blocks m)(p := Some (Object v)), mem_free := ps \<rparr>)"
proof (cases "mem_free m")
  case Nil
  then show ?thesis
    using that(1) by (simp add: allocate_construct_def mem_allocate_def)
next
  case (Cons p ps)
  then show ?thesis
    using that(2) allocate_construct_ok [OF assms Cons] assms by (simp add: mem_inv_def)
qed

lemma destroy_deallocate_object:
  assumes "mem_blocks m s = Some (Object v)"
  shows "destroy_deallocate s m = Some (m\<lparr> mem_blocks := (mem_blocks m)(s := None), mem_free := s # mem_free m \<rparr>)"
  using assms by (simp add: destroy_deallocate_def mem_destroy_def mem_deallocate_def)

lemma destroy_deallocate_Some:
  assumes "destroy_deallocate s m = Some m'"
  obtains v where "mem_blocks m s = Some (Object v)"
    and "m' = m\<lparr> mem_blocks := (mem_blocks m)(s := None), mem_free := s # mem_free m \<rparr>"
  using assms that
  by (auto simp: destroy_deallocate_def mem_destroy_def mem_deallocate_def split: option.splits block.splits if_splits)

lemma destroy_deallocate_inv: "mem_inv m \<Longrightarrow> destroy_deallocate s m = Some m' \<Longrightarrow> mem_inv m'"
  by (erule destroy_deallocate_Some) (auto simp: mem_inv_def)

lemma allocate_construct_inv:
  assumes "mem_inv m"
  shows "mem_inv (snd (allocate_construct (Some v) m))"
  by (rule allocate_construct_cases [OF assms, of v]) (use assms in \<open>auto simp: mem_inv_def\<close>)

text \<open>A value constructed on the heap is read back, and destroying it gives the block back.\<close>

lemma allocate_construct_load:
  assumes "mem_inv m" and "allocate_construct (Some v) m = (Inr s, m')"
  shows "var_load s m' = Some v"
  by (rule allocate_construct_cases [OF assms(1), of v]) (use assms(2) in \<open>auto simp: var_load_def mem_load_def\<close>)

lemma allocate_construct_destroy:
  assumes "mem_inv m" and "allocate_construct (Some v) m = (Inr s, m')"
  shows "destroy_deallocate s m' = Some m"
  by (rule allocate_construct_cases [OF assms(1), of v])
    (use assms(2) in \<open>auto simp: destroy_deallocate_object [where v = v] fun_upd_idem\<close>)

text \<open>
  When the constructor of \<open>T\<close> throws, the handler destroys an object whose lifetime never began;
  the exception does not get out.
\<close>

lemma allocate_construct_throwing:
  assumes "mem_inv m" and "mem_free m = p # ps"
  shows "fst (allocate_construct None m) = Inl Undefined_behaviour"
  using assms
  by (simp add: allocate_construct_def mem_allocate_def destroy_deallocate_def mem_destroy_def)

section \<open>Properties\<close>

text \<open>An object made by \<open>allocate_construct\<close> is new, holds the value given, and
  \<open>destroy_deallocate\<close> undoes it exactly.\<close>

theorem allocate_construct_roundtrip:
  assumes "mem_inv m" and "allocate_construct (Some v) m = (Inr s, m')"
  shows "mem_blocks m s = None \<and> var_load s m' = Some v \<and> mem_inv m' \<and> destroy_deallocate s m' = Some m"
proof -
  have "mem_blocks m s = None"
    by (rule allocate_construct_cases [OF assms(1), of v]) (use assms(2) in auto)
  then show ?thesis
    using allocate_construct_load [OF assms] allocate_construct_destroy [OF assms]
      allocate_construct_inv [OF assms(1), of v] assms(2) by simp
qed

theorem allocate_construct_roundtrip_witness:
  "let m = \<lparr> mem_blocks = (\<lambda>_. None), mem_free = [64, 128] \<rparr>; (r, m') = allocate_construct (Some ''x'') m
   in r = Inr 64 \<and> destroy_deallocate 64 m' = Some m"
proof -
  let ?m = "\<lparr> mem_blocks = (\<lambda>_. None :: string block option), mem_free = [64, 128] \<rparr>"
  have inv: "mem_inv ?m" by (simp add: mem_inv_def)
  have a: "allocate_construct (Some ''x'') ?m = (Inr 64, snd (allocate_construct (Some ''x'') ?m))"
    by (simp add: allocate_construct_def mem_allocate_def mem_construct_def)
  show ?thesis
    using allocate_construct_roundtrip [OF inv a] arg_cong [OF a, of fst] by (simp add: Let_def case_prod_unfold)
qed

text \<open>When the constructor of \<open>T\<close> throws, \<open>allocate_construct\<close> does not let the exception out: its
  handler destroys the object that was not constructed, which is undefined.\<close>

theorem allocate_construct_throw_undefined:
  assumes "mem_inv m" and "mem_free m \<noteq> []"
  shows "fst (allocate_construct None m) = Inl Undefined_behaviour"
  using assms allocate_construct_throwing by (cases "mem_free m") auto

theorem allocate_construct_throw_undefined_witness:
  "fst (allocate_construct None \<lparr> mem_blocks = (\<lambda>_. None :: nat block option), mem_free = [64] \<rparr>) = Inl Undefined_behaviour"
  by (rule allocate_construct_throw_undefined) (simp_all add: mem_inv_def)

end
