(* ===== verification/Thread_Data.thy ===== *)
theory Thread_Data
  imports Write_Set Quiescence_Buffer Thread_Sync Var_Detail
begin

text \<open>
  The per-thread state of \<^verbatim>\<open>thread_data.hpp\<close>: read set, write set, the callbacks of the two
  outcomes of a transaction, the kind of the running transaction and the synchronization node.

  Operations that run callbacks return the callbacks in the order they are invoked, and the new
  state; what a callback does to the memory is in \<^verbatim>\<open>Var_Detail\<close>. Operations that wait for other
  threads take the values the other nodes' words go through (see \<^verbatim>\<open>Thread_Sync\<close>), and their
  result is \<open>None\<close> when they do not return.
\<close>

datatype tx_kind = None_kind | Read_write | Read_only

record 'c thread_data =
  read_set :: "var_ref pod_vector"
  write_set :: pod_hash_set
  fail_callbacks :: "'c gp_callback pod_vector"
  succ_callbacks :: "'c gp_callback quiescence_buffer"
  tx_state :: tx_kind
  synchronization_node :: sync_node

definition new_thread_data :: "'c thread_data" where
  "new_thread_data = \<lparr> read_set = pv_new, write_set = hs_new, fail_callbacks = pv_new,
     succ_callbacks = qb_new, tx_state = None_kind, synchronization_node = new_node \<rparr>"

section \<open>Observers\<close>

definition in_transaction :: "'c thread_data \<Rightarrow> bool" where
  "in_transaction td \<longleftrightarrow> tx_state td \<noteq> None_kind"

definition in_read_only_transaction :: "'c thread_data \<Rightarrow> bool" where
  "in_read_only_transaction td \<longleftrightarrow> tx_state td = Read_only"

definition in_read_write_transaction :: "'c thread_data \<Rightarrow> bool" where
  "in_read_write_transaction td \<longleftrightarrow> tx_state td = Read_write"

definition in_critical_section :: "'c thread_data \<Rightarrow> bool" where
  "in_critical_section td \<longleftrightarrow> node_in_critical_section (synchronization_node td)"

definition td_epoch :: "'c thread_data \<Rightarrow> epoch_t" where
  "td_epoch td = node_epoch (synchronization_node td)"

text \<open>\<^verbatim>\<open>critical_section::valid\<close> of \<^verbatim>\<open>critical_section.hpp\<close>.\<close>

definition critical_section_valid :: "'c thread_data \<Rightarrow> bool" where
  "critical_section_valid td \<longleftrightarrow> in_critical_section td \<and> \<not> in_transaction td"

section \<open>Operations\<close>

definition add_write_set_assert :: "'c thread_data \<Rightarrow> bool" where
  "add_write_set_assert td \<longleftrightarrow> in_critical_section td \<and> in_read_write_transaction td"

definition add_write_set_unchecked :: "var_ref \<Rightarrow> var_storage \<Rightarrow> hash_t \<Rightarrow> 'c thread_data \<Rightarrow> 'c thread_data" where
  "add_write_set_unchecked v s h td = td\<lparr> write_set := hs_unchecked_push_back v s h (write_set td) \<rparr>"

definition add_write_set :: "var_ref \<Rightarrow> var_storage \<Rightarrow> hash_t \<Rightarrow> 'c thread_data \<Rightarrow> 'c thread_data" where
  "add_write_set v s h td = td\<lparr> write_set := hs_push_back v s h (write_set td) \<rparr>"

definition clear_read_write_sets :: "'c thread_data \<Rightarrow> 'c thread_data" where
  "clear_read_write_sets td = td\<lparr> read_set := pv_clear (read_set td), write_set := hs_clear (write_set td) \<rparr>"

definition td_access_lock :: "epoch_t \<Rightarrow> 'c thread_data \<Rightarrow> 'c thread_data" where
  "td_access_lock epoch td = td\<lparr> synchronization_node := access_lock epoch (synchronization_node td) \<rparr>"

definition td_access_relock :: "epoch_t \<Rightarrow> 'c thread_data \<Rightarrow> 'c thread_data" where
  "td_access_relock epoch td = td\<lparr> synchronization_node := access_relock epoch (synchronization_node td) \<rparr>"

definition td_access_unlock :: "'c thread_data \<Rightarrow> 'c thread_data" where
  "td_access_unlock td = td\<lparr> synchronization_node := access_unlock (synchronization_node td) \<rparr>"

definition td_sometime_synchronized_after :: "'c gp_callback \<Rightarrow> 'c thread_data \<Rightarrow> 'c thread_data" where
  "td_sometime_synchronized_after cb td = td\<lparr> succ_callbacks := qb_emplace_back cb (succ_callbacks td) \<rparr>"

definition td_after_fail :: "'c gp_callback \<Rightarrow> 'c thread_data \<Rightarrow> 'c thread_data" where
  "td_after_fail cb td = td\<lparr> fail_callbacks := emplace_back cb (fail_callbacks td) \<rparr>"

text \<open>The loop of \<open>do_fail_callbacks\<close>, from the iterator \<open>riter\<close> down to \<open>begin\<close>.\<close>

fun fail_callbacks_from :: "'c gp_callback pod_vector \<Rightarrow> nat \<Rightarrow> 'c gp_callback list" where
  "fail_callbacks_from v 0 = []"
| "fail_callbacks_from v (Suc riter) = the (pv_mem v riter) # fail_callbacks_from v riter"

definition do_fail_callbacks :: "'c thread_data \<Rightarrow> 'c gp_callback list \<times> 'c thread_data" where
  "do_fail_callbacks td =
     (fail_callbacks_from (fail_callbacks td) (pv_end (fail_callbacks td)),
      td\<lparr> fail_callbacks := pv_clear (fail_callbacks td) \<rparr>)"

definition do_succ_callbacks_front :: "'c thread_data \<Rightarrow> ('c gp_callback list \<times> 'c thread_data) option" where
  "do_succ_callbacks_front td =
     map_option (\<lambda>(cbs, q). (cbs, td\<lparr> succ_callbacks := q \<rparr>)) (do_first_epoch_callbacks (succ_callbacks td))"

text \<open>The body shared by the two reclaim loops, with the callbacks invoked so far.\<close>

definition reclaim_body :: "'c gp_callback list \<times> 'c thread_data \<Rightarrow> ('c gp_callback list \<times> 'c thread_data) option" where
  "reclaim_body = (\<lambda>(l, td). map_option (\<lambda>(cbs, td'). (l @ cbs, td')) (do_succ_callbacks_front td))"

definition reclaim_all :: "epoch_t list list \<Rightarrow> 'c thread_data \<Rightarrow> ('c gp_callback list \<times> 'c thread_data) option" where
  "reclaim_all nodes td =
     Option.bind (back_epoch (succ_callbacks td)) (\<lambda>e.
     Option.bind (synchronize_min_epoch e nodes) (\<lambda>_.
       do_while reclaim_body (\<lambda>(l, td). \<not> qb_empty (succ_callbacks td)) ([], td)))"

definition reclaim_all_possible :: "epoch_t \<Rightarrow> 'c thread_data \<Rightarrow> ('c gp_callback list \<times> 'c thread_data) option" where
  "reclaim_all_possible min_epoch td =
     do_while reclaim_body
       (\<lambda>(l, td). \<not> qb_empty (succ_callbacks td)
          \<and> (case front_epoch (succ_callbacks td) of None \<Rightarrow> False | Some e \<Rightarrow> e < min_epoch)) ([], td)"

definition reclaim_slow_path :: "epoch_t list list \<Rightarrow> 'c thread_data \<Rightarrow> ('c gp_callback list \<times> 'c thread_data) option" where
  "reclaim_slow_path nodes td =
     Option.bind (front_epoch (succ_callbacks td)) (\<lambda>e.
     Option.bind (synchronize_min_epoch e nodes) (\<lambda>min_epoch. reclaim_all_possible min_epoch td))"

definition reclaim_assert :: "epoch_t \<Rightarrow> 'c thread_data \<Rightarrow> bool" where
  "reclaim_assert sync_epoch td \<longleftrightarrow> \<not> in_critical_section td \<and> \<not> in_transaction td
     \<and> sync_epoch \<noteq> off_state \<and> \<not> locked sync_epoch"

definition reclaim :: "epoch_t \<Rightarrow> epoch_t list list \<Rightarrow> 'c thread_data \<Rightarrow> ('c gp_callback list \<times> 'c thread_data) option" where
  "reclaim sync_epoch nodes td =
     (let (full, q) = finalize_epoch sync_epoch (succ_callbacks td); td' = td\<lparr> succ_callbacks := q \<rparr>
      in if full then reclaim_slow_path nodes td' else Some ([], td'))"

text \<open>The destructor, and its assertions.\<close>

definition destruct_assert :: "'c thread_data \<Rightarrow> bool" where
  "destruct_assert td \<longleftrightarrow> \<not> in_critical_section td \<and> \<not> in_transaction td \<and> pv_empty (read_set td)
     \<and> hs_empty (write_set td) \<and> pv_empty (fail_callbacks td) \<and> working_epoch_empty (succ_callbacks td)"

definition destruct_thread_data :: "epoch_t list list \<Rightarrow> 'c thread_data \<Rightarrow> ('c gp_callback list \<times> 'c thread_data) option" where
  "destruct_thread_data nodes td =
     (if qb_empty (succ_callbacks td) then Some ([], td) else reclaim_all nodes td)"

section \<open>Abstraction\<close>

text \<open>
  \<open>td_rep td reads writes fails chunks working\<close>: what the containers of the thread hold.
\<close>

definition td_rep :: "'c thread_data \<Rightarrow> (epoch_t \<times> 'c gp_callback list) list \<Rightarrow> 'c gp_callback list \<Rightarrow> bool" where
  "td_rep td chunks working \<longleftrightarrow>
     pv_inv (read_set td) \<and> hs_inv (write_set td) \<and> pv_inv (fail_callbacks td)
     \<and> qb_rep (succ_callbacks td) chunks working"

lemma new_thread_data_rep: "td_rep new_thread_data [] []"
  by (simp add: td_rep_def new_thread_data_def pv_new_refines hs_new_refines qb_new_rep)

lemma do_fail_callbacks_reverse:
  assumes "pv_inv (fail_callbacks td)"
  shows "fst (do_fail_callbacks td) = rev (pv_items (fail_callbacks td))"
    and "pv_items (fail_callbacks (snd (do_fail_callbacks td))) = []"
proof -
  have "fail_callbacks_from v n = rev (map (\<lambda>i. the (pv_mem v i)) [0..<n])" for v :: "'a gp_callback pod_vector" and n
    by (induction n) auto
  then show "fst (do_fail_callbacks td) = rev (pv_items (fail_callbacks td))"
    by (simp add: do_fail_callbacks_def pv_items_def)
  show "pv_items (fail_callbacks (snd (do_fail_callbacks td))) = []"
    by (simp add: do_fail_callbacks_def pv_clear_refines)
qed

text \<open>The success callbacks of a thread are a callback queue.\<close>

interpretation tdq: callback_queue
    "\<lambda>td cs w. td_rep td cs w" "\<lambda>td. qb_room (succ_callbacks td)"
    td_sometime_synchronized_after
    "\<lambda>td. td\<lparr> succ_callbacks := clear_working_epoch (succ_callbacks td) \<rparr>"
    "\<lambda>e td. td\<lparr> succ_callbacks := snd (finalize_epoch e (succ_callbacks td)) \<rparr>"
    do_succ_callbacks_front "\<lambda>td. front_epoch (succ_callbacks td)" "\<lambda>td. qb_empty (succ_callbacks td)"
proof (unfold_locales, goal_cases)
  case (5 td e cbs cs w)
  then obtain q' where "do_first_epoch_callbacks (succ_callbacks td) = Some (cbs, q')" "qb_rep q' cs w"
    using qb.rep_pop unfolding td_rep_def by blast
  with 5 show ?case
    by (simp add: do_succ_callbacks_front_def td_rep_def)
qed (auto simp: td_rep_def td_sometime_synchronized_after_def qb.rep_push qb.rep_clear qb.rep_finish
      qb.rep_finish_empty qb.rep_front qb.rep_is_empty)

lemma small_queue_room: "td_rep td cs w \<Longrightarrow> queue_slots cs w < 1000 \<Longrightarrow> qb_room (succ_callbacks td)"
  by (rule qb_room_slots [of _ cs w]) (simp_all add: td_rep_def)

section \<open>Reclamation\<close>

lemma reclaim_body_pop:
  "reclaim_body (l, td) = map_option (\<lambda>(cbs, td'). (l @ cbs, td')) (do_succ_callbacks_front td)"
  by (simp add: reclaim_body_def)

lemma reclaim_all_possible_rep:
  assumes "td_rep td ((e, cbs) # cs) []"
  obtains td' where "reclaim_all_possible m td = Some (cbs @ concat (map snd (takeWhile (\<lambda>(e, _). e < m) cs)), td')"
    and "td_rep td' (dropWhile (\<lambda>(e, _). e < m) cs) []"
proof -
  let ?cond = "\<lambda>(l, td). \<not> qb_empty (succ_callbacks td)
      \<and> (case front_epoch (succ_callbacks td) of None \<Rightarrow> False | Some e \<Rightarrow> e < m)"
  have eq: "(\<lambda>e. e < m) \<circ> fst = (\<lambda>(e :: epoch_t, _ :: 'a gp_callback list). e < m)" by auto
  have "\<exists>td'. do_while reclaim_body ?cond ([], td) =
        Some ([] @ cbs @ concat (map snd (takeWhile ((\<lambda>e. e < m) \<circ> fst) cs)), td')
      \<and> td_rep td' (dropWhile ((\<lambda>e. e < m) \<circ> fst) cs) []"
    by (rule tdq.drain [OF _ _ reclaim_body_pop assms])
      (auto simp: tdq.rep_front tdq.rep_is_empty)
  then show thesis
    using that unfolding eq reclaim_all_possible_def by auto
qed

lemma reclaim_all_rep:
  assumes "td_rep td (cs @ [(e, cbs)]) []" and "synchronize_min_epoch e nodes = Some m"
  obtains td' where "reclaim_all nodes td = Some (concat (map snd cs) @ cbs, td')" and "td_rep td' [] []"
proof -
  let ?cond = "\<lambda>(l, td :: 'a thread_data). \<not> qb_empty (succ_callbacks td)"
  obtain c0 cs0 where split: "cs @ [(e, cbs)] = c0 # cs0"
    by (cases "cs @ [(e, cbs)]") auto
  obtain e0 l0 where c0: "c0 = (e0, l0)" by (cases c0)
  have rep: "td_rep td ((e0, l0) # cs0) []"
    using assms(1) unfolding split c0 .
  have all: "takeWhile ((\<lambda>_. True) \<circ> fst) xs = xs" "dropWhile ((\<lambda>_. True) \<circ> fst) xs = []"
    for xs :: "(epoch_t \<times> 'a gp_callback list) list"
    by (induction xs) auto
  have "\<exists>td'. do_while reclaim_body ?cond ([], td) =
        Some ([] @ l0 @ concat (map snd (takeWhile ((\<lambda>_. True) \<circ> fst) cs0)), td')
      \<and> td_rep td' (dropWhile ((\<lambda>_. True) \<circ> fst) cs0) []"
    by (rule tdq.drain [OF _ _ reclaim_body_pop rep]) (auto simp: tdq.rep_is_empty)
  moreover have "back_epoch (succ_callbacks td) = Some e"
    using assms(1) back_epoch_rep by (auto simp: td_rep_def)
  moreover have "l0 @ concat (map snd cs0) = concat (map snd cs) @ cbs"
    using arg_cong [OF split, of "\<lambda>xs. concat (map snd xs)"] c0 by simp
  ultimately show thesis
    using that assms(2) by (auto simp: reclaim_all_def all)
qed

text \<open>The loops touch nothing but the queue.\<close>

lemma reclaim_all_possible_frame:
  assumes "reclaim_all_possible m td = Some (l, td')"
  shows "td' = td\<lparr> succ_callbacks := succ_callbacks td' \<rparr>"
proof -
  have "(\<lambda>(l, td'). \<exists>q. td' = td\<lparr> succ_callbacks := q \<rparr>) (l, td')"
  proof (rule do_while_invariant [OF assms [unfolded reclaim_all_possible_def]])
    fix s s' :: "'a gp_callback list \<times> 'a thread_data"
    assume "reclaim_body s = Some s'" and "case s of (l, td') \<Rightarrow> \<exists>q. td' = td\<lparr> succ_callbacks := q \<rparr>"
    then show "case s' of (l, td') \<Rightarrow> \<exists>q. td' = td\<lparr> succ_callbacks := q \<rparr>"
      by (cases s) (auto simp: reclaim_body_def do_succ_callbacks_front_def)
  next
    show "case ([], td) of (l, td') \<Rightarrow> \<exists>q. td' = td\<lparr> succ_callbacks := q \<rparr>"
      by (auto intro: exI [of _ "succ_callbacks td"])
  qed
  then show ?thesis by auto
qed

text \<open>
  \<open>reclaim\<close> closes the working chunk and runs a prefix of the queue. When that prefix is not empty,
  the other threads were waited for on the epoch of its first chunk, and every other chunk in it
  is older than the epochs of those that did not have to be waited for.
\<close>

lemma reclaim_rep:
  assumes "td_rep td chunks working" and "qb_room (succ_callbacks td)"
    and "\<And>c. c \<noteq> off_state \<Longrightarrow> synchronize_min_epoch c nodes \<noteq> None"
    and "\<forall>c \<in> fst ` set chunks \<union> {e}. c \<noteq> off_state"
  obtains gone rest td' where "chunks @ (if working = [] then [] else [(e, working)]) = gone @ rest"
    and "reclaim e nodes td = Some (concat (map snd gone), td')" and "td_rep td' rest []"
    and "td' = td\<lparr> succ_callbacks := succ_callbacks td' \<rparr>"
    and "gone \<noteq> [] \<longrightarrow> (\<exists>m. synchronize_min_epoch (fst (hd gone)) nodes = Some m
      \<and> (\<forall>(c, _) \<in> set (tl gone). c < m))"
proof (cases "working = []")
  case True
  then have "finalize_epoch e (succ_callbacks td) = (False, succ_callbacks td)"
    using assms(1) finalize_epoch_empty by (auto simp: td_rep_def)
  then have "reclaim e nodes td = Some ([], td)"
    by (simp add: reclaim_def)
  with True show ?thesis
    using that [of "[]" chunks td] assms(1) by simp
next
  case False
  let ?cs = "chunks @ [(e, working)]"
  let ?td = "td\<lparr> succ_callbacks := snd (finalize_epoch e (succ_callbacks td)) \<rparr>"
  have rep: "td_rep ?td ?cs []"
    using tdq.rep_finish [OF assms(1) False assms(2)] .
  show ?thesis
  proof (cases "fst (finalize_epoch e (succ_callbacks td))")
    case full: True
    obtain c0 cs0 where split: "?cs = c0 # cs0" by (cases ?cs) auto
    obtain e0 l0 where c0: "c0 = (e0, l0)" by (cases c0)
    have rep0: "td_rep ?td ((e0, l0) # cs0) []" using rep unfolding split c0 .
    have "(e0, l0) \<in> set ?cs" unfolding split c0 by simp
    then have "e0 \<noteq> off_state" using assms(4) by auto
    then obtain m where m: "synchronize_min_epoch e0 nodes = Some m" using assms(3) by blast
    obtain td' where run: "reclaim_all_possible m ?td = Some (l0 @ concat (map snd (takeWhile (\<lambda>(e, _). e < m) cs0)), td')"
      and rep': "td_rep td' (dropWhile (\<lambda>(e, _). e < m) cs0) []"
      by (rule reclaim_all_possible_rep [OF rep0])
    have frame: "td' = td\<lparr> succ_callbacks := succ_callbacks td' \<rparr>"
      using reclaim_all_possible_frame [OF run] by simp
    have "front_epoch (snd (finalize_epoch e (succ_callbacks td))) = Some e0"
      using tdq.rep_front [OF rep0] by simp
    then have "reclaim e nodes td = reclaim_all_possible m ?td"
      using full m by (cases "finalize_epoch e (succ_callbacks td)") (simp add: reclaim_def reclaim_slow_path_def)
    then show ?thesis
      using that [of "(e0, l0) # takeWhile (\<lambda>(e, _). e < m) cs0" "dropWhile (\<lambda>(e, _). e < m) cs0" td']
        run rep' frame split c0 False m by (auto dest: set_takeWhileD)
  next
    case False
    then have "reclaim e nodes td = Some ([], ?td)"
      by (auto simp: reclaim_def split: prod.split)
    then show ?thesis
      using that [of "[]" ?cs ?td] rep \<open>working \<noteq> []\<close> by simp
  qed
qed

section \<open>Properties\<close>

text \<open>The failure callbacks run in the reverse of the order in which they were registered, each
  once, and none is left.\<close>

theorem fail_callbacks_run_in_reverse:
  assumes "pv_inv (fail_callbacks td)"
  shows "fst (do_fail_callbacks td) = rev (pv_items (fail_callbacks td))
    \<and> pv_items (fail_callbacks (snd (do_fail_callbacks td))) = []"
  using do_fail_callbacks_reverse [OF assms] by blast

theorem fail_callbacks_run_in_reverse_witness:
  "fst (do_fail_callbacks (td_after_fail (User CHR ''b'') (td_after_fail (User CHR ''a'') new_thread_data)))
   = [User CHR ''b'', User CHR ''a'']"
proof -
  let ?td = "td_after_fail (User CHR ''b'') (td_after_fail (User CHR ''a'') new_thread_data)"
  have "pv_inv (fail_callbacks ?td)"
    by (simp add: td_after_fail_def new_thread_data_def emplace_back_inv pv_new_refines)
  from fail_callbacks_run_in_reverse [OF this] show ?thesis
    by (simp add: td_after_fail_def new_thread_data_def vec_simps pv_new_refines)
qed

text \<open>C13: \<open>reclaim\<close> runs a prefix of the queue of chunks, oldest first, and keeps the rest; and a chunk
  runs only when every other thread has been seen past the epoch of the chunk, or was waited for on
  the epoch of the oldest chunk and has left the section it was in.\<close>

theorem reclaim_grace_period:
  assumes "td_rep td chunks working" and "qb_room (succ_callbacks td)"
    and "\<And>c. c \<noteq> off_state \<Longrightarrow> synchronize_min_epoch c nodes \<noteq> None"
    and "\<forall>c \<in> fst ` set chunks \<union> {e}. c \<noteq> off_state"
  shows "\<exists>gone rest td'. chunks @ (if working = [] then [] else [(e, working)]) = gone @ rest
    \<and> reclaim e nodes td = Some (concat (map snd gone), td') \<and> td_rep td' rest []
    \<and> (\<forall>c \<in> fst ` set gone. \<forall>loads \<in> set nodes.
         quiet_for c loads \<or> hd loads \<le> fst (hd gone) \<and> quiet_for (fst (hd gone)) (tl loads))"
proof -
  obtain gone rest td' where split: "chunks @ (if working = [] then [] else [(e, working)]) = gone @ rest"
    and run: "reclaim e nodes td = Some (concat (map snd gone), td')" "td_rep td' rest []"
    and sync: "gone \<noteq> [] \<longrightarrow> (\<exists>m. synchronize_min_epoch (fst (hd gone)) nodes = Some m
      \<and> (\<forall>(c, _) \<in> set (tl gone). c < m))"
    by (rule reclaim_rep [OF assms]) blast
  have "quiet_for c loads \<or> hd loads \<le> fst (hd gone) \<and> quiet_for (fst (hd gone)) (tl loads)"
    if "c \<in> fst ` set gone" "loads \<in> set nodes" for c loads
  proof -
    have ne: "gone \<noteq> []" using that by auto
    obtain m where m: "wait_min_epoch (fst (hd gone)) nodes = Some m" "\<forall>(c, _) \<in> set (tl gone). c < m"
      using sync ne by (auto simp: synchronize_min_epoch_def)
    have "hd gone \<in> set (chunks @ (if working = [] then [] else [(e, working)]))"
      unfolding split using ne by simp
    then have "fst (hd gone) \<noteq> off_state"
      using assms(4) by (auto split: if_splits)
    moreover have "c \<le> fst (hd gone) \<or> c < m"
      using that(1) m(2) ne by (cases gone) auto
    ultimately show ?thesis
      using wait_min_epoch_quiet [OF m(1) _ that(2)] by blast
  qed
  with split run show ?thesis by blast
qed

text \<open>A thread with one callback registered by a transaction that has just committed at epoch 7.\<close>

definition reclaiming_thread :: "char thread_data" where
  "reclaiming_thread = td_sometime_synchronized_after (User CHR ''x'') new_thread_data"

theorem reclaim_grace_period_witness:
  "\<exists>gone rest td'. [(7, [User CHR ''x''])] = gone @ rest
    \<and> reclaim 7 [[off_state]] reclaiming_thread = Some (concat (map snd gone), td') \<and> td_rep td' rest []"
proof -
  have r: "td_rep (new_thread_data :: char thread_data) [] []" by (rule new_thread_data_rep)
  have x: "td_rep reclaiming_thread [] [User CHR ''x'']"
    using tdq.rep_push [OF r small_queue_room [OF r]] by (simp add: reclaiming_thread_def queue_slots_def)
  have room': "qb_room (succ_callbacks reclaiming_thread)"
    using small_queue_room [OF x] by (simp add: queue_slots_def)
  have sync: "synchronize_min_epoch c [[off_state]] \<noteq> None" if "c \<noteq> off_state" for c
    using that by (simp add: synchronize_min_epoch_def wait_min_epoch_def)
  have ne: "\<forall>c \<in> fst ` set [] \<union> {7}. c \<noteq> off_state" by simp
  show ?thesis
    using reclaim_grace_period [OF x room' sync ne]
    by (simp only: append.simps list.distinct if_False simp_thms) blast
qed

text \<open>\<open>reclaim_all\<close> waits on the epoch of the newest chunk; when no chunk is newer than that one,
  every callback runs, in order, and each chunk only after every other thread has been seen past
  its epoch.\<close>

theorem reclaim_all_grace_period:
  assumes "td_rep td (cs @ [(e, cbs)]) []" and "synchronize_min_epoch e nodes = Some m" and "e \<noteq> off_state"
    and "\<forall>c \<in> fst ` set cs. c \<le> e"
  shows "\<exists>td'. reclaim_all nodes td = Some (concat (map snd cs) @ cbs, td') \<and> td_rep td' [] []
    \<and> (\<forall>c \<in> fst ` set (cs @ [(e, cbs)]). \<forall>loads \<in> set nodes. quiet_for c loads)"
proof -
  obtain td' where td': "reclaim_all nodes td = Some (concat (map snd cs) @ cbs, td')" "td_rep td' [] []"
    by (rule reclaim_all_rep [OF assms(1,2)])
  have e: "quiet_for e loads" if "loads \<in> set nodes" for loads
    using wait_min_epoch_quiet [of e nodes m loads e] assms(2,3) that
    by (cases loads) (auto simp: synchronize_min_epoch_def quiet_for_def)
  have "quiet_for c loads" if "c \<in> fst ` set (cs @ [(e, cbs)])" "loads \<in> set nodes" for c loads
  proof -
    have "c \<le> e" using that(1) assms(4) by auto
    with e [OF that(2)] show ?thesis by (auto simp: quiet_for_def intro: le_less_trans)
  qed
  with td' show ?thesis by blast
qed

text \<open>C38: The epoch of the newest chunk need not be the largest. A transaction that writes nothing
  commits with epoch 0, so the callbacks it registered sit at the back of the queue with epoch 0;
  \<open>reclaim_all\<close> then runs all older chunks without waiting for a thread that entered its critical
  section at any later epoch.\<close>

theorem reclaim_all_no_grace_period:
  assumes "td_rep td (cs @ [(0, cbs)]) []" and "\<forall>loads \<in> set nodes. loads \<noteq> [] \<and> 0 < hd loads"
  shows "\<exists>td'. reclaim_all nodes td = Some (concat (map snd cs) @ cbs, td')"
proof -
  have "wait_min_loop 0 r nodes \<noteq> None" for r
    using assms(2)
  proof (induction nodes arbitrary: r)
    case (Cons loads nodes)
    then show ?case by (cases loads) auto
  qed simp
  then obtain m where "synchronize_min_epoch 0 nodes = Some m"
    by (auto simp: synchronize_min_epoch_def wait_min_epoch_def)
  from reclaim_all_rep [OF assms(1) this] show ?thesis by blast
qed

text \<open>Its witness: a chunk of epoch 100 runs although the only other thread never leaves the
  critical section it entered at epoch 50.\<close>

definition exiting_thread :: "char thread_data" where
  "exiting_thread =
     (let td1 = td_sometime_synchronized_after (User CHR ''a'') new_thread_data;
          td2 = td1\<lparr> succ_callbacks := snd (finalize_epoch 100 (succ_callbacks td1)) \<rparr>;
          td3 = td_sometime_synchronized_after (User CHR ''b'') td2
      in td3\<lparr> succ_callbacks := snd (finalize_epoch 0 (succ_callbacks td3)) \<rparr>)"

lemma exiting_thread_rep: "td_rep exiting_thread [(100, [User CHR ''a'']), (0, [User CHR ''b''])] []"
proof -
  let ?td1 = "td_sometime_synchronized_after (User CHR ''a'') (new_thread_data :: char thread_data)"
  let ?td2 = "?td1\<lparr> succ_callbacks := snd (finalize_epoch 100 (succ_callbacks ?td1)) \<rparr>"
  let ?td3 = "td_sometime_synchronized_after (User CHR ''b'') ?td2"
  have 1: "td_rep ?td1 [] [User CHR ''a'']"
    using tdq.rep_push [OF new_thread_data_rep small_queue_room [OF new_thread_data_rep]]
    by (simp add: queue_slots_def)
  have 2: "td_rep ?td2 [(100, [User CHR ''a''])] []"
    using tdq.rep_finish [OF 1 _ small_queue_room [OF 1]] by (simp add: queue_slots_def)
  have 3: "td_rep ?td3 [(100, [User CHR ''a''])] [User CHR ''b'']"
    using tdq.rep_push [OF 2 small_queue_room [OF 2]] by (simp add: queue_slots_def)
  show ?thesis
    using tdq.rep_finish [OF 3 _ small_queue_room [OF 3], of 0]
    by (simp add: queue_slots_def exiting_thread_def Let_def)
qed

theorem reclaim_all_no_grace_period_witness:
  "(\<exists>td'. reclaim_all [[50]] exiting_thread = Some ([User CHR ''a'', User CHR ''b''], td')) \<and> \<not> quiet_for 100 [50]"
  using reclaim_all_no_grace_period [of exiting_thread "[(100, [User CHR ''a''])]" "[User CHR ''b'']" "[[50]]"]
    exiting_thread_rep by (simp add: quiet_for_def)

theorem reclaim_all_grace_period_witness:
  "\<exists>td'. reclaim_all [[50, 120]] (exiting_thread\<lparr> succ_callbacks := snd (finalize_epoch 110
       (qb_emplace_back (User CHR ''c'') (succ_callbacks exiting_thread))) \<rparr>)
     = Some ([User CHR ''a'', User CHR ''b'', User CHR ''c''], td')"
proof -
  let ?td1 = "td_sometime_synchronized_after (User CHR ''c'') exiting_thread"
  let ?td2 = "?td1\<lparr> succ_callbacks := snd (finalize_epoch 110 (succ_callbacks ?td1)) \<rparr>"
  note r = exiting_thread_rep
  have 1: "td_rep ?td1 [(100, [User CHR ''a'']), (0, [User CHR ''b''])] [User CHR ''c'']"
    using tdq.rep_push [OF r small_queue_room [OF r]] by (simp add: queue_slots_def)
  have 2: "td_rep ?td2 ([(100, [User CHR ''a'']), (0, [User CHR ''b''])] @ [(110, [User CHR ''c''])]) []"
    using tdq.rep_finish [OF 1 _ small_queue_room [OF 1], of 110] by (simp add: queue_slots_def)
  have s: "synchronize_min_epoch 110 [[50, 120]] = Some off_state"
    by (simp add: synchronize_min_epoch_def wait_min_epoch_def)
  have "(110 :: epoch_t) \<noteq> off_state" by (simp add: off_state_val)
  from reclaim_all_grace_period [OF 2 s this] show ?thesis
    by (auto simp: td_sometime_synchronized_after_def)
qed

end
