(* ===== verification/Transaction_Base.thy ===== *)
theory Transaction_Base
  imports Thread_Data
begin

text \<open>
  Reads and writes inside a transaction: \<^verbatim>\<open>detail/transaction_base.hpp\<close> with the two handles
  \<^verbatim>\<open>transaction\<close> and \<^verbatim>\<open>read_transaction\<close> over it, and the accessors \<open>get\<close>, \<open>untracked_get\<close> and
  \<open>set\<close> of \<^verbatim>\<open>var.hpp\<close>.

  The functions run on the shared state (the variables, the memory, the clock) and the data of
  the calling thread, and return either a value or the error that leaves the function as an
  exception. They are the bodies as one thread executes them; the interleaving of their loads and
  stores with other threads is the subject of \<^verbatim>\<open>Stm_System\<close>.

  Every operation has a fast path that asks the Bloom filter and the capacities first. The lemmas
  show that the fast paths compute what the slow paths compute.
\<close>

section \<open>State\<close>

record 'v shared =
  vars :: "var_ref \<Rightarrow> var_base"
  heap :: "'v memory"
  domain :: transaction_domain

text \<open>\<open>tls_td\<close> is the owning thread, or null in a read transaction that is not nested in a writing one.\<close>

record transaction_base =
  tls_td :: "nat option"
  version :: epoch_t

definition transaction_base_assert :: "epoch_t \<Rightarrow> bool" where
  "transaction_base_assert in_version \<longleftrightarrow> in_version \<noteq> off_state \<and> \<not> locked in_version"

definition transaction :: "nat \<Rightarrow> epoch_t \<Rightarrow> transaction_base" where
  "transaction in_tls_td in_version = \<lparr> tls_td = Some in_tls_td, version = in_version \<rparr>"

definition read_transaction :: "epoch_t \<Rightarrow> transaction_base" where
  "read_transaction in_version = \<lparr> tls_td = None, version = in_version \<rparr>"

definition nested_read_transaction :: "nat \<Rightarrow> epoch_t \<Rightarrow> transaction_base" where
  "nested_read_transaction in_tls_td in_version = \<lparr> tls_td = Some in_tls_td, version = in_version \<rparr>"

definition can_write :: "transaction_base \<Rightarrow> bool" where
  "can_write tx \<longleftrightarrow> tls_td tx \<noteq> None"

definition can_demote_safely :: "'c thread_data \<Rightarrow> bool" where
  "can_demote_safely td \<longleftrightarrow> hs_empty (write_set td)"

definition unsafe_unchecked_demote :: "transaction_base \<Rightarrow> transaction_base" where
  "unsafe_unchecked_demote tx = read_transaction (version tx)"

definition unsafe_checked_demote :: "transaction_base \<Rightarrow> 'c thread_data \<Rightarrow> transaction_base" where
  "unsafe_checked_demote tx td =
     (if can_demote_safely td then read_transaction (version tx)
      else nested_read_transaction (the (tls_td tx)) (version tx))"

fun tx_valid :: "transaction_base \<Rightarrow> (nat \<times> 'c thread_data) option \<Rightarrow> bool" where
  "tx_valid tx None \<longleftrightarrow> tls_td tx = None"
| "tx_valid tx (Some (i, td)) \<longleftrightarrow>
     ((tls_td tx = None \<and> tx_state td \<noteq> Read_write)
      \<or> ((Some i = tls_td tx \<and> tx_state td \<noteq> Read_only) \<or> hs_empty (write_set td)))
     \<and> td_epoch td = version tx \<and> in_transaction td"

definition rw_valid :: "transaction_base \<Rightarrow> epoch_t \<Rightarrow> bool" where
  "rw_valid tx v \<longleftrightarrow> v \<le> version tx"

definition rw_valid_var :: "transaction_base \<Rightarrow> var_base \<Rightarrow> bool" where
  "rw_valid_var tx v \<longleftrightarrow> rw_valid tx (version_lock v)"

section \<open>Tracked reads\<close>

definition rw_read_slow_path ::
    "transaction_base \<Rightarrow> 'v shared \<Rightarrow> var_ref \<Rightarrow> 'c thread_data \<Rightarrow> (cxx_error + var_storage) \<times> 'c thread_data" where
  "rw_read_slow_path tx sh src_var td =
     (let iter = hs_find (write_set td) src_var in
      if iter = hs_end (write_set td) then
        let result = storage (vars sh src_var) in
        if rw_valid tx (version_lock (vars sh src_var))
        then (Inr result, td\<lparr> read_set := emplace_back src_var (read_set td) \<rparr>)
        else (Inl Tx_retry, td)
      else if rw_valid_var tx (vars sh src_var) then (Inr (hs_pending_at (write_set td) iter), td)
      else (Inl Tx_retry, td))"

definition rw_read_base ::
    "transaction_base \<Rightarrow> 'v shared \<Rightarrow> var_ref \<Rightarrow> 'c thread_data \<Rightarrow> (cxx_error + var_storage) \<times> 'c thread_data" where
  "rw_read_base tx sh src_var td =
     (if \<not> pv_allocates_on_next_push (read_set td) \<and> hs_filter (write_set td) AND var_hash src_var = 0 then
        let result = storage (vars sh src_var) in
        if rw_valid tx (version_lock (vars sh src_var))
        then (Inr result, td\<lparr> read_set := unchecked_emplace_back src_var (read_set td) \<rparr>)
        else rw_read_slow_path tx sh src_var td
      else rw_read_slow_path tx sh src_var td)"

section \<open>Untracked reads\<close>

definition rw_untracked_read_slow_path ::
    "transaction_base \<Rightarrow> 'v shared \<Rightarrow> var_ref \<Rightarrow> 'c thread_data \<Rightarrow> cxx_error + var_storage" where
  "rw_untracked_read_slow_path tx sh src_var td =
     (let iter = hs_find (write_set td) src_var in
      if iter = hs_end (write_set td) then
        let result = storage (vars sh src_var) in
        if rw_valid tx (version_lock (vars sh src_var)) then Inr result else Inl Tx_retry
      else if rw_valid_var tx (vars sh src_var) then Inr (hs_pending_at (write_set td) iter)
      else Inl Tx_retry)"

definition rw_untracked_read_base ::
    "transaction_base \<Rightarrow> 'v shared \<Rightarrow> var_ref \<Rightarrow> 'c thread_data \<Rightarrow> cxx_error + var_storage" where
  "rw_untracked_read_base tx sh src_var td =
     (if hs_filter (write_set td) AND var_hash src_var = 0 then
        let result = storage (vars sh src_var) in
        if rw_valid tx (version_lock (vars sh src_var)) then Inr result
        else rw_untracked_read_slow_path tx sh src_var td
      else rw_untracked_read_slow_path tx sh src_var td)"

section \<open>Reads of a read transaction\<close>

definition ro_read_slow_path ::
    "transaction_base \<Rightarrow> 'v shared \<Rightarrow> var_ref \<Rightarrow> 'c thread_data \<Rightarrow> (cxx_error + var_storage) \<times> 'c thread_data" where
  "ro_read_slow_path tx sh src_var td =
     (if can_write tx then rw_read_base tx sh src_var td else (Inl Tx_retry, td))"

definition ro_read_base ::
    "transaction_base \<Rightarrow> 'v shared \<Rightarrow> var_ref \<Rightarrow> 'c thread_data \<Rightarrow> (cxx_error + var_storage) \<times> 'c thread_data" where
  "ro_read_base tx sh src_var td =
     (if \<not> can_write tx then
        let result = storage (vars sh src_var) in
        if rw_valid tx (version_lock (vars sh src_var)) then (Inr result, td)
        else ro_read_slow_path tx sh src_var td
      else ro_read_slow_path tx sh src_var td)"

definition ro_untracked_read_slow_path ::
    "transaction_base \<Rightarrow> 'v shared \<Rightarrow> var_ref \<Rightarrow> 'c thread_data \<Rightarrow> cxx_error + var_storage" where
  "ro_untracked_read_slow_path tx sh src_var td =
     (if can_write tx then rw_untracked_read_base tx sh src_var td else Inl Tx_retry)"

definition ro_untracked_read_base ::
    "transaction_base \<Rightarrow> 'v shared \<Rightarrow> var_ref \<Rightarrow> 'c thread_data \<Rightarrow> cxx_error + var_storage" where
  "ro_untracked_read_base tx sh src_var td =
     (if \<not> can_write tx then
        let result = storage (vars sh src_var) in
        if rw_valid tx (version_lock (vars sh src_var)) then Inr result
        else ro_untracked_read_slow_path tx sh src_var td
      else ro_untracked_read_slow_path tx sh src_var td)"

section \<open>Writes\<close>

text \<open>
  \<open>var<T, Alloc>\<close> derives from the allocator wrapper and from \<open>var_base\<close>. The layout gives the
  alignment of the class and the offset of its \<open>var_base\<close>: 0 for an empty allocator, 16 for an
  allocator that holds state. References to a variable in the write set are to the \<open>var_base\<close>.
\<close>

record var_layout =
  vl_alignof :: hash_t
  vl_base_offset :: uword

definition empty_alloc_layout :: var_layout where
  "empty_alloc_layout = \<lparr> vl_alignof = alignof_var_base, vl_base_offset = 0 \<rparr>"

definition stateful_alloc_layout :: var_layout where
  "stateful_alloc_layout = \<lparr> vl_alignof = alignof_var_base, vl_base_offset = 16 \<rparr>"

text \<open>\<open>dumb_reference_hash(dest_var)\<close> with \<open>dest_var\<close> of type \<open>var<T, Alloc>&\<close>.\<close>

definition var_object_hash :: "var_layout \<Rightarrow> var_ref \<Rightarrow> hash_t" where
  "var_object_hash l dst = dumb_reference_hash (vl_alignof l) (dst - vl_base_offset l)"

definition rw_write_slow_path ::
    "transaction_base \<Rightarrow> var_ref \<Rightarrow> 'v option \<Rightarrow> 'v shared \<Rightarrow> 'c thread_data
     \<Rightarrow> (cxx_error + unit) \<times> 'v shared \<times> 'c thread_data" where
  "rw_write_slow_path tx dst u sh td =
     (let lookup = hs_lookup (write_set td) dst in
      if \<not> lookup_success lookup then
        let cur_storage = storage (vars sh dst) in
        if rw_valid tx (version_lock (vars sh dst)) then
          (case allocate_construct u (heap sh) of
             (Inl e, m) \<Rightarrow> (Inl e, sh\<lparr> heap := m \<rparr>, td)
           | (Inr new_storage, m) \<Rightarrow>
               (let td1 = add_write_set dst new_storage (wl_hash lookup) td;
                    td2 = td_sometime_synchronized_after (Destroy_Deallocate cur_storage) td1;
                    td3 = td_after_fail (Destroy_Deallocate new_storage) td2
                in (Inr (), sh\<lparr> heap := m \<rparr>, td3)))
        else (Inl Tx_retry, sh, td)
      else if rw_valid_var tx (vars sh dst) then
        (case u of
           None \<Rightarrow> (Inl Ctor_exception, sh, td)
         | Some x \<Rightarrow>
             (case var_store (hs_pending_at (write_set td) (the (wl_pending_write lookup))) x (heap sh) of
                None \<Rightarrow> (Inl Undefined_behaviour, sh, td)
              | Some m \<Rightarrow> (Inr (), sh\<lparr> heap := m \<rparr>, td)))
      else (Inl Tx_retry, sh, td))"

definition rw_write ::
    "var_layout \<Rightarrow> transaction_base \<Rightarrow> var_ref \<Rightarrow> 'v option \<Rightarrow> 'v shared \<Rightarrow> 'c thread_data
     \<Rightarrow> (cxx_error + unit) \<times> 'v shared \<times> 'c thread_data" where
  "rw_write layout tx dst u sh td =
     (let h = var_object_hash layout dst in
      if hs_allocates_on_next_push (write_set td)
         \<or> hs_filter (write_set td) AND h \<noteq> 0
         \<or> pv_allocates_on_next_push (fail_callbacks td)
         \<or> qb_allocates_on_next_push (succ_callbacks td)
         \<or> \<not> rw_valid_var tx (vars sh dst)
      then rw_write_slow_path tx dst u sh td
      else
        (case allocate_construct u (heap sh) of
           (Inl e, m) \<Rightarrow> (Inl e, sh\<lparr> heap := m \<rparr>, td)
         | (Inr new_storage, m) \<Rightarrow>
             (let td1 = add_write_set_unchecked dst new_storage h td;
                  cur_storage = storage (vars sh dst);
                  td2 = td1\<lparr> fail_callbacks := unchecked_emplace_back (Destroy_Deallocate new_storage) (fail_callbacks td1) \<rparr>;
                  td3 = td2\<lparr> succ_callbacks := qb_unchecked_emplace_back (Destroy_Deallocate cur_storage) (succ_callbacks td2) \<rparr>
              in (Inr (), sh\<lparr> heap := m \<rparr>, td3))))"

definition rw_atomic_write_slow_path ::
    "transaction_base \<Rightarrow> 'v shared \<Rightarrow> var_ref \<Rightarrow> var_storage \<Rightarrow> 'c thread_data \<Rightarrow> (cxx_error + unit) \<times> 'c thread_data" where
  "rw_atomic_write_slow_path tx sh dst s td =
     (let lookup = hs_lookup (write_set td) dst;
          td1 = (if \<not> lookup_success lookup then add_write_set dst s (wl_hash lookup) td
                 else td\<lparr> write_set := hs_set_pending (the (wl_pending_write lookup)) s (write_set td) \<rparr>)
      in if \<not> rw_valid_var tx (vars sh dst) then (Inl Tx_retry, td1) else (Inr (), td1))"

definition rw_atomic_write_base ::
    "transaction_base \<Rightarrow> 'v shared \<Rightarrow> var_ref \<Rightarrow> var_storage \<Rightarrow> 'c thread_data \<Rightarrow> (cxx_error + unit) \<times> 'c thread_data" where
  "rw_atomic_write_base tx sh dst s td =
     (let h = var_hash dst in
      if hs_allocates_on_next_push (write_set td) \<or> hs_filter (write_set td) AND h \<noteq> 0
         \<or> \<not> rw_valid_var tx (vars sh dst)
      then rw_atomic_write_slow_path tx sh dst s td
      else (Inr (), add_write_set_unchecked dst s h td))"

section \<open>The accessors of a variable\<close>

text \<open>\<open>get\<close> and \<open>untracked_get\<close> of a heap variable load the object the storage points to.\<close>

definition load_result :: "'v shared \<Rightarrow> cxx_error + var_storage \<Rightarrow> cxx_error + 'v" where
  "load_result sh r =
     (case r of Inl e \<Rightarrow> Inl e
      | Inr s \<Rightarrow> (case var_load s (heap sh) of None \<Rightarrow> Inl Undefined_behaviour | Some x \<Rightarrow> Inr x))"

definition rw_read :: "transaction_base \<Rightarrow> 'v shared \<Rightarrow> var_ref \<Rightarrow> 'c thread_data \<Rightarrow> (cxx_error + 'v) \<times> 'c thread_data" where
  "rw_read tx sh v td = (let (r, td') = rw_read_base tx sh v td in (load_result sh r, td'))"

definition rw_untracked_read :: "transaction_base \<Rightarrow> 'v shared \<Rightarrow> var_ref \<Rightarrow> 'c thread_data \<Rightarrow> cxx_error + 'v" where
  "rw_untracked_read tx sh v td = load_result sh (rw_untracked_read_base tx sh v td)"

definition ro_read :: "transaction_base \<Rightarrow> 'v shared \<Rightarrow> var_ref \<Rightarrow> 'c thread_data \<Rightarrow> (cxx_error + 'v) \<times> 'c thread_data" where
  "ro_read tx sh v td = (let (r, td') = ro_read_base tx sh v td in (load_result sh r, td'))"

definition ro_untracked_read :: "transaction_base \<Rightarrow> 'v shared \<Rightarrow> var_ref \<Rightarrow> 'c thread_data \<Rightarrow> cxx_error + 'v" where
  "ro_untracked_read tx sh v td = load_result sh (ro_untracked_read_base tx sh v td)"

text \<open>The same for an atomic variable.\<close>

definition rw_read_atomic :: "transaction_base \<Rightarrow> 'v shared \<Rightarrow> var_ref \<Rightarrow> 'c thread_data \<Rightarrow> (cxx_error + uword) \<times> 'c thread_data" where
  "rw_read_atomic tx sh v td = (let (r, td') = rw_read_base tx sh v td in (map_sum id atomic_load r, td'))"

definition rw_write_atomic ::
    "transaction_base \<Rightarrow> 'v shared \<Rightarrow> var_ref \<Rightarrow> uword \<Rightarrow> 'c thread_data \<Rightarrow> (cxx_error + unit) \<times> 'c thread_data" where
  "rw_write_atomic tx sh v u td = rw_atomic_write_base tx sh v (atomic_allocate_construct u) td"

section \<open>Fast paths compute what slow paths compute\<close>

lemma rw_read_base_eq:
  "td_rep td cs w \<Longrightarrow> rw_read_base tx sh v td = rw_read_slow_path tx sh v td"
  by (auto simp: rw_read_base_def rw_read_slow_path_def Let_def td_rep_def hs_find_found
      dest: filter_miss simp: unchecked_emplace_back_eq unchecked_emplace_back_assert_def)

lemma rw_untracked_read_base_eq:
  "td_rep td cs w \<Longrightarrow> rw_untracked_read_base tx sh v td = rw_untracked_read_slow_path tx sh v td"
  by (auto simp: rw_untracked_read_base_def rw_untracked_read_slow_path_def Let_def td_rep_def
      hs_find_found dest: filter_miss)

text \<open>A tracked read, by what the write set holds for the address.\<close>

lemma rw_read_base_view:
  assumes "td_rep td cs w"
  shows "rw_read_base tx sh v td =
    (if version_lock (vars sh v) \<le> version tx then
       (case hs_view (write_set td) v of
          None \<Rightarrow> (Inr (storage (vars sh v)), td\<lparr> read_set := emplace_back v (read_set td) \<rparr>)
        | Some s \<Rightarrow> (Inr s, td))
     else (Inl Tx_retry, td))"
proof -
  have inv: "hs_inv (write_set td)" using assms by (simp add: td_rep_def)
  show ?thesis
    using ws.find_view [OF inv, of v] hs_find_found [OF inv, of v] hs_view_None_iff [of "write_set td" v]
    by (auto simp: rw_read_base_eq [OF assms] rw_read_slow_path_def Let_def rw_valid_var_def rw_valid_def
        hs_pending_def split: option.splits)
qed

lemma rw_untracked_read_base_view:
  assumes "td_rep td cs w"
  shows "rw_untracked_read_base tx sh v td =
    (if version_lock (vars sh v) \<le> version tx then
       Inr (case hs_view (write_set td) v of None \<Rightarrow> storage (vars sh v) | Some s \<Rightarrow> s)
     else Inl Tx_retry)"
proof -
  have inv: "hs_inv (write_set td)" using assms by (simp add: td_rep_def)
  show ?thesis
    using ws.find_view [OF inv, of v] hs_find_found [OF inv, of v] hs_view_None_iff [of "write_set td" v]
    by (auto simp: rw_untracked_read_base_eq [OF assms] rw_untracked_read_slow_path_def Let_def
        rw_valid_var_def rw_valid_def hs_pending_def split: option.splits)
qed

lemma ro_read_base_null:
  "\<not> can_write tx \<Longrightarrow> ro_read_base tx sh v td =
    (if version_lock (vars sh v) \<le> version tx then (Inr (storage (vars sh v)), td) else (Inl Tx_retry, td))"
  by (simp add: ro_read_base_def ro_read_slow_path_def Let_def rw_valid_def)

lemma ro_read_base_nested: "can_write tx \<Longrightarrow> ro_read_base tx sh v td = rw_read_base tx sh v td"
  by (simp add: ro_read_base_def ro_read_slow_path_def)

section \<open>What a write does\<close>

lemma empty_alloc_hash [simp]: "var_object_hash empty_alloc_layout v = var_hash v"
  by (simp add: var_object_hash_def empty_alloc_layout_def)

lemma rw_write_eq:
  assumes "td_rep td cs w" and "var_object_hash l dst = var_hash dst"
  shows "rw_write l tx dst u sh td = rw_write_slow_path tx dst u sh td"
proof -
  have inv: "hs_inv (write_set td)" "pv_inv (fail_callbacks td)" "qb_rep (succ_callbacks td) cs w"
    using assms(1) by (simp_all add: td_rep_def)
  show ?thesis
  proof (cases "hs_allocates_on_next_push (write_set td) \<or> hs_filter (write_set td) AND var_hash dst \<noteq> 0
      \<or> pv_allocates_on_next_push (fail_callbacks td) \<or> qb_allocates_on_next_push (succ_callbacks td)
      \<or> \<not> rw_valid_var tx (vars sh dst)")
    case True
    then show ?thesis by (simp add: rw_write_def assms(2))
  next
    case False
    then have miss: "dst \<notin> set (hs_dests (write_set td))" using filter_miss inv(1) by blast
    show ?thesis
      using False inv
      by (auto simp: rw_write_def rw_write_slow_path_def assms(2) Let_def rw_valid_var_def miss ws_simps
          add_write_set_unchecked_def add_write_set_def td_after_fail_def td_sometime_synchronized_after_def
          hs_unchecked_push_back_eq unchecked_emplace_back_eq unchecked_emplace_back_assert_def
          qb_unchecked_emplace_back_eq split: prod.splits sum.splits)
  qed
qed

lemma rw_atomic_write_base_eq:
  assumes "td_rep td cs w"
  shows "rw_atomic_write_base tx sh dst s td = rw_atomic_write_slow_path tx sh dst s td"
proof -
  have inv: "hs_inv (write_set td)" using assms by (simp add: td_rep_def)
  show ?thesis
  proof (cases "hs_filter (write_set td) AND var_hash dst = 0")
    case True
    then show ?thesis
      using filter_miss [OF inv True] inv
      by (auto simp: rw_atomic_write_base_def rw_atomic_write_slow_path_def Let_def ws_simps
          add_write_set_unchecked_def add_write_set_def hs_unchecked_push_back_eq)
  qed (simp add: rw_atomic_write_base_def)
qed

text \<open>An atomic write, successful or not, leaves the written value in the write set.\<close>

lemma rw_atomic_write_base_view:
  assumes "td_rep td cs w" and "rw_atomic_write_base tx sh dst s td = (r, td')"
  shows "td_rep td' cs w" "hs_view (write_set td') = (hs_view (write_set td))(dst \<mapsto> s)"
    "r = (if version_lock (vars sh dst) \<le> version tx then Inr () else Inl Tx_retry)"
    "td' = td\<lparr> write_set := write_set td' \<rparr>"
proof -
  let ?ws = "write_set td"
  have inv: "hs_inv ?ws" using assms by (simp add: td_rep_def)
  let ?ws' = "if hs_pending ?ws dst = None then hs_add_looked_up dst s ?ws else hs_overwrite_looked_up dst s ?ws"
  have td': "td' = td\<lparr> write_set := ?ws' \<rparr>"
    using assms(2) inv ws.find_view [OF inv, of dst] hs_view_None_iff [of ?ws dst]
    by (auto simp: rw_atomic_write_base_eq [OF assms(1)] rw_atomic_write_slow_path_def Let_def ws_simps
        add_write_set_def hs_add_looked_up_def hs_overwrite_looked_up_def split: if_splits)
  show "r = (if version_lock (vars sh dst) \<le> version tx then Inr () else Inl Tx_retry)"
    using assms(2) by (auto simp: rw_atomic_write_base_eq [OF assms(1)] rw_atomic_write_slow_path_def Let_def
        rw_valid_var_def rw_valid_def split: if_splits)
  have w: "write_set td' = ?ws'" using td' by simp
  show "hs_view (write_set td') = (hs_view ?ws)(dst \<mapsto> s)"
    unfolding w by (rule ws.write_refines(2) [OF inv])
  have "hs_inv (write_set td')"
    unfolding w by (rule ws.write_refines(1) [OF inv])
  then show "td_rep td' cs w"
    using assms(1) by (simp add: td_rep_def) (simp add: td')
  show "td' = td\<lparr> write_set := write_set td' \<rparr>"
    unfolding w by (rule td')
qed

text \<open>
  A heap write of an address that is not in the write set yet: a new object, one entry, and the
  callbacks of both outcomes.
\<close>

lemma rw_write_first:
  assumes "td_rep td cs w" and "var_object_hash l dst = var_hash dst" and "qb_room (succ_callbacks td)"
    and "hs_view (write_set td) dst = None" and "version_lock (vars sh dst) \<le> version tx"
    and "mem_inv (heap sh)" and "mem_free (heap sh) = p # ps"
  obtains td' where
    "rw_write l tx dst (Some x) sh td =
       (Inr (), sh\<lparr> heap := (heap sh)\<lparr> mem_blocks := (mem_blocks (heap sh))(p := Some (Object x)), mem_free := ps \<rparr> \<rparr>, td')"
    and "td_rep td' cs (w @ [Destroy_Deallocate (storage (vars sh dst))])"
    and "hs_view (write_set td') = (hs_view (write_set td))(dst \<mapsto> p)"
    and "pv_items (fail_callbacks td') = pv_items (fail_callbacks td) @ [Destroy_Deallocate p]"
    and "pv_items (read_set td') = pv_items (read_set td)"
    and "tx_state td' = tx_state td" and "synchronization_node td' = synchronization_node td"
proof -
  let ?td1 = "add_write_set dst p (var_hash dst) td"
  let ?td2 = "td_sometime_synchronized_after (Destroy_Deallocate (storage (vars sh dst))) ?td1"
  let ?td' = "td_after_fail (Destroy_Deallocate p) ?td2"
  have inv: "hs_inv (write_set td)" using assms(1) by (simp add: td_rep_def)
  have new: "dst \<notin> set (hs_dests (write_set td))" using assms(4) hs_view_None_iff by blast
  have "rw_write l tx dst (Some x) sh td =
     (Inr (), sh\<lparr> heap := (heap sh)\<lparr> mem_blocks := (mem_blocks (heap sh))(p := Some (Object x)), mem_free := ps \<rparr> \<rparr>, ?td')"
    using allocate_construct_ok [OF assms(6,7), of x] assms(5) inv new
    by (simp add: rw_write_eq [OF assms(1,2)] rw_write_slow_path_def Let_def rw_valid_def ws_simps)
  moreover have "td_rep ?td' cs (w @ [Destroy_Deallocate (storage (vars sh dst))])"
    using assms(1,3) hs_push_back_inv [OF inv new] emplace_back_inv
    by (auto simp: td_rep_def add_write_set_def td_sometime_synchronized_after_def td_after_fail_def
        intro: qb.rep_push)
  moreover have "hs_view (write_set ?td') = (hs_view (write_set td))(dst \<mapsto> p)"
    using new by (simp add: add_write_set_def td_sometime_synchronized_after_def td_after_fail_def ws_simps)
  ultimately show thesis
    by (rule that) (simp_all add: add_write_set_def td_sometime_synchronized_after_def td_after_fail_def vec_simps)
qed

text \<open>A second heap write assigns to the object the first one made.\<close>

lemma rw_write_again:
  assumes "td_rep td cs w" and "var_object_hash l dst = var_hash dst"
    and "hs_view (write_set td) dst = Some p" and "version_lock (vars sh dst) \<le> version tx"
    and "mem_blocks (heap sh) p = Some (Object y)"
  shows "rw_write l tx dst (Some x) sh td =
    (Inr (), sh\<lparr> heap := (heap sh)\<lparr> mem_blocks := (mem_blocks (heap sh))(p := Some (Object x)) \<rparr> \<rparr>, td)"
proof -
  have inv: "hs_inv (write_set td)" using assms(1) by (simp add: td_rep_def)
  have mem: "dst \<in> set (hs_dests (write_set td))"
    using assms(3) hs_view_None_iff [of "write_set td" dst] by auto
  have "hs_pending_at (write_set td) (hs_find (write_set td) dst) = p"
    using ws.find_view [OF inv, of dst] assms(3) hs_find_found [OF inv, of dst] mem
    by (simp add: hs_pending_def Let_def)
  then show ?thesis
    using inv mem assms(4,5)
    by (simp add: rw_write_eq [OF assms(1,2)] rw_write_slow_path_def Let_def rw_valid_var_def rw_valid_def
        ws_simps hs_lookup_eq lookup_of_pending_def var_store_def mem_assign_def lookup_success_def)
qed

lemma rw_write_invalid:
  assumes "td_rep td cs w" and "var_object_hash l dst = var_hash dst" and "version tx < version_lock (vars sh dst)"
  shows "rw_write l tx dst u sh td = (Inl Tx_retry, sh, td)"
  using assms(3) by (auto simp: rw_write_eq [OF assms(1,2)] rw_write_slow_path_def Let_def rw_valid_var_def rw_valid_def)

section \<open>Properties\<close>

text \<open>C19: A tracked read returns the transaction's own pending write if there is one, else the value in
  the variable, which it then records in the read set; and it retries exactly when the variable is
  locked or newer than the transaction. The Bloom filter and the capacities do not change that.\<close>

theorem rw_read_base_correct:
  assumes "td_rep td cs w"
  shows "rw_read_base tx sh v td =
    (if version_lock (vars sh v) \<le> version tx then
       (case hs_view (write_set td) v of
          None \<Rightarrow> (Inr (storage (vars sh v)), td\<lparr> read_set := emplace_back v (read_set td) \<rparr>)
        | Some s \<Rightarrow> (Inr s, td))
     else (Inl Tx_retry, td))"
  by (rule rw_read_base_view [OF assms])

definition quiet_shared :: "nat shared" where
  "quiet_shared = \<lparr> vars = (\<lambda>_. \<lparr> version_lock = 0, storage = 7 \<rparr>),
     heap = \<lparr> mem_blocks = (\<lambda>_. None)(7 := Some (Object 1)), mem_free = [64, 128] \<rparr>, domain = new_domain \<rparr>"

theorem rw_read_base_correct_witness:
  "fst (rw_read_base (transaction 0 3) quiet_shared 32 (new_thread_data :: char thread_data)) = Inr 7"
  using rw_read_base_correct [OF new_thread_data_rep [where 'a = char], of "transaction 0 3" quiet_shared 32]
  by (simp add: quiet_shared_def transaction_def new_thread_data_def hs_new_refines)

text \<open>C23: When the hash of the variable object is the hash of its \<open>var_base\<close>, the fast path of a write
  does exactly what the slow path does, callbacks and their order within each list included.\<close>

theorem rw_write_fast_path_is_slow_path:
  assumes "td_rep td cs w" and "var_object_hash l dst = var_hash dst"
  shows "rw_write l tx dst u sh td = rw_write_slow_path tx dst u sh td"
  by (rule rw_write_eq [OF assms])

theorem rw_write_fast_path_is_slow_path_witness:
  "rw_write empty_alloc_layout (transaction 0 3) 32 (Some 2) quiet_shared (new_thread_data :: char thread_data)
   = rw_write_slow_path (transaction 0 3) 32 (Some 2) quiet_shared new_thread_data"
  by (rule rw_write_fast_path_is_slow_path [OF new_thread_data_rep empty_alloc_hash])

text \<open>C24: An allocator that holds state moves the \<open>var_base\<close> away from the start of the variable
  object. Then the write puts the hash of another address in the filter, and the next read of the
  same variable in the same transaction misses the pending write and returns the old value.\<close>

theorem stateful_alloc_read_own_write_lost:
  assumes "td_rep td cs w" and "hs_view (write_set td) = Map.empty" and "hs_filter (write_set td) = 0"
    and "var_object_hash l dst AND var_hash dst = 0" and "version_lock (vars sh dst) \<le> version tx"
    and "mem_inv (heap sh)" and "mem_free (heap sh) = p # ps"
    and "\<not> hs_allocates_on_next_push (write_set td)" and "\<not> pv_allocates_on_next_push (fail_callbacks td)"
    and "\<not> qb_allocates_on_next_push (succ_callbacks td)"
  shows "\<exists>sh' td'. rw_write l tx dst (Some x) sh td = (Inr (), sh', td')
    \<and> var_load p (heap sh') = Some x \<and> hs_dests (write_set td') = [dst]
    \<and> rw_untracked_read_base tx sh' dst td' = Inr (storage (vars sh dst))"
proof -
  let ?h = "var_object_hash l dst"
  let ?m = "(heap sh)\<lparr> mem_blocks := (mem_blocks (heap sh))(p := Some (Object x)), mem_free := ps \<rparr>"
  let ?sh = "sh\<lparr> heap := ?m \<rparr>"
  let ?td1 = "add_write_set_unchecked dst p ?h td"
  let ?td2 = "?td1\<lparr> fail_callbacks := unchecked_emplace_back (Destroy_Deallocate p) (fail_callbacks ?td1) \<rparr>"
  let ?td3 = "?td2\<lparr> succ_callbacks := qb_unchecked_emplace_back (Destroy_Deallocate (storage (vars sh dst))) (succ_callbacks ?td2) \<rparr>"
  have inv: "hs_inv (write_set td)" using assms(1) by (simp add: td_rep_def)
  have run: "rw_write l tx dst (Some x) sh td = (Inr (), ?sh, ?td3)"
    using allocate_construct_ok [OF assms(6,7), of x] assms(3,5,8,9,10)
    by (simp add: rw_write_def Let_def rw_valid_var_def rw_valid_def)
  have empty: "hs_dests (write_set td) = []"
    using assms(2) dom_hs_view [of "write_set td"] by simp
  have "hs_dests (write_set ?td3) = [dst]"
    using hs_unchecked_push_back_eq [OF inv assms(8)] empty
    by (simp add: add_write_set_unchecked_def ws_simps)
  moreover have "hs_filter (write_set ?td3) = ?h"
    using assms(3) by (simp add: add_write_set_unchecked_def hs_unchecked_push_back_def)
  ultimately show ?thesis
    using run assms(4,5)
    by (simp add: rw_untracked_read_base_def Let_def rw_valid_def var_load_def mem_load_def)
qed

theorem stateful_alloc_read_own_write_lost_witness:
  "\<exists>sh' td'. rw_write stateful_alloc_layout (transaction 0 3) 32 (Some 2) quiet_shared (new_thread_data :: char thread_data)
     = (Inr (), sh', td') \<and> rw_untracked_read_base (transaction 0 3) sh' 32 td' = Inr 7"
proof -
  let ?td = "new_thread_data :: char thread_data"
  have td: "write_set ?td = hs_new" "fail_callbacks ?td = pv_new" "succ_callbacks ?td = qb_new"
    by (simp_all add: new_thread_data_def)
  have q: "\<not> qb_allocates_on_next_push (qb_new :: char gp_callback quiescence_buffer)"
    by (simp add: qb_allocates_on_next_push_def qb_new_def qb_wrap_def qb_capacity_def ReclaimLimit_def)
  have p: "\<not> pv_allocates_on_next_push (pv_new :: 'z pod_vector)"
    by (simp add: pv_allocates_on_next_push_def pv_new_def start_size_def)
  have h: "var_object_hash stateful_alloc_layout 32 AND var_hash 32 = 0"
    by (simp add: var_object_hash_def stateful_alloc_layout_def dumb_reference_hash_def calcShift_var_base drop_bit_eq_div)
  have m: "mem_inv (heap quiet_shared)" "mem_free (heap quiet_shared) = 64 # [128]"
    by (simp_all add: mem_inv_def quiet_shared_def)
  have v: "version_lock (vars quiet_shared 32) \<le> version (transaction 0 3)" "storage (vars quiet_shared 32) = 7"
    by (simp_all add: quiet_shared_def transaction_def)
  show ?thesis
    using stateful_alloc_read_own_write_lost [OF new_thread_data_rep [where 'a = char] _ _ h v(1) m, of 2] v(2)
    unfolding td by (auto simp: hs_new_refines q p hs_allocates_on_next_push_def) (auto simp: hs_new_def p)
qed

end
