(* ===== verification/Commit_Algorithm.thy ===== *)
theory Commit_Algorithm
  imports Transaction_Base
begin

text \<open>
  The commit of a writing transaction: \<^verbatim>\<open>detail/commit_algorithm.hpp\<close>, as the committing thread
  runs it on a shared state that nobody else changes meanwhile. Locks that other threads hold are
  part of that state, so every failure branch is reached.

  \<open>try_commit_eq\<close> says what the whole algorithm does: either every variable of the write set is
  unlocked and not newer than the transaction and so is every other variable read, and then the
  pending values are installed under one new version; or nothing shared has changed.
\<close>

section \<open>Operations\<close>

definition set_version :: "var_ref \<Rightarrow> epoch_t \<Rightarrow> 'v shared \<Rightarrow> 'v shared" where
  "set_version v n sh = sh\<lparr> vars := (vars sh)(v := (vars sh v)\<lparr> version_lock := n \<rparr>) \<rparr>"

definition set_storage :: "var_ref \<Rightarrow> var_storage \<Rightarrow> 'v shared \<Rightarrow> 'v shared" where
  "set_storage v s sh = sh\<lparr> vars := (vars sh)(v := (vars sh v)\<lparr> storage := s \<rparr>) \<rparr>"

definition compare_exchange_version :: "var_ref \<Rightarrow> epoch_t \<Rightarrow> epoch_t \<Rightarrow> 'v shared \<Rightarrow> bool \<times> 'v shared" where
  "compare_exchange_version v expected desired sh =
     (if version_lock (vars sh v) = expected then (True, set_version v desired sh) else (False, sh))"

definition lock :: "transaction_base \<Rightarrow> var_ref \<Rightarrow> 'v shared \<Rightarrow> bool \<times> 'v shared" where
  "lock tx v sh =
     (let version_buf = version_lock (vars sh v)
      in if rw_valid tx version_buf then compare_exchange_version v version_buf (as_locked version_buf) sh
         else (False, sh))"

definition unlock_as_version_assert :: "var_ref \<Rightarrow> epoch_t \<Rightarrow> 'v shared \<Rightarrow> bool" where
  "unlock_as_version_assert v version_to_set sh \<longleftrightarrow> locked (version_lock (vars sh v)) \<and> \<not> locked version_to_set"

definition unlock_as_version :: "var_ref \<Rightarrow> epoch_t \<Rightarrow> 'v shared \<Rightarrow> 'v shared" where
  "unlock_as_version v version_to_set sh = set_version v version_to_set sh"

definition unlock :: "var_ref \<Rightarrow> 'v shared \<Rightarrow> 'v shared" where
  "unlock v sh = unlock_as_version v (version_lock (vars sh v) XOR lock_bit) sh"

text \<open>\<open>iter->dest_var()\<close>; iterators of the write set are offsets.\<close>

definition hs_dest_at :: "pod_hash_set \<Rightarrow> nat \<Rightarrow> var_ref" where
  "hs_dest_at w iter = dest_var (the (pv_deref (hs_data w) iter))"

definition unlock_write_set :: "pod_hash_set \<Rightarrow> nat \<Rightarrow> nat \<Rightarrow> 'v shared \<Rightarrow> 'v shared" where
  "unlock_write_set w first last_it sh = fold (\<lambda>iter. unlock (hs_dest_at w iter)) [first..<last_it] sh"

text \<open>The loop of \<open>remove_writes_from_reads\<close>, from the end of the read set down to its begin.\<close>

fun remove_writes_from :: "nat \<Rightarrow> 'c thread_data \<Rightarrow> 'c thread_data" where
  "remove_writes_from 0 td = td"
| "remove_writes_from (Suc read_iter) td =
     (if hs_end (write_set td) \<noteq> hs_find (write_set td) (the (pv_deref (read_set td) read_iter))
      then remove_writes_from read_iter (td\<lparr> read_set := unordered_erase read_iter (read_set td) \<rparr>)
      else remove_writes_from read_iter td)"

definition remove_writes_from_reads :: "'c thread_data \<Rightarrow> 'c thread_data" where
  "remove_writes_from_reads td = remove_writes_from (pv_end (read_set td)) td"

text \<open>The loop of \<open>lock_writes\<close>, from the iterator \<open>write_iter\<close>.\<close>

function lock_writes_from :: "transaction_base \<Rightarrow> pod_hash_set \<Rightarrow> nat \<Rightarrow> 'v shared \<Rightarrow> bool \<times> 'v shared" where
  "lock_writes_from tx w write_iter sh =
     (if write_iter < hs_end w then
        let (ok, sh') = lock tx (hs_dest_at w write_iter) sh in
        if \<not> ok then (False, unlock_write_set w (hs_begin w) write_iter sh')
        else lock_writes_from tx w (Suc write_iter) sh'
      else (True, sh))"
  by pat_completeness auto
termination
  by (relation "measure (\<lambda>(tx, w, i, sh). hs_end w - i)") auto

declare lock_writes_from.simps [simp del]

definition lock_writes :: "transaction_base \<Rightarrow> 'c thread_data \<Rightarrow> 'v shared \<Rightarrow> bool \<times> 'v shared" where
  "lock_writes tx td sh = lock_writes_from tx (write_set td) (hs_begin (write_set td)) sh"

definition validate_reads :: "transaction_base \<Rightarrow> 'c thread_data \<Rightarrow> 'v shared \<Rightarrow> bool \<times> 'v shared" where
  "validate_reads tx td sh =
     (if \<exists>src_var \<in> set (pv_items (read_set td)). \<not> rw_valid_var tx (vars sh src_var)
      then (False, unlock_write_set (write_set td) (hs_begin (write_set td)) (hs_end (write_set td)) sh)
      else (True, sh))"

definition do_writes :: "pod_hash_set \<Rightarrow> 'v shared \<Rightarrow> 'v shared" where
  "do_writes w sh = fold (\<lambda>e. set_storage (dest_var e) (pending_write e)) (hs_items w) sh"

definition publish :: "pod_hash_set \<Rightarrow> epoch_t \<Rightarrow> 'v shared \<Rightarrow> 'v shared" where
  "publish w write_version sh = fold (\<lambda>e. unlock_as_version (dest_var e) write_version) (hs_items w) sh"

definition slower_path_assert :: "transaction_base \<Rightarrow> epoch_t \<Rightarrow> bool" where
  "slower_path_assert tx sync_epoch \<longleftrightarrow> version tx \<le> sync_epoch \<and> bump_assert sync_epoch"

definition slower_path :: "transaction_base \<Rightarrow> 'c thread_data \<Rightarrow> 'v shared \<Rightarrow> epoch_t \<times> 'v shared" where
  "slower_path tx td sh =
     (let (ok, sh1) = validate_reads tx td sh in
      if \<not> ok then (commit_failed, sh1)
      else
        let sh2 = do_writes (write_set td) sh1;
            (sync_epoch, d) = fetch_and_bump_clock (domain sh2);
            sh3 = publish (write_set td) (sync_epoch + bump_size) (sh2\<lparr> domain := d \<rparr>)
        in (sync_epoch, sh3))"

definition slow_path :: "transaction_base \<Rightarrow> 'c thread_data \<Rightarrow> 'v shared \<Rightarrow> epoch_t \<times> 'c thread_data \<times> 'v shared" where
  "slow_path tx td sh =
     (let td' = remove_writes_from_reads td; (ok, sh1) = lock_writes tx td' sh in
      if \<not> ok then (commit_failed, td', sh1)
      else let (e, sh2) = slower_path tx td' sh1 in (e, td', sh2))"

definition try_commit_assert :: "transaction_base \<Rightarrow> 'v shared \<Rightarrow> bool" where
  "try_commit_assert tx sh \<longleftrightarrow> version tx \<le> get_clock (domain sh)"

definition try_commit :: "transaction_base \<Rightarrow> 'c thread_data \<Rightarrow> 'v shared \<Rightarrow> epoch_t \<times> 'c thread_data \<times> 'v shared" where
  "try_commit tx td sh = (if hs_empty (write_set td) then (0, td, sh) else slow_path tx td sh)"

section \<open>Locking and unlocking\<close>

text \<open>What the loops do to the variables, as functions of the whole write set.\<close>

definition lock_vars :: "var_ref set \<Rightarrow> 'v shared \<Rightarrow> 'v shared" where
  "lock_vars V sh = sh\<lparr> vars := (\<lambda>v. if v \<in> V then (vars sh v)\<lparr> version_lock := as_locked (version_lock (vars sh v)) \<rparr>
     else vars sh v) \<rparr>"

definition install_vars :: "epoch_t \<Rightarrow> (var_ref \<rightharpoonup> var_storage) \<Rightarrow> 'v shared \<Rightarrow> 'v shared" where
  "install_vars n m sh = sh\<lparr> vars := (\<lambda>v. case m v of None \<Rightarrow> vars sh v
     | Some s \<Rightarrow> \<lparr> version_lock = n, storage = s \<rparr>) \<rparr>"

lemma hs_dest_at_nth: "hs_inv w \<Longrightarrow> i < hs_end w \<Longrightarrow> hs_dest_at w i = hs_dests w ! i"
  by (simp add: hs_dest_at_def hs_inv_def pv_deref_items hs_items_def hs_end_length hs_dests_def)

lemma hs_end_dests: "hs_end w = length (hs_dests w)"
  by (simp add: hs_end_length hs_dests_def)

lemma unlock_write_set_take:
  "hs_inv w \<Longrightarrow> n \<le> hs_end w \<Longrightarrow> unlock_write_set w (hs_begin w) n sh = fold unlock (take n (hs_dests w)) sh"
proof -
  assume w: "hs_inv w" "n \<le> hs_end w"
  have "map (hs_dest_at w) [0..<n] = take n (hs_dests w)"
    using w by (intro nth_equalityI) (auto simp: hs_dest_at_nth hs_end_dests)
  moreover have "unlock_write_set w 0 n sh = fold unlock (map (hs_dest_at w) [0..<n]) sh"
    by (simp only: unlock_write_set_def fold_map comp_def)
  ultimately show ?thesis by (simp add: hs_begin_def)
qed

lemma unlock_fold:
  "distinct vs \<Longrightarrow> fold unlock vs sh = sh\<lparr> vars := (\<lambda>v. if v \<in> set vs
     then (vars sh v)\<lparr> version_lock := version_lock (vars sh v) XOR lock_bit \<rparr> else vars sh v) \<rparr>"
  by (induction vs arbitrary: sh)
    (auto simp: unlock_def unlock_as_version_def set_version_def fun_eq_iff)

lemma unlock_locked:
  assumes "distinct vs" and "\<forall>v \<in> set vs. \<not> locked (version_lock (vars sh v))"
  shows "fold unlock vs (lock_vars (set vs) sh) = sh"
proof -
  have "vars (fold unlock vs (lock_vars (set vs) sh)) v = vars sh v" for v
    using assms(2) by (simp add: unlock_fold [OF assms(1)] lock_vars_def as_locked_xor)
  then show ?thesis
    by (simp add: unlock_fold [OF assms(1)] lock_vars_def fun_eq_iff)
qed

lemma lock_eq:
  "lock tx v sh = (if version_lock (vars sh v) \<le> version tx then (True, lock_vars {v} sh) else (False, sh))"
  by (auto simp: lock_def Let_def rw_valid_def compare_exchange_version_def set_version_def lock_vars_def fun_eq_iff)

lemma lock_writes_from_eq:
  assumes "hs_inv w" and "\<not> locked (version tx)" and "i \<le> hs_end w"
    and "\<forall>v \<in> set (take i (hs_dests w)). version_lock (vars sh v) \<le> version tx"
  shows "lock_writes_from tx w i (lock_vars (set (take i (hs_dests w))) sh) =
    (if \<forall>v \<in> set (drop i (hs_dests w)). version_lock (vars sh v) \<le> version tx
     then (True, lock_vars (set (hs_dests w)) sh) else (False, sh))"
  using assms(3,4)
proof (induction "hs_end w - i" arbitrary: i)
  case 0
  then show ?case by (simp add: lock_writes_from.simps hs_end_dests)
next
  case (Suc n)
  let ?vs = "hs_dests w" and ?v = "hs_dests w ! i" and ?sh = "lock_vars (set (take i (hs_dests w))) sh"
  have i: "i < hs_end w" "i < length ?vs" using Suc by (simp_all add: hs_end_dests)
  have dist: "distinct ?vs" using assms(1) by (simp add: hs_inv_def)
  then have fresh: "?v \<notin> set (take i ?vs)"
    using i(2) by (auto simp: in_set_conv_nth nth_eq_iff_index_eq)
  then have same: "version_lock (vars ?sh ?v) = version_lock (vars sh ?v)"
    by (simp add: lock_vars_def)
  have dest: "hs_dest_at w i = ?v" using assms(1) i(1) by (rule hs_dest_at_nth)
  have drop: "drop i ?vs = ?v # drop (Suc i) ?vs" and take: "set (take (Suc i) ?vs) = insert ?v (set (take i ?vs))"
    using i(2) by (simp_all add: Cons_nth_drop_Suc take_Suc_conv_app_nth)
  show ?case
  proof (cases "version_lock (vars sh ?v) \<le> version tx")
    case True
    have "lock_vars {?v} ?sh = lock_vars (set (take (Suc i) ?vs)) sh"
      unfolding take using fresh by (auto simp: lock_vars_def fun_eq_iff)
    then have "lock_writes_from tx w i ?sh = lock_writes_from tx w (Suc i) (lock_vars (set (take (Suc i) ?vs)) sh)"
      using i(1) True by (simp add: lock_writes_from.simps [of tx w i] dest lock_eq same)
    moreover have "\<forall>v \<in> set (take (Suc i) ?vs). version_lock (vars sh v) \<le> version tx"
      using Suc.prems(2) True unfolding take by auto
    ultimately show ?thesis
      using Suc.hyps(1) [of "Suc i"] Suc.hyps(2) i(1) True by (simp add: drop)
  next
    case False
    have "\<forall>v \<in> set (take i ?vs). \<not> locked (version_lock (vars sh v))"
      using Suc.prems(2) unlocked_le [OF assms(2)] by blast
    then have "fold unlock (take i ?vs) ?sh = sh"
      using dist by (intro unlock_locked) simp_all
    then show ?thesis
      using i(1) False assms(1)
      by (simp add: lock_writes_from.simps [of tx w i] dest lock_eq same drop unlock_write_set_take)
  qed
qed

lemma lock_writes_eq:
  assumes "hs_inv (write_set td)" and "\<not> locked (version tx)"
  shows "lock_writes tx td sh =
    (if \<forall>v \<in> set (hs_dests (write_set td)). version_lock (vars sh v) \<le> version tx
     then (True, lock_vars (set (hs_dests (write_set td))) sh) else (False, sh))"
proof -
  have "lock_vars {} sh = sh" by (simp add: lock_vars_def)
  then show ?thesis
    using lock_writes_from_eq [OF assms, of 0 sh] by (simp add: lock_writes_def hs_begin_def)
qed

section \<open>Validation, writing, publishing\<close>

lemma remove_writes_from_spec:
  assumes "pv_inv (read_set td)" and "hs_inv (write_set td)" and "n \<le> pv_end (read_set td)"
    and "\<forall>v \<in> set (drop n (pv_items (read_set td))). v \<notin> set (hs_dests (write_set td))"
  shows "\<exists>rs. remove_writes_from n td = td\<lparr> read_set := rs \<rparr> \<and> pv_inv rs \<and>
    mset (pv_items rs) = filter_mset (\<lambda>v. v \<notin> set (hs_dests (write_set td))) (mset (pv_items (read_set td)))"
  using assms
proof (induction n arbitrary: td)
  case 0
  then have "filter_mset (\<lambda>v. v \<notin> set (hs_dests (write_set td))) (mset (pv_items (read_set td)))
      = mset (pv_items (read_set td))"
    by (simp add: filter_mset_eq_conv)
  with 0 show ?case by (intro exI [of _ "read_set td"]) simp
next
  case (Suc n)
  let ?W = "set (hs_dests (write_set td))" and ?xs = "pv_items (read_set td)"
  let ?td = "td\<lparr> read_set := unordered_erase n (read_set td) \<rparr>"
  have n: "n < length ?xs" using Suc.prems(3) by (simp add: vec_simps)
  have v: "the (pv_deref (read_set td) n) = ?xs ! n"
    using Suc.prems(1) n by (simp add: pv_deref_items)
  have drop: "drop n ?xs = ?xs ! n # drop (Suc n) ?xs" using n by (simp add: Cons_nth_drop_Suc)
  show ?case
  proof (cases "?xs ! n \<in> ?W")
    case False
    then show ?thesis
      using Suc.IH [of td] Suc.prems v drop hs_find_found(1) [OF Suc.prems(2), of "?xs ! n"] by auto
  next
    case True
    have assert: "unordered_erase_assert n (read_set td)"
      using Suc.prems(3) by (simp add: unordered_erase_assert_def)
    have xs': "pv_items (read_set ?td) = butlast (?xs[n := last ?xs])"
      using unordered_erase_items [OF assert] by simp
    have ms: "mset (pv_items (read_set ?td)) = mset ?xs - {# ?xs ! n #}"
      using unordered_erase_mset [OF assert] by simp
    have late: "\<forall>u \<in> set (drop n (pv_items (read_set ?td))). u \<notin> ?W"
    proof
      fix u assume "u \<in> set (drop n (pv_items (read_set ?td)))"
      then obtain j where j: "n \<le> j" "j < length ?xs - 1" "u = butlast (?xs[n := last ?xs]) ! j"
        unfolding xs' by (auto simp: in_set_conv_nth intro!: that [of "n + _"])
      then have "u = last ?xs \<and> n < length ?xs - 1 \<or> n < j \<and> u = ?xs ! j"
        by (auto simp: nth_butlast nth_list_update)
      then have "u \<in> set (drop (Suc n) ?xs)"
      proof
        assume "u = last ?xs \<and> n < length ?xs - 1"
        then show ?thesis
          using n by (metis Suc_lessI drop_eq_Nil2 last_drop last_in_set less_diff_conv not_less plus_1_eq_Suc add.commute)
      next
        assume "n < j \<and> u = ?xs ! j"
        then show ?thesis
          using j(2) by (auto simp: in_set_conv_nth intro!: exI [of _ "j - Suc n"])
      qed
      then show "u \<notin> ?W" using Suc.prems(4) by simp
    qed
    have "\<exists>rs. remove_writes_from n ?td = ?td\<lparr> read_set := rs \<rparr> \<and> pv_inv rs \<and>
        mset (pv_items rs) = filter_mset (\<lambda>v. v \<notin> ?W) (mset (pv_items (read_set ?td)))"
      using Suc.IH [of ?td] Suc.prems late unordered_erase_inv [OF Suc.prems(1) assert]
      by (simp add: unordered_erase_def)
    moreover have "filter_mset (\<lambda>v. v \<notin> ?W) (mset ?xs - {# ?xs ! n #}) = filter_mset (\<lambda>v. v \<notin> ?W) (mset ?xs)"
      using True by simp
    moreover have "hs_end (write_set td) \<noteq> hs_find (write_set td) (?xs ! n)"
      using hs_find_found(1) [OF Suc.prems(2), of "?xs ! n"] True by auto
    ultimately show ?thesis unfolding ms by (simp add: v)
  qed
qed

lemma remove_writes_from_reads_spec:
  assumes "pv_inv (read_set td)" and "hs_inv (write_set td)"
  obtains rs where "remove_writes_from_reads td = td\<lparr> read_set := rs \<rparr>" and "pv_inv rs"
    and "mset (pv_items rs) = filter_mset (\<lambda>v. v \<notin> set (hs_dests (write_set td))) (mset (pv_items (read_set td)))"
  using remove_writes_from_spec [OF assms, of "pv_end (read_set td)"] that
  by (auto simp: remove_writes_from_reads_def vec_simps)

lemma validate_reads_eq:
  assumes "hs_inv (write_set td)" and "\<forall>v \<in> set (hs_dests (write_set td)). \<not> locked (version_lock (vars sh v))"
    and "set (pv_items (read_set td)) \<inter> set (hs_dests (write_set td)) = {}"
  shows "validate_reads tx td (lock_vars (set (hs_dests (write_set td))) sh) =
    (if \<forall>v \<in> set (pv_items (read_set td)). version_lock (vars sh v) \<le> version tx
     then (True, lock_vars (set (hs_dests (write_set td))) sh) else (False, sh))"
proof -
  let ?W = "set (hs_dests (write_set td))"
  have "version_lock (vars (lock_vars ?W sh) v) = version_lock (vars sh v)" if "v \<in> set (pv_items (read_set td))" for v
    using that assms(3) by (auto simp: lock_vars_def)
  moreover have "unlock_write_set (write_set td) (hs_begin (write_set td)) (hs_end (write_set td)) (lock_vars ?W sh) = sh"
    using assms(1,2) unlock_locked [of "hs_dests (write_set td)" sh]
    by (simp add: unlock_write_set_take) (simp add: hs_end_dests hs_inv_def)
  ultimately show ?thesis
    by (auto simp: validate_reads_def rw_valid_var_def rw_valid_def)
qed

lemma do_writes_fold:
  "distinct (map dest_var es) \<Longrightarrow>
   fold (\<lambda>e. set_storage (dest_var e) (pending_write e)) es sh =
     sh\<lparr> vars := (\<lambda>v. case map_of (map (\<lambda>e. (dest_var e, pending_write e)) es) v of
        None \<Rightarrow> vars sh v | Some s \<Rightarrow> (vars sh v)\<lparr> storage := s \<rparr>) \<rparr>"
proof (induction es arbitrary: sh)
  case (Cons e es)
  have "map_of (map (\<lambda>e. (dest_var e, pending_write e)) es) (dest_var e) = None"
    using Cons.prems by (simp add: map_of_map_pair_None)
  then show ?case
    using Cons by (auto simp: set_storage_def fun_eq_iff split: option.splits)
qed simp

lemma publish_fold:
  "fold (\<lambda>e. unlock_as_version (dest_var e) n) es sh =
     sh\<lparr> vars := (\<lambda>v. if v \<in> dest_var ` set es then (vars sh v)\<lparr> version_lock := n \<rparr> else vars sh v) \<rparr>"
  by (induction es arbitrary: sh) (auto simp: unlock_as_version_def set_version_def fun_eq_iff)

lemma var_base_eqI: "version_lock (a :: var_base) = n \<Longrightarrow> storage a = s \<Longrightarrow> a = \<lparr> version_lock = n, storage = s \<rparr>"
  by (cases a) simp

lemma do_writes_publish_eq:
  assumes "hs_inv w"
  shows "publish w n ((do_writes w (lock_vars (set (hs_dests w)) sh))\<lparr> domain := d \<rparr>)
    = (install_vars n (hs_view w) sh)\<lparr> domain := d \<rparr>"
proof -
  let ?sh = "publish w n ((do_writes w (lock_vars (set (hs_dests w)) sh))\<lparr> domain := d \<rparr>)"
  have dist: "distinct (map dest_var (hs_items w))"
    using assms by (simp add: hs_inv_def hs_dests_def)
  have "vars ?sh v = vars (install_vars n (hs_view w) sh) v" for v
  proof (cases "hs_view w v")
    case None
    then have "v \<notin> dest_var ` set (hs_items w)"
      using hs_view_None_iff [of w v] by (simp add: hs_dests_def)
    with None show ?thesis
      by (simp add: publish_def publish_fold do_writes_def do_writes_fold [OF dist] install_vars_def lock_vars_def
          hs_dests_def flip: hs_view_def)
  next
    case (Some s)
    then have "v \<in> dest_var ` set (hs_items w)"
      using hs_view_None_iff [of w v] by (auto simp: hs_dests_def)
    with Some show ?thesis
      by (auto simp: publish_def publish_fold do_writes_def do_writes_fold [OF dist] install_vars_def lock_vars_def
          simp flip: hs_view_def intro!: var_base_eqI)
  qed
  moreover have "heap ?sh = heap sh" "domain ?sh = d"
    by (simp_all add: publish_def publish_fold do_writes_def do_writes_fold [OF dist] lock_vars_def)
  ultimately show ?thesis
    by (simp add: install_vars_def fun_eq_iff)
qed

section \<open>The whole commit\<close>

definition commit_valid :: "transaction_base \<Rightarrow> 'c thread_data \<Rightarrow> 'v shared \<Rightarrow> bool" where
  "commit_valid tx td sh \<longleftrightarrow>
     (\<forall>v \<in> set (hs_dests (write_set td)) \<union> set (pv_items (read_set td)). version_lock (vars sh v) \<le> version tx)"

lemma slow_path_eq:
  assumes "td_rep td cs w" and "\<not> locked (version tx)"
  obtains rs where "pv_inv rs" and "slow_path tx td sh =
    (if commit_valid tx td sh
     then (clock (domain sh), td\<lparr> read_set := rs \<rparr>,
       (install_vars (clock (domain sh) + bump_size) (hs_view (write_set td)) sh)
         \<lparr> domain := snd (fetch_and_bump_clock (domain sh)) \<rparr>)
     else (commit_failed, td\<lparr> read_set := rs \<rparr>, sh))"
proof -
  let ?W = "set (hs_dests (write_set td))"
  have inv: "pv_inv (read_set td)" "hs_inv (write_set td)" using assms(1) by (simp_all add: td_rep_def)
  obtain rs where rs: "remove_writes_from_reads td = td\<lparr> read_set := rs \<rparr>" "pv_inv rs"
    and ms: "mset (pv_items rs) = filter_mset (\<lambda>v. v \<notin> ?W) (mset (pv_items (read_set td)))"
    by (rule remove_writes_from_reads_spec [OF inv])
  have set_rs: "set (pv_items rs) = set (pv_items (read_set td)) - ?W"
    using arg_cong [OF ms, of set_mset] by auto
  let ?td = "td\<lparr> read_set := rs \<rparr>"
  have lock: "lock_writes tx ?td sh = (if \<forall>v \<in> ?W. version_lock (vars sh v) \<le> version tx
      then (True, lock_vars ?W sh) else (False, sh))"
    using lock_writes_eq [of ?td tx sh] inv assms(2) by simp
  have val: "validate_reads tx ?td (lock_vars ?W sh) =
      (if \<forall>v \<in> set (pv_items rs). version_lock (vars sh v) \<le> version tx
       then (True, lock_vars ?W sh) else (False, sh))"
    if "\<forall>v \<in> ?W. version_lock (vars sh v) \<le> version tx"
  proof -
    have "set (pv_items (read_set ?td)) \<inter> set (hs_dests (write_set ?td)) = {}"
      using set_rs by auto
    moreover have "\<forall>v \<in> set (hs_dests (write_set ?td)). \<not> locked (version_lock (vars sh v))"
      using that unlocked_le [OF assms(2)] by simp
    ultimately show ?thesis
      using validate_reads_eq [of ?td sh tx] inv(2) by simp
  qed
  have dom: "domain (do_writes (write_set td) (lock_vars ?W sh)) = domain sh"
    using inv(2) by (simp add: do_writes_def do_writes_fold hs_inv_def hs_dests_def lock_vars_def)
  have "slow_path tx td sh =
    (if commit_valid tx td sh
     then (clock (domain sh), ?td,
       (install_vars (clock (domain sh) + bump_size) (hs_view (write_set td)) sh)
         \<lparr> domain := snd (fetch_and_bump_clock (domain sh)) \<rparr>)
     else (commit_failed, ?td, sh))"
  proof (cases "\<forall>v \<in> ?W. version_lock (vars sh v) \<le> version tx")
    case True
    then have "commit_valid tx td sh \<longleftrightarrow> (\<forall>v \<in> set (pv_items rs). version_lock (vars sh v) \<le> version tx)"
      unfolding commit_valid_def set_rs by auto
    moreover note pub = do_writes_publish_eq [OF inv(2), where n = "clock (domain sh) + bump_size"
      and sh = sh and d = "(domain sh)\<lparr> clock := clock (domain sh) + bump_size \<rparr>"]
    have "slower_path tx ?td (lock_vars ?W sh) =
      (if \<forall>v \<in> set (pv_items rs). version_lock (vars sh v) \<le> version tx
       then (clock (domain sh), (install_vars (clock (domain sh) + bump_size) (hs_view (write_set td)) sh)
         \<lparr> domain := (domain sh)\<lparr> clock := clock (domain sh) + bump_size \<rparr> \<rparr>)
       else (commit_failed, sh))"
      by (simp add: slower_path_def val [OF True] Let_def fetch_and_bump_clock_def dom pub)
    ultimately show ?thesis
      using True lock by (simp add: slow_path_def rs(1) fetch_and_bump_clock_def)
  next
    case False
    then have "\<not> commit_valid tx td sh" by (auto simp: commit_valid_def)
    with False show ?thesis by (auto simp: slow_path_def rs(1) lock)
  qed
  with rs(2) show thesis by (rule that)
qed

lemma hs_empty_dests: "hs_empty w \<longleftrightarrow> hs_dests w = []"
  by (simp add: hs_empty_items hs_dests_def)

section \<open>Properties\<close>

text \<open>C12: \<open>try_commit\<close> is all or nothing. If every variable of the write set and of the read set is
  unlocked and not newer than the transaction, every pending value is installed under the one new
  version and the clock is bumped; otherwise it reports failure and the shared state is what it was
  before, every lock that was taken given back. A transaction without writes returns epoch 0.\<close>

theorem try_commit_all_or_nothing:
  assumes "td_rep td cs w" and "\<not> locked (version tx)"
  shows "\<exists>rs. try_commit tx td sh =
    (if hs_dests (write_set td) = [] then (0, td, sh)
     else if commit_valid tx td sh
     then (clock (domain sh), td\<lparr> read_set := rs \<rparr>,
       (install_vars (clock (domain sh) + bump_size) (hs_view (write_set td)) sh)
         \<lparr> domain := snd (fetch_and_bump_clock (domain sh)) \<rparr>)
     else (commit_failed, td\<lparr> read_set := rs \<rparr>, sh))"
proof -
  obtain rs where "slow_path tx td sh =
    (if commit_valid tx td sh
     then (clock (domain sh), td\<lparr> read_set := rs \<rparr>,
       (install_vars (clock (domain sh) + bump_size) (hs_view (write_set td)) sh)
         \<lparr> domain := snd (fetch_and_bump_clock (domain sh)) \<rparr>)
     else (commit_failed, td\<lparr> read_set := rs \<rparr>, sh))"
    by (rule slow_path_eq [OF assms]) blast
  then have "try_commit tx td sh =
    (if hs_dests (write_set td) = [] then (0, td, sh)
     else if commit_valid tx td sh
     then (clock (domain sh), td\<lparr> read_set := rs \<rparr>,
       (install_vars (clock (domain sh) + bump_size) (hs_view (write_set td)) sh)
         \<lparr> domain := snd (fetch_and_bump_clock (domain sh)) \<rparr>)
     else (commit_failed, td\<lparr> read_set := rs \<rparr>, sh))"
    by (simp add: try_commit_def hs_empty_dests)
  then show ?thesis by blast
qed

text \<open>A thread that has written 9 to variable 32.\<close>

definition writing_thread :: "char thread_data" where
  "writing_thread = add_write_set 32 9 (var_hash 32) new_thread_data"

lemma writing_thread_rep: "td_rep writing_thread [] []" "hs_view (write_set writing_thread) = [32 \<mapsto> 9]"
  "hs_dests (write_set writing_thread) = [32]" "pv_items (read_set writing_thread) = []"
proof -
  have "hs_dests hs_new = []" by (simp add: hs_dests_def hs_new_refines)
  then show "hs_view (write_set writing_thread) = [32 \<mapsto> 9]" "hs_dests (write_set writing_thread) = [32]"
    by (simp_all add: writing_thread_def add_write_set_def new_thread_data_def ws_simps hs_new_refines)
  show "td_rep writing_thread [] []"
    using new_thread_data_rep [where 'a = char] hs_push_back_inv [of hs_new 32 9] \<open>hs_dests hs_new = []\<close>
    by (simp add: td_rep_def writing_thread_def add_write_set_def new_thread_data_def)
qed (simp add: writing_thread_def add_write_set_def new_thread_data_def pv_new_refines)

theorem try_commit_all_or_nothing_witness:
  "\<exists>td' sh'. try_commit (transaction 0 3) writing_thread quiet_shared = (0, td', sh')
    \<and> vars sh' 32 = \<lparr> version_lock = 1, storage = 9 \<rparr> \<and> vars sh' 48 = vars quiet_shared 48"
proof -
  have u: "\<not> locked (version (transaction 0 3))"
    by (simp add: transaction_def locked_iff_ge lock_bit_val)
  have valid: "commit_valid (transaction 0 3) writing_thread quiet_shared"
    by (simp add: commit_valid_def writing_thread_rep quiet_shared_def transaction_def)
  show ?thesis
    using try_commit_all_or_nothing [OF writing_thread_rep(1) u, of quiet_shared] valid
    by (auto simp: writing_thread_rep quiet_shared_def install_vars_def new_domain_def bump_size_def)
qed

text \<open>\<open>lock_writes\<close> either locks exactly the variables of the write set, or, when one of them is
  locked or newer than the transaction, leaves every version as it was.\<close>

theorem lock_writes_all_or_nothing:
  assumes "hs_inv (write_set td)" and "\<not> locked (version tx)"
  shows "lock_writes tx td sh =
    (if \<forall>v \<in> set (hs_dests (write_set td)). version_lock (vars sh v) \<le> version tx
     then (True, lock_vars (set (hs_dests (write_set td))) sh) else (False, sh))"
  by (rule lock_writes_eq [OF assms])

theorem lock_writes_all_or_nothing_witness:
  "lock_writes (transaction 0 3) writing_thread (lock_vars {32} quiet_shared) = (False, lock_vars {32} quiet_shared)"
proof -
  have u: "\<not> locked (version (transaction 0 3))"
    by (simp add: transaction_def locked_iff_ge lock_bit_val)
  have inv: "hs_inv (write_set writing_thread)"
    using writing_thread_rep(1) by (simp add: td_rep_def)
  have "\<not> version_lock (vars (lock_vars {32} quiet_shared) 32) \<le> version (transaction 0 3)"
    using locked_not_valid [OF locked_as_locked u] by (simp add: lock_vars_def)
  then show ?thesis
    using lock_writes_all_or_nothing [OF inv u, of "lock_vars {32} quiet_shared"] by (simp add: writing_thread_rep)
qed

text \<open>\<open>remove_writes_from_reads\<close>, which erases by swapping with the last element while it walks
  down, keeps exactly the entries of the read set that are not written, with their multiplicity.\<close>

theorem remove_writes_from_reads_exact:
  assumes "pv_inv (read_set td)" and "hs_inv (write_set td)"
  shows "mset (pv_items (read_set (remove_writes_from_reads td))) =
      filter_mset (\<lambda>v. v \<notin> set (hs_dests (write_set td))) (mset (pv_items (read_set td)))
    \<and> remove_writes_from_reads td = td\<lparr> read_set := read_set (remove_writes_from_reads td) \<rparr>"
  by (rule remove_writes_from_reads_spec [OF assms]) simp

theorem remove_writes_from_reads_exact_witness:
  "mset (pv_items (read_set (remove_writes_from_reads (writing_thread\<lparr> read_set := fold emplace_back [32, 64, 32, 96] pv_new \<rparr>))))
   = {# 64, 96 #}"
proof -
  let ?td = "writing_thread\<lparr> read_set := fold emplace_back [32, 64, 32, 96] pv_new \<rparr>"
  have "pv_inv (read_set ?td)"
    by (simp add: emplace_back_inv pv_new_refines)
  moreover have "hs_inv (write_set ?td)" using writing_thread_rep(1) by (simp add: td_rep_def)
  ultimately show ?thesis
    using remove_writes_from_reads_exact [of ?td]
    by (simp add: writing_thread_rep vec_simps pv_new_refines)
qed

end
