(* ===== verification/Atomic_Fn.thy ===== *)
theory Atomic_Fn
  imports Commit_Algorithm
begin

text \<open>
  Running a transaction: \<^verbatim>\<open>detail/atomic_base.hpp\<close>, \<^verbatim>\<open>read_write.hpp\<close>, \<^verbatim>\<open>read_only.hpp\<close>,
  \<^verbatim>\<open>atomic.hpp\<close>, \<^verbatim>\<open>relative.hpp\<close> and \<^verbatim>\<open>retry.hpp\<close>.

  The function a user passes to \<open>lstm::atomic\<close> is a value of \<open>tx_prog\<close>: the accesses it makes, with
  the rest of the function after each read as a HOL function of the value read. A program that
  only reads is a value of \<open>ro_prog\<close>.

  A call runs attempts until one commits or an exception leaves it. Between two attempts other
  threads run; their effect on the shared state is an argument of the loop, one function per
  attempt, and the length of that list bounds the attempts. The result is \<open>None\<close> when no attempt
  ends the call, when a callback misuses the memory, or when waiting for other threads does not end.
\<close>

section \<open>State\<close>

record ('v, 'c) world =
  w_shared :: "'v shared"
  w_td :: "'c thread_data"
  w_log :: "'c list"

text \<open>The effect of callbacks on the world.\<close>

definition world_callbacks :: "'c gp_callback list \<Rightarrow> ('v, 'c) world \<Rightarrow> ('v, 'c) world option" where
  "world_callbacks cbs w =
     map_option (\<lambda>(m, l). w\<lparr> w_shared := (w_shared w)\<lparr> heap := m \<rparr>, w_log := l \<rparr>)
       (run_gp_callbacks cbs (heap (w_shared w), w_log w))"

section \<open>Programs\<close>

datatype ('v, 'c, 'r) tx_prog =
    Return 'r
  | Throw
  | Retry
  | Get var_ref "'v \<Rightarrow> ('v, 'c, 'r) tx_prog"
  | Untracked_Get var_ref "'v \<Rightarrow> ('v, 'c, 'r) tx_prog"
  | Set var_ref 'v "('v, 'c, 'r) tx_prog"
  | Get_Atomic var_ref "uword \<Rightarrow> ('v, 'c, 'r) tx_prog"
  | Set_Atomic var_ref uword "('v, 'c, 'r) tx_prog"
  | After_Fail 'c "('v, 'c, 'r) tx_prog"
  | Sometime_Synchronized_After 'c "('v, 'c, 'r) tx_prog"

datatype ('v, 'r) ro_prog =
    Ro_Return 'r
  | Ro_Throw
  | Ro_Retry
  | Ro_Get var_ref "'v \<Rightarrow> ('v, 'r) ro_prog"
  | Ro_Untracked_Get var_ref "'v \<Rightarrow> ('v, 'r) ro_prog"

text \<open>Calling the function with a writing transaction.\<close>

primrec call_rw ::
    "(var_ref \<Rightarrow> var_layout) \<Rightarrow> transaction_base \<Rightarrow> ('v, 'c, 'r) tx_prog \<Rightarrow> 'v shared \<Rightarrow> 'c thread_data
     \<Rightarrow> (cxx_error + 'r) \<times> 'v shared \<times> 'c thread_data" where
  "call_rw lay tx (Return r) = (\<lambda>sh td. (Inr r, sh, td))"
| "call_rw lay tx Throw = (\<lambda>sh td. (Inl User_exception, sh, td))"
| "call_rw lay tx Retry = (\<lambda>sh td. (Inl Tx_retry, sh, td))"
| "call_rw lay tx (Get v k) = (\<lambda>sh td.
     (case rw_read tx sh v td of
        (Inl e, td') \<Rightarrow> (Inl e, sh, td')
      | (Inr x, td') \<Rightarrow> call_rw lay tx (k x) sh td'))"
| "call_rw lay tx (Untracked_Get v k) = (\<lambda>sh td.
     (case rw_untracked_read tx sh v td of
        Inl e \<Rightarrow> (Inl e, sh, td)
      | Inr x \<Rightarrow> call_rw lay tx (k x) sh td))"
| "call_rw lay tx (Set v x p) = (\<lambda>sh td.
     (case rw_write (lay v) tx v (Some x) sh td of
        (Inl e, sh', td') \<Rightarrow> (Inl e, sh', td')
      | (Inr _, sh', td') \<Rightarrow> call_rw lay tx p sh' td'))"
| "call_rw lay tx (Get_Atomic v k) = (\<lambda>sh td.
     (case rw_read_atomic tx sh v td of
        (Inl e, td') \<Rightarrow> (Inl e, sh, td')
      | (Inr x, td') \<Rightarrow> call_rw lay tx (k x) sh td'))"
| "call_rw lay tx (Set_Atomic v x p) = (\<lambda>sh td.
     (case rw_write_atomic tx sh v x td of
        (Inl e, td') \<Rightarrow> (Inl e, sh, td')
      | (Inr _, td') \<Rightarrow> call_rw lay tx p sh td'))"
| "call_rw lay tx (After_Fail c p) = (\<lambda>sh td. call_rw lay tx p sh (td_after_fail (User c) td))"
| "call_rw lay tx (Sometime_Synchronized_After c p) =
     (\<lambda>sh td. call_rw lay tx p sh (td_sometime_synchronized_after (User c) td))"

text \<open>Calling a reading function with a \<open>read_transaction\<close>.\<close>

primrec call_ro ::
    "transaction_base \<Rightarrow> ('v, 'r) ro_prog \<Rightarrow> 'v shared \<Rightarrow> 'c thread_data \<Rightarrow> (cxx_error + 'r) \<times> 'c thread_data" where
  "call_ro tx (Ro_Return r) = (\<lambda>sh td. (Inr r, td))"
| "call_ro tx Ro_Throw = (\<lambda>sh td. (Inl User_exception, td))"
| "call_ro tx Ro_Retry = (\<lambda>sh td. (Inl Tx_retry, td))"
| "call_ro tx (Ro_Get v k) = (\<lambda>sh td.
     (case ro_read tx sh v td of
        (Inl e, td') \<Rightarrow> (Inl e, td')
      | (Inr x, td') \<Rightarrow> call_ro tx (k x) sh td'))"
| "call_ro tx (Ro_Untracked_Get v k) = (\<lambda>sh td.
     (case ro_untracked_read tx sh v td of
        Inl e \<Rightarrow> (Inl e, td)
      | Inr x \<Rightarrow> call_ro tx (k x) sh td))"

section \<open>The outcomes of an attempt\<close>

definition set_rw :: "'c thread_data \<Rightarrow> 'c thread_data" where
  "set_rw td = td\<lparr> tx_state := Read_write \<rparr>"

definition set_read :: "'c thread_data \<Rightarrow> 'c thread_data" where
  "set_read td = td\<lparr> tx_state := Read_only \<rparr>"

definition valid_start_state :: "'c thread_data \<Rightarrow> bool" where
  "valid_start_state td \<longleftrightarrow> pv_empty (read_set td) \<and> hs_empty (write_set td) \<and> pv_empty (fail_callbacks td)
     \<and> working_epoch_empty (succ_callbacks td)"

definition tx_failure_no_backoff :: "tx_kind \<Rightarrow> ('v, 'c) world \<Rightarrow> ('v, 'c) world option" where
  "tx_failure_no_backoff kind w =
     (let td1 = td_access_unlock (w_td w) in
      if kind \<noteq> Read_only then
        let td2 = clear_read_write_sets td1;
            td3 = td2\<lparr> succ_callbacks := clear_working_epoch (succ_callbacks td2) \<rparr>;
            (cbs, td4) = do_fail_callbacks td3
        in world_callbacks cbs (w\<lparr> w_td := td4 \<rparr>)
      else Some (w\<lparr> w_td := td1 \<rparr>))"

definition tx_failure :: "tx_kind \<Rightarrow> ('v, 'c) world \<Rightarrow> ('v, 'c) world option" where
  "tx_failure kind w = tx_failure_no_backoff kind w"

definition unhandled_exception :: "tx_kind \<Rightarrow> ('v, 'c) world \<Rightarrow> ('v, 'c) world option" where
  "unhandled_exception kind w =
     map_option (\<lambda>w'. w'\<lparr> w_td := (w_td w')\<lparr> tx_state := None_kind \<rparr> \<rparr>) (tx_failure_no_backoff kind w)"

definition tx_success :: "tx_kind \<Rightarrow> epoch_t \<Rightarrow> epoch_t list list \<Rightarrow> ('v, 'c) world \<Rightarrow> ('v, 'c) world option" where
  "tx_success kind sync_epoch nodes w =
     (let td1 = td_access_unlock (w_td w); td2 = td1\<lparr> tx_state := None_kind \<rparr> in
      if kind \<noteq> Read_only then
        let td3 = clear_read_write_sets td2;
            td4 = td3\<lparr> fail_callbacks := pv_clear (fail_callbacks td3) \<rparr>
        in Option.bind (reclaim sync_epoch nodes td4) (\<lambda>(cbs, td5). world_callbacks cbs (w\<lparr> w_td := td5 \<rparr>))
      else Some (w\<lparr> w_td := td2 \<rparr>))"

section \<open>The retry loops\<close>

text \<open>What one pass through the loop body does: return, let an exception out, or go round again.\<close>

datatype 'r attempt = Returned 'r | Raised cxx_error | Again

definition read_write_attempt ::
    "(var_ref \<Rightarrow> var_layout) \<Rightarrow> nat \<Rightarrow> epoch_t list list \<Rightarrow> ('v, 'c, 'r) tx_prog \<Rightarrow> ('v, 'c) world
     \<Rightarrow> ('r attempt \<times> ('v, 'c) world) option" where
  "read_write_attempt lay i nodes func w =
     (let version = get_clock (domain (w_shared w));
          tx = transaction i version;
          td1 = td_access_lock version (w_td w);
          (result, sh2, td2) = call_rw lay tx func (w_shared w) td1;
          w2 = w\<lparr> w_shared := sh2, w_td := td2 \<rparr>
      in case result of
           Inr r \<Rightarrow>
             (let (sync_epoch, td3, sh3) = try_commit tx td2 sh2; w3 = w2\<lparr> w_shared := sh3, w_td := td3 \<rparr> in
              if sync_epoch \<noteq> commit_failed
              then map_option (Pair (Returned r)) (tx_success Read_write sync_epoch nodes w3)
              else map_option (Pair Again) (tx_failure Read_write w3))
         | Inl Tx_retry \<Rightarrow> map_option (Pair Again) (tx_failure Read_write w2)
         | Inl Undefined_behaviour \<Rightarrow> None
         | Inl e \<Rightarrow> map_option (Pair (Raised e)) (unhandled_exception Read_write w2))"

fun read_write_slow_path ::
    "(var_ref \<Rightarrow> var_layout) \<Rightarrow> nat \<Rightarrow> epoch_t list list \<Rightarrow> ('v shared \<Rightarrow> 'v shared) list
     \<Rightarrow> ('v, 'c, 'r) tx_prog \<Rightarrow> ('v, 'c) world \<Rightarrow> ((cxx_error + 'r) \<times> ('v, 'c) world) option" where
  "read_write_slow_path lay i nodes [] func w = None"
| "read_write_slow_path lay i nodes (others # rest) func w =
     (case read_write_attempt lay i nodes func (w\<lparr> w_shared := others (w_shared w) \<rparr>) of
        None \<Rightarrow> None
      | Some (Returned r, w') \<Rightarrow> Some (Inr r, w')
      | Some (Raised e, w') \<Rightarrow> Some (Inl e, w')
      | Some (Again, w') \<Rightarrow> read_write_slow_path lay i nodes rest func w')"

definition read_write_assert :: "'c thread_data \<Rightarrow> bool" where
  "read_write_assert td \<longleftrightarrow> \<not> in_transaction td \<or> in_read_write_transaction td"

definition read_write ::
    "(var_ref \<Rightarrow> var_layout) \<Rightarrow> nat \<Rightarrow> epoch_t list list \<Rightarrow> ('v shared \<Rightarrow> 'v shared) list
     \<Rightarrow> ('v, 'c, 'r) tx_prog \<Rightarrow> ('v, 'c) world \<Rightarrow> ((cxx_error + 'r) \<times> ('v, 'c) world) option" where
  "read_write lay i nodes others func w =
     (if in_transaction (w_td w) then
        (let (result, sh', td') = call_rw lay (transaction i (td_epoch (w_td w))) func (w_shared w) (w_td w)
         in Some (result, w\<lparr> w_shared := sh', w_td := td' \<rparr>))
      else read_write_slow_path lay i nodes others func (w\<lparr> w_td := set_rw (w_td w) \<rparr>))"

definition read_only_attempt ::
    "epoch_t list list \<Rightarrow> ('v, 'r) ro_prog \<Rightarrow> ('v, 'c) world \<Rightarrow> ('r attempt \<times> ('v, 'c) world) option" where
  "read_only_attempt nodes func w =
     (let version = get_clock (domain (w_shared w));
          tx = read_transaction version;
          td1 = td_access_lock version (w_td w);
          (result, td2) = call_ro tx func (w_shared w) td1;
          w2 = w\<lparr> w_td := td2 \<rparr>
      in case result of
           Inr r \<Rightarrow> map_option (Pair (Returned r)) (tx_success Read_only 0 nodes w2)
         | Inl Tx_retry \<Rightarrow> map_option (Pair Again) (tx_failure Read_only w2)
         | Inl Undefined_behaviour \<Rightarrow> None
         | Inl e \<Rightarrow> map_option (Pair (Raised e)) (unhandled_exception Read_only w2))"

fun read_only_slow_path ::
    "epoch_t list list \<Rightarrow> ('v shared \<Rightarrow> 'v shared) list \<Rightarrow> ('v, 'r) ro_prog \<Rightarrow> ('v, 'c) world
     \<Rightarrow> ((cxx_error + 'r) \<times> ('v, 'c) world) option" where
  "read_only_slow_path nodes [] func w = None"
| "read_only_slow_path nodes (others # rest) func w =
     (case read_only_attempt nodes func (w\<lparr> w_shared := others (w_shared w) \<rparr>) of
        None \<Rightarrow> None
      | Some (Returned r, w') \<Rightarrow> Some (Inr r, w')
      | Some (Raised e, w') \<Rightarrow> Some (Inl e, w')
      | Some (Again, w') \<Rightarrow> read_only_slow_path nodes rest func w')"

definition read_only ::
    "nat \<Rightarrow> epoch_t list list \<Rightarrow> ('v shared \<Rightarrow> 'v shared) list \<Rightarrow> ('v, 'r) ro_prog \<Rightarrow> ('v, 'c) world
     \<Rightarrow> ((cxx_error + 'r) \<times> ('v, 'c) world) option" where
  "read_only i nodes others func w =
     (case tx_state (w_td w) of
        Read_only \<Rightarrow>
          (let (result, td') = call_ro (read_transaction (td_epoch (w_td w))) func (w_shared w) (w_td w)
           in Some (result, w\<lparr> w_td := td' \<rparr>))
      | Read_write \<Rightarrow>
          (let (result, td') = call_ro (nested_read_transaction i (td_epoch (w_td w))) func (w_shared w) (w_td w)
           in Some (result, w\<lparr> w_td := td' \<rparr>))
      | None_kind \<Rightarrow> read_only_slow_path nodes others func (w\<lparr> w_td := set_read (w_td w) \<rparr>))"

text \<open>\<open>lstm::atomic\<close> takes a function on a \<open>transaction\<close>, or else one on a \<open>read_transaction\<close>.\<close>

definition atomic_fn ::
    "(var_ref \<Rightarrow> var_layout) \<Rightarrow> nat \<Rightarrow> epoch_t list list \<Rightarrow> ('v shared \<Rightarrow> 'v shared) list
     \<Rightarrow> ('v, 'c, 'r) tx_prog + ('v, 'r) ro_prog \<Rightarrow> ('v, 'c) world \<Rightarrow> ((cxx_error + 'r) \<times> ('v, 'c) world) option" where
  "atomic_fn lay i nodes others func w =
     (case func of Inl f \<Rightarrow> read_write lay i nodes others f w | Inr f \<Rightarrow> read_only i nodes others f w)"

text \<open>\<open>lstm::relative\<close>: a critical section without a transaction.\<close>

definition relative_slow_path ::
    "(('v, 'c) world \<Rightarrow> (cxx_error + 'r) \<times> ('v, 'c) world) \<Rightarrow> ('v, 'c) world \<Rightarrow> (cxx_error + 'r) \<times> ('v, 'c) world" where
  "relative_slow_path func w =
     (let w1 = w\<lparr> w_td := td_access_lock (get_clock (domain (w_shared w))) (w_td w) \<rparr>;
          (result, w2) = func w1
      in (result, w2\<lparr> w_td := td_access_unlock (w_td w2) \<rparr>))"

definition relative_fn ::
    "(('v, 'c) world \<Rightarrow> (cxx_error + 'r) \<times> ('v, 'c) world) \<Rightarrow> ('v, 'c) world \<Rightarrow> (cxx_error + 'r) \<times> ('v, 'c) world" where
  "relative_fn func w = (if in_critical_section (w_td w) then func w else relative_slow_path func w)"

end
