(* ===== verification/Atomic_Spec.thy ===== *)
theory Atomic_Spec
  imports Atomic_Fn
begin

text \<open>
  The specification of a transaction run alone, and the proof that \<^verbatim>\<open>Atomic_Fn\<close> meets it: the
  program runs on plain stores, one for the heap variables and one for the atomic ones, and an
  exception throws the changes away.

  The relation \<open>quiescent\<close> ties the shared state to the two stores and accounts for every block of
  memory: it is the value of exactly one heap variable, or it waits in exactly one callback of the
  queue. That it holds again after each outcome means that no value is lost, no object is leaked,
  and none is destroyed twice.
\<close>

section \<open>Specification\<close>

primrec exec ::
    "('v, 'c, 'r) tx_prog \<Rightarrow> (var_ref \<Rightarrow> 'v) \<Rightarrow> (var_ref \<Rightarrow> uword)
     \<Rightarrow> (cxx_error + 'r) \<times> (var_ref \<Rightarrow> 'v) \<times> (var_ref \<Rightarrow> uword)" where
  "exec (Return r) = (\<lambda>hs as. (Inr r, hs, as))"
| "exec Throw = (\<lambda>hs as. (Inl User_exception, hs, as))"
| "exec Retry = (\<lambda>hs as. (Inl Tx_retry, hs, as))"
| "exec (Get v k) = (\<lambda>hs as. exec (k (hs v)) hs as)"
| "exec (Untracked_Get v k) = (\<lambda>hs as. exec (k (hs v)) hs as)"
| "exec (Set v x p) = (\<lambda>hs as. exec p (hs(v := x)) as)"
| "exec (Get_Atomic v k) = (\<lambda>hs as. exec (k (as v)) hs as)"
| "exec (Set_Atomic v x p) = (\<lambda>hs as. exec p hs (as(v := x)))"
| "exec (After_Fail c p) = exec p"
| "exec (Sometime_Synchronized_After c p) = exec p"

text \<open>Heap variables are used as such, and at most \<open>n\<close> objects and callbacks are made on any path.\<close>

primrec well_typed :: "var_ref set \<Rightarrow> ('v, 'c, 'r) tx_prog \<Rightarrow> bool" where
  "well_typed H (Return r) \<longleftrightarrow> True"
| "well_typed H Throw \<longleftrightarrow> True"
| "well_typed H Retry \<longleftrightarrow> True"
| "well_typed H (Get v k) \<longleftrightarrow> v \<in> H \<and> (\<forall>x. well_typed H (k x))"
| "well_typed H (Untracked_Get v k) \<longleftrightarrow> v \<in> H \<and> (\<forall>x. well_typed H (k x))"
| "well_typed H (Set v x p) \<longleftrightarrow> v \<in> H \<and> well_typed H p"
| "well_typed H (Get_Atomic v k) \<longleftrightarrow> v \<notin> H \<and> (\<forall>x. well_typed H (k x))"
| "well_typed H (Set_Atomic v x p) \<longleftrightarrow> v \<notin> H \<and> well_typed H p"
| "well_typed H (After_Fail c p) \<longleftrightarrow> well_typed H p"
| "well_typed H (Sometime_Synchronized_After c p) \<longleftrightarrow> well_typed H p"

primrec fits :: "('v, 'c, 'r) tx_prog \<Rightarrow> nat \<Rightarrow> bool" where
  "fits (Return r) = (\<lambda>n. True)"
| "fits Throw = (\<lambda>n. True)"
| "fits Retry = (\<lambda>n. True)"
| "fits (Get v k) = (\<lambda>n. \<forall>x. fits (k x) n)"
| "fits (Untracked_Get v k) = (\<lambda>n. \<forall>x. fits (k x) n)"
| "fits (Set v x p) = (\<lambda>n. 0 < n \<and> fits p (n - 1))"
| "fits (Get_Atomic v k) = (\<lambda>n. \<forall>x. fits (k x) n)"
| "fits (Set_Atomic v x p) = fits p"
| "fits (After_Fail c p) = fits p"
| "fits (Sometime_Synchronized_After c p) = (\<lambda>n. 0 < n \<and> fits p (n - 1))"

section \<open>Accounting for memory\<close>

fun cb_objects :: "'c gp_callback list \<Rightarrow> uword list" where
  "cb_objects [] = []"
| "cb_objects (Destroy_Deallocate s # cbs) = s # cb_objects cbs"
| "cb_objects (_ # cbs) = cb_objects cbs"

definition simple_callbacks :: "'c gp_callback list \<Rightarrow> bool" where
  "simple_callbacks cbs \<longleftrightarrow> (\<forall>cb \<in> set cbs. (\<exists>s. cb = Destroy_Deallocate s) \<or> (\<exists>c. cb = User c))"

definition queued :: "(epoch_t \<times> 'c gp_callback list) list \<Rightarrow> 'c gp_callback list" where
  "queued chunks = concat (map snd chunks)"

text \<open>\<open>blocks_are P m\<close>: the allocated blocks are those of \<open>P\<close>, and each holds an object.\<close>

definition blocks_are :: "uword set \<Rightarrow> 'v memory \<Rightarrow> bool" where
  "blocks_are P m \<longleftrightarrow> mem_inv m \<and> (\<forall>p. mem_blocks m p \<noteq> None \<longleftrightarrow> p \<in> P) \<and> (\<forall>p. mem_blocks m p \<noteq> Some Raw)
     \<and> (\<forall>p n. mem_blocks m p \<noteq> Some (Raw_Array n))"

definition storages :: "var_ref set \<Rightarrow> 'v shared \<Rightarrow> uword set" where
  "storages H sh = (\<lambda>v. storage (vars sh v)) ` H"

definition quiescent ::
    "var_ref set \<Rightarrow> (var_ref \<Rightarrow> 'v) \<Rightarrow> (var_ref \<Rightarrow> uword) \<Rightarrow> 'v shared
     \<Rightarrow> (epoch_t \<times> 'c gp_callback list) list \<Rightarrow> bool" where
  "quiescent H hs as sh chunks \<longleftrightarrow>
     inj_on (\<lambda>v. storage (vars sh v)) H
     \<and> simple_callbacks (queued chunks) \<and> distinct (cb_objects (queued chunks))
     \<and> set (cb_objects (queued chunks)) \<inter> storages H sh = {}
     \<and> blocks_are (storages H sh \<union> set (cb_objects (queued chunks))) (heap sh)
     \<and> (\<forall>v \<in> H. mem_load (storage (vars sh v)) (heap sh) = Some (hs v))
     \<and> (\<forall>v. v \<notin> H \<longrightarrow> storage (vars sh v) = as v)"

text \<open>The new objects of a running transaction, and where it finds the value of a variable.\<close>

definition new_objects :: "var_ref set \<Rightarrow> 'c thread_data \<Rightarrow> uword set" where
  "new_objects H td = {p. \<exists>v \<in> H. hs_view (write_set td) v = Some p}"

definition tx_storage :: "'v shared \<Rightarrow> 'c thread_data \<Rightarrow> var_ref \<Rightarrow> var_storage" where
  "tx_storage sh td v = (case hs_view (write_set td) v of None \<Rightarrow> storage (vars sh v) | Some s \<Rightarrow> s)"

definition in_tx ::
    "var_ref set \<Rightarrow> (var_ref \<Rightarrow> 'v) \<Rightarrow> (var_ref \<Rightarrow> 'v) \<Rightarrow> (var_ref \<Rightarrow> uword) \<Rightarrow> 'v shared
     \<Rightarrow> (epoch_t \<times> 'c gp_callback list) list \<Rightarrow> 'c gp_callback list \<Rightarrow> 'c thread_data \<Rightarrow> bool" where
  "in_tx H hs0 hs as sh chunks working td \<longleftrightarrow>
     td_rep td chunks working
     \<and> inj_on (\<lambda>v. storage (vars sh v)) H
     \<and> simple_callbacks (queued chunks) \<and> simple_callbacks working
     \<and> simple_callbacks (pv_items (fail_callbacks td))
     \<and> distinct (cb_objects (queued chunks) @ cb_objects (pv_items (fail_callbacks td)))
     \<and> (set (cb_objects (queued chunks)) \<union> new_objects H td) \<inter> storages H sh = {}
     \<and> set (cb_objects (pv_items (fail_callbacks td))) = new_objects H td
     \<and> distinct (cb_objects working)
     \<and> set (cb_objects working) = storages (H \<inter> dom (hs_view (write_set td))) sh
     \<and> inj_on (hs_view (write_set td)) (H \<inter> dom (hs_view (write_set td)))
     \<and> blocks_are (storages H sh \<union> set (cb_objects (queued chunks)) \<union> new_objects H td) (heap sh)
     \<and> (\<forall>v \<in> H. mem_load (storage (vars sh v)) (heap sh) = Some (hs0 v))
     \<and> (\<forall>v \<in> H. mem_load (tx_storage sh td v) (heap sh) = Some (hs v))
     \<and> (\<forall>v. v \<notin> H \<longrightarrow> tx_storage sh td v = as v)"

lemma cb_objects_append [simp]: "cb_objects (xs @ ys) = cb_objects xs @ cb_objects ys"
  by (induction xs rule: cb_objects.induct) auto

lemma cb_objects_rev [simp]: "cb_objects (rev xs) = rev (cb_objects xs)"
  by (induction xs rule: cb_objects.induct) auto

lemma simple_callbacks_simps [simp]:
  "simple_callbacks []"
  "simple_callbacks (Destroy_Deallocate s # cbs) \<longleftrightarrow> simple_callbacks cbs"
  "simple_callbacks (User c # cbs) \<longleftrightarrow> simple_callbacks cbs"
  "simple_callbacks (xs @ ys) \<longleftrightarrow> simple_callbacks xs \<and> simple_callbacks ys"
  "simple_callbacks (rev xs) \<longleftrightarrow> simple_callbacks xs"
  by (auto simp: simple_callbacks_def)

lemma queued_snoc [simp]: "queued (chunks @ [(e, w)]) = queued chunks @ w"
  by (simp add: queued_def)

lemma blocks_are_object: "blocks_are P m \<Longrightarrow> p \<in> P \<Longrightarrow> \<exists>x. mem_blocks m p = Some (Object x)"
proof -
  assume b: "blocks_are P m" and p: "p \<in> P"
  then obtain x where x: "mem_blocks m p = Some x"
    unfolding blocks_are_def by blast
  with b show "\<exists>x. mem_blocks m p = Some (Object x)"
    unfolding blocks_are_def by (cases x) simp_all
qed

lemma mem_load_eq_Some: "mem_load p m = Some x \<longleftrightarrow> mem_blocks m p = Some (Object x)"
  by (auto simp: mem_load_def split: option.splits block.splits)

text \<open>Running callbacks that own distinct objects destroys exactly these.\<close>

lemma run_simple_callbacks:
  assumes "blocks_are P m" and "simple_callbacks cbs" and "distinct (cb_objects cbs)" and "set (cb_objects cbs) \<subseteq> P"
  obtains m' l' where "run_gp_callbacks cbs (m, l) = Some (m', l')"
    and "blocks_are (P - set (cb_objects cbs)) m'"
    and "\<And>p. p \<notin> set (cb_objects cbs) \<Longrightarrow> mem_blocks m' p = mem_blocks m p"
proof -
  have "\<exists>m' l'. run_gp_callbacks cbs (m, l) = Some (m', l') \<and> blocks_are (P - set (cb_objects cbs)) m'
      \<and> (\<forall>p. p \<notin> set (cb_objects cbs) \<longrightarrow> mem_blocks m' p = mem_blocks m p)"
    using assms
  proof (induction cbs arbitrary: P m l rule: cb_objects.induct)
    case (2 s cbs)
    obtain x where x: "mem_blocks m s = Some (Object x)"
      using blocks_are_object [OF "2.prems"(1), of s] "2.prems"(4) by auto
    let ?m = "m\<lparr> mem_blocks := (mem_blocks m)(s := None), mem_free := s # mem_free m \<rparr>"
    have run: "run_gp_callback (Destroy_Deallocate s) (m, l) = Some (?m, l)"
      by (simp add: run_gp_callback_def destroy_deallocate_object [OF x])
    have "blocks_are (P - {s}) ?m"
      using "2.prems"(1) destroy_deallocate_inv [OF _ destroy_deallocate_object [OF x]]
      by (auto simp: blocks_are_def)
    then obtain m' l' where "run_gp_callbacks cbs (?m, l) = Some (m', l')"
      "blocks_are (P - {s} - set (cb_objects cbs)) m'"
      "\<forall>p. p \<notin> set (cb_objects cbs) \<longrightarrow> mem_blocks m' p = mem_blocks ?m p"
      using "2.IH" [of "P - {s}" ?m l] "2.prems" by auto
    then show ?case using run by (auto simp: Diff_insert2 [symmetric])
  qed (auto simp: run_gp_callback_def simple_callbacks_def)
  then show thesis using that by blast
qed

section \<open>Steps of a running transaction\<close>

lemma in_tx_rep: "in_tx H hs0 hs as sh chunks working td \<Longrightarrow> td_rep td chunks working"
  by (simp add: in_tx_def)

text \<open>Only the write set and the failure callbacks matter, besides the queue.\<close>

lemma in_tx_cong:
  assumes "write_set td' = write_set td"
    and "cb_objects (pv_items (fail_callbacks td')) = cb_objects (pv_items (fail_callbacks td))"
    and "cb_objects working' = cb_objects working"
    and "simple_callbacks (pv_items (fail_callbacks td'))" and "simple_callbacks working'"
    and "td_rep td' chunks working'" and "in_tx H hs0 hs as sh chunks working td"
  shows "in_tx H hs0 hs as sh chunks working' td'"
proof -
  have eqs: "new_objects H td' = new_objects H td" "tx_storage sh td' = tx_storage sh td"
    by (simp_all add: new_objects_def tx_storage_def fun_eq_iff assms(1))
  show ?thesis
    using assms(4-7) unfolding in_tx_def eqs assms(1-3) by (elim conjE, intro conjI)
qed

lemma in_tx_simple:
  "in_tx H hs0 hs as sh chunks working td \<Longrightarrow> simple_callbacks (pv_items (fail_callbacks td)) \<and> simple_callbacks working"
  by (simp add: in_tx_def)

lemma in_tx_read_set:
  assumes "in_tx H hs0 hs as sh chunks working td" and "pv_inv rs"
  shows "in_tx H hs0 hs as sh chunks working (td\<lparr> read_set := rs \<rparr>)"
  using in_tx_rep [OF assms(1)] in_tx_simple [OF assms(1)] assms(2)
  by (intro in_tx_cong [OF _ _ _ _ _ _ assms(1)]) (simp_all add: td_rep_def)

lemma rw_read_base_tx_storage:
  assumes "td_rep td cs w" and "version_lock (vars sh v) \<le> version tx"
  obtains rs where "rw_read_base tx sh v td = (Inr (tx_storage sh td v), td\<lparr> read_set := rs \<rparr>)" and "pv_inv rs"
proof (cases "hs_view (write_set td) v")
  case None
  then show ?thesis
    using that [of "emplace_back v (read_set td)"] assms
    by (simp add: rw_read_base_view [OF assms(1)] tx_storage_def td_rep_def emplace_back_inv)
next
  case (Some s)
  then show ?thesis
    using that [of "read_set td"] assms by (simp add: rw_read_base_view [OF assms(1)] tx_storage_def td_rep_def)
qed

lemma in_tx_get:
  assumes "in_tx H hs0 hs as sh chunks working td" and "version_lock (vars sh v) \<le> version tx" and "v \<in> H"
  obtains td' where "rw_read tx sh v td = (Inr (hs v), td')" and "in_tx H hs0 hs as sh chunks working td'"
    and "synchronization_node td' = synchronization_node td" and "tx_state td' = tx_state td"
proof -
  obtain rs where "rw_read_base tx sh v td = (Inr (tx_storage sh td v), td\<lparr> read_set := rs \<rparr>)" "pv_inv rs"
    using rw_read_base_tx_storage [OF in_tx_rep [OF assms(1)] assms(2)] .
  moreover have "mem_load (tx_storage sh td v) (heap sh) = Some (hs v)"
    using assms(1,3) by (simp add: in_tx_def)
  ultimately show thesis
    using that [of "td\<lparr> read_set := rs \<rparr>"] in_tx_read_set [OF assms(1), of rs]
    by (simp add: rw_read_def load_result_def var_load_def)
qed

lemma in_tx_untracked_get:
  assumes "in_tx H hs0 hs as sh chunks working td" and "version_lock (vars sh v) \<le> version tx" and "v \<in> H"
  shows "rw_untracked_read tx sh v td = Inr (hs v)"
proof -
  have "mem_load (tx_storage sh td v) (heap sh) = Some (hs v)"
    using assms(1,3) by (simp add: in_tx_def)
  then show ?thesis
    using rw_untracked_read_base_view [OF in_tx_rep [OF assms(1)], of tx sh v] assms(2)
    by (simp add: rw_untracked_read_def load_result_def tx_storage_def var_load_def)
qed

lemma in_tx_get_atomic:
  assumes "in_tx H hs0 hs as sh chunks working td" and "version_lock (vars sh v) \<le> version tx" and "v \<notin> H"
  obtains td' where "rw_read_atomic tx sh v td = (Inr (as v), td')" and "in_tx H hs0 hs as sh chunks working td'"
    and "synchronization_node td' = synchronization_node td" and "tx_state td' = tx_state td"
proof -
  obtain rs where "rw_read_base tx sh v td = (Inr (tx_storage sh td v), td\<lparr> read_set := rs \<rparr>)" "pv_inv rs"
    using rw_read_base_tx_storage [OF in_tx_rep [OF assms(1)] assms(2)] .
  moreover have "tx_storage sh td v = as v"
    using assms(1,3) by (simp add: in_tx_def)
  ultimately show thesis
    using that [of "td\<lparr> read_set := rs \<rparr>"] in_tx_read_set [OF assms(1), of rs]
    by (simp add: rw_read_atomic_def atomic_load_def)
qed

lemma in_tx_set_atomic:
  assumes "in_tx H hs0 hs as sh chunks working td" and "version_lock (vars sh v) \<le> version tx" and "v \<notin> H"
  obtains td' where "rw_write_atomic tx sh v x td = (Inr (), td')"
    and "in_tx H hs0 hs (as(v := x)) sh chunks working td'"
    and "synchronization_node td' = synchronization_node td" and "tx_state td' = tx_state td"
proof -
  obtain r td' where w: "rw_atomic_write_base tx sh v x td = (r, td')" by fastforce
  note view = rw_atomic_write_base_view [OF in_tx_rep [OF assms(1)] w]
  obtain ws where td': "td' = td\<lparr> write_set := ws \<rparr>" using view(4) by blast
  have new: "new_objects H td' = new_objects H td"
    using assms(3) by (auto simp: new_objects_def view(2))
  have dom: "H \<inter> dom (hs_view (write_set td')) = H \<inter> dom (hs_view (write_set td))"
    using assms(3) by (auto simp: view(2))
  have st: "tx_storage sh td' u = (if u = v then x else tx_storage sh td u)" for u
    by (simp add: tx_storage_def view(2))
  have inj: "inj_on (hs_view (write_set td')) A = inj_on (hs_view (write_set td)) A" if "A \<subseteq> H" for A
    using that assms(3) by (intro inj_on_cong) (auto simp: view(2))
  have fails: "fail_callbacks td' = fail_callbacks td" by (simp add: td')
  have "in_tx H hs0 hs (as(v := x)) sh chunks working td'"
    using assms(1,3) view(1) unfolding in_tx_def new dom fails st inj [OF inf_le1] by auto
  then show thesis
    using that [of td'] w view(3) assms(2) td' by (simp add: rw_write_atomic_def atomic_allocate_construct_def)
qed

lemma in_tx_after_fail:
  assumes "in_tx H hs0 hs as sh chunks working td"
  shows "in_tx H hs0 hs as sh chunks working (td_after_fail (User c) td)"
  using in_tx_rep [OF assms] in_tx_simple [OF assms]
  by (intro in_tx_cong [OF _ _ _ _ _ _ assms])
    (simp_all add: td_after_fail_def td_rep_def vec_simps emplace_back_inv)

lemma in_tx_sometime:
  assumes "in_tx H hs0 hs as sh chunks working td" and "qb_room (succ_callbacks td)"
  shows "in_tx H hs0 hs as sh chunks (working @ [User c]) (td_sometime_synchronized_after (User c) td)"
  using tdq.rep_push [OF in_tx_rep [OF assms(1)] assms(2)] in_tx_simple [OF assms(1)]
  by (intro in_tx_cong [OF _ _ _ _ _ _ assms(1)]) (simp_all add: td_sometime_synchronized_after_def)

text \<open>The first write of a heap variable makes a new object.\<close>

lemma in_tx_set_first:
  assumes i: "in_tx H hs0 hs as sh chunks working td" and "version_lock (vars sh v) \<le> version tx" and v: "v \<in> H"
    and "var_object_hash l v = var_hash v" and "qb_room (succ_callbacks td)"
    and free: "mem_free (heap sh) = p # ps" and none: "hs_view (write_set td) v = None"
  obtains sh' td' where "rw_write l tx v (Some x) sh td = (Inr (), sh', td')"
    and "in_tx H hs0 (hs(v := x)) as sh' chunks (working @ [Destroy_Deallocate (storage (vars sh v))]) td'"
    and "vars sh' = vars sh" "domain sh' = domain sh" "mem_free (heap sh') = ps"
    and "synchronization_node td' = synchronization_node td" and "tx_state td' = tx_state td"
proof -
  let ?m = "(heap sh)\<lparr> mem_blocks := (mem_blocks (heap sh))(p := Some (Object x)), mem_free := ps \<rparr>"
  let ?sh = "sh\<lparr> heap := ?m \<rparr>"
  let ?P = "storages H sh \<union> set (cb_objects (queued chunks)) \<union> new_objects H td"
  have blocks: "blocks_are ?P (heap sh)" using i by (simp add: in_tx_def)
  then have inv: "mem_inv (heap sh)" by (simp add: blocks_are_def)
  have fresh: "p \<notin> ?P"
  proof -
    have "mem_blocks (heap sh) p = None" using inv free by (simp add: mem_inv_def)
    then show ?thesis using blocks unfolding blocks_are_def by metis
  qed
  obtain td' where w: "rw_write l tx v (Some x) sh td = (Inr (), ?sh, td')"
    and rep: "td_rep td' chunks (working @ [Destroy_Deallocate (storage (vars sh v))])"
    and view: "hs_view (write_set td') = (hs_view (write_set td))(v \<mapsto> p)"
    and fails: "pv_items (fail_callbacks td') = pv_items (fail_callbacks td) @ [Destroy_Deallocate p]"
    and rest: "tx_state td' = tx_state td" "synchronization_node td' = synchronization_node td"
    by (rule rw_write_first [OF in_tx_rep [OF i] assms(4,5) none assms(2) inv free])
  have new: "new_objects H td' = insert p (new_objects H td)"
    using v none unfolding new_objects_def view fun_upd_apply by (auto split: if_splits) (metis option.distinct(1))
  have st: "tx_storage ?sh td' u = (if u = v then p else tx_storage sh td u)" for u
    by (simp add: tx_storage_def view split: option.split)
  have storages: "storages A ?sh = storages A sh" for A by (simp add: storages_def)
  have dom: "storages (H \<inter> dom (hs_view (write_set td'))) sh
      = insert (storage (vars sh v)) (storages (H \<inter> dom (hs_view (write_set td))) sh)"
    using v by (auto simp: storages_def view)
  have "storage (vars sh v) \<notin> storages (H \<inter> dom (hs_view (write_set td))) sh"
    using i v none by (auto simp: in_tx_def storages_def inj_on_def dom_def)
  moreover have "inj_on (hs_view (write_set td')) (H \<inter> dom (hs_view (write_set td')))"
  proof (rule inj_onI)
    have inj: "inj_on (hs_view (write_set td)) (H \<inter> dom (hs_view (write_set td)))"
      using i by (simp add: in_tx_def)
    have other: "hs_view (write_set td) u \<noteq> Some p" if "u \<in> H" for u
      using that fresh by (auto simp: new_objects_def)
    fix a b assume "a \<in> H \<inter> dom (hs_view (write_set td'))" "b \<in> H \<inter> dom (hs_view (write_set td'))"
      and "hs_view (write_set td') a = hs_view (write_set td') b"
    then show "a = b"
      using other [of a] other [of b] inj_onD [OF inj, of a b] by (auto simp: view dom_def split: if_splits)
  qed
  moreover have "blocks_are (insert p ?P) ?m"
    using blocks free fresh by (auto simp: blocks_are_def mem_inv_def)
  moreover have "mem_load q ?m = mem_load q (heap sh)" if "q \<in> ?P" for q
    using that fresh by (auto simp: mem_load_def)
  moreover have "tx_storage sh td u \<in> ?P" if "u \<in> H" for u
    using that by (auto simp: tx_storage_def storages_def new_objects_def split: option.splits)
  moreover have "mem_load p ?m = Some x" by (simp add: mem_load_def)
  ultimately have "in_tx H hs0 (hs(v := x)) as ?sh chunks (working @ [Destroy_Deallocate (storage (vars sh v))]) td'"
    using i fresh rep unfolding in_tx_def new storages dom st fails
    by (auto simp: storages_def v)
  with w show thesis by (rule that) (simp_all add: rest)
qed

text \<open>A further write assigns to the new object, which no other variable uses.\<close>

lemma in_tx_set_again:
  assumes i: "in_tx H hs0 hs as sh chunks working td" and "version_lock (vars sh v) \<le> version tx" and v: "v \<in> H"
    and "var_object_hash l v = var_hash v" and some: "hs_view (write_set td) v = Some p"
  obtains sh' where "rw_write l tx v (Some x) sh td = (Inr (), sh', td)"
    and "in_tx H hs0 (hs(v := x)) as sh' chunks working td"
    and "vars sh' = vars sh" "domain sh' = domain sh" "mem_free (heap sh') = mem_free (heap sh)"
proof -
  let ?m = "(heap sh)\<lparr> mem_blocks := (mem_blocks (heap sh))(p := Some (Object x)) \<rparr>"
  let ?sh = "sh\<lparr> heap := ?m \<rparr>"
  let ?P = "storages H sh \<union> set (cb_objects (queued chunks)) \<union> new_objects H td"
  have blocks: "blocks_are ?P (heap sh)" using i by (simp add: in_tx_def)
  have p: "p \<in> new_objects H td" using some v by (auto simp: new_objects_def)
  then obtain y where y: "mem_blocks (heap sh) p = Some (Object y)"
    using blocks_are_object [OF blocks, of p] by auto
  have storages: "storages A ?sh = storages A sh" for A by (simp add: storages_def)
  have tx_st: "tx_storage ?sh td = tx_storage sh td"
    by (simp add: tx_storage_def fun_eq_iff split: option.split)
  have old: "mem_load (storage (vars sh u)) ?m = mem_load (storage (vars sh u)) (heap sh)" if "u \<in> H" for u
  proof -
    have "storage (vars sh u) \<noteq> p"
      using that i p by (auto simp: in_tx_def storages_def)
    then show ?thesis by (simp add: mem_load_def)
  qed
  have new: "mem_load (tx_storage sh td u) ?m = (if u = v then Some x else mem_load (tx_storage sh td u) (heap sh))"
    if "u \<in> H" for u
  proof (cases "u = v")
    case True
    then show ?thesis using some by (simp add: tx_storage_def mem_load_def)
  next
    case False
    have "tx_storage sh td u \<noteq> p"
    proof (cases "hs_view (write_set td) u")
      case None
      then show ?thesis
        using that i p by (auto simp: in_tx_def storages_def tx_storage_def)
    next
      case (Some q)
      have "inj_on (hs_view (write_set td)) (H \<inter> dom (hs_view (write_set td)))"
        using i by (simp add: in_tx_def)
      from inj_onD [OF this, of u v] have "hs_view (write_set td) u \<noteq> hs_view (write_set td) v"
        using that v Some some False by (auto simp: dom_def)
      then show ?thesis using Some some by (simp add: tx_storage_def)
    qed
    then show ?thesis using False by (simp add: mem_load_def)
  qed
  have "blocks_are ?P ?m"
    using blocks y by (auto simp: blocks_are_def mem_inv_def)
  then have "in_tx H hs0 (hs(v := x)) as ?sh chunks working td"
    using i old new unfolding in_tx_def storages tx_st by auto
  with rw_write_again [OF in_tx_rep [OF i] assms(4) some assms(2) y, of x] show thesis
    by (rule that) simp_all
qed

section \<open>The body\<close>

text \<open>Every access made from a state \<open>in_tx\<close> that the transaction's version covers does what \<open>exec\<close> says.\<close>

lemma call_rw_exec:
  assumes "in_tx H hs0 hs as sh chunks working td" and "well_typed H func" and "fits func n"
    and "n \<le> length (mem_free (heap sh))" and "queue_slots chunks working + n < 2 ^ 62"
    and "\<And>v. version_lock (vars sh v) \<le> version tx" and "\<And>v. var_object_hash (lay v) v = var_hash v"
  shows "\<exists>sh' td' working'. call_rw lay tx func sh td = (fst (exec func hs as), sh', td')
    \<and> in_tx H hs0 (fst (snd (exec func hs as))) (snd (snd (exec func hs as))) sh' chunks working' td'
    \<and> vars sh' = vars sh \<and> domain sh' = domain sh
    \<and> synchronization_node td' = synchronization_node td \<and> tx_state td' = tx_state td
    \<and> queue_slots chunks working' < 2 ^ 62"
  using assms(1-6)
proof (induction func arbitrary: hs as sh working td n)
  case (Get v k)
  obtain td' where "rw_read tx sh v td = (Inr (hs v), td')" "in_tx H hs0 hs as sh chunks working td'"
    "synchronization_node td' = synchronization_node td" "tx_state td' = tx_state td"
    using in_tx_get [OF Get.prems(1) Get.prems(6)] Get.prems(2) by auto
  then show ?case
    using Get.IH [of "k (hs v)" hs as sh working td' n] Get.prems by simp
next
  case (Untracked_Get v k)
  then have "rw_untracked_read tx sh v td = Inr (hs v)"
    using in_tx_untracked_get [OF Untracked_Get.prems(1) Untracked_Get.prems(6)] by simp
  then show ?case
    using Untracked_Get.IH [of "k (hs v)" hs as sh working td n] Untracked_Get.prems by simp
next
  case (Set v x p)
  have v: "v \<in> H" and n: "0 < n" "fits p (n - 1)" using Set.prems by simp_all
  show ?case
  proof (cases "hs_view (write_set td) v")
    case None
    obtain a ps where free: "mem_free (heap sh) = a # ps"
      using n(1) Set.prems(4) by (cases "mem_free (heap sh)") auto
    have "qb_room (succ_callbacks td)"
      using qb_room_slots Set.prems(5) in_tx_rep [OF Set.prems(1)] unfolding td_rep_def by force
    then obtain sh' td' where w: "rw_write (lay v) tx v (Some x) sh td = (Inr (), sh', td')"
      and i: "in_tx H hs0 (hs(v := x)) as sh' chunks (working @ [Destroy_Deallocate (storage (vars sh v))]) td'"
      and same: "vars sh' = vars sh" "domain sh' = domain sh" "mem_free (heap sh') = ps"
        "synchronization_node td' = synchronization_node td" "tx_state td' = tx_state td"
      using in_tx_set_first [OF Set.prems(1) Set.prems(6) v assms(7) _ free None] by metis
    have "\<exists>sh'' td'' working'. call_rw lay tx p sh' td' = (fst (exec p (hs(v := x)) as), sh'', td'')
        \<and> in_tx H hs0 (fst (snd (exec p (hs(v := x)) as))) (snd (snd (exec p (hs(v := x)) as))) sh'' chunks working' td''
        \<and> vars sh'' = vars sh' \<and> domain sh'' = domain sh'
        \<and> synchronization_node td'' = synchronization_node td' \<and> tx_state td'' = tx_state td'
        \<and> queue_slots chunks working' < 2 ^ 62"
      by (rule Set.IH [OF i _ n(2)]) (use Set.prems free same n(1) in auto)
    with w same show ?thesis by simp
  next
    case (Some a)
    obtain sh' where w: "rw_write (lay v) tx v (Some x) sh td = (Inr (), sh', td)"
      and i: "in_tx H hs0 (hs(v := x)) as sh' chunks working td"
      and same: "vars sh' = vars sh" "domain sh' = domain sh" "mem_free (heap sh') = mem_free (heap sh)"
      using in_tx_set_again [OF Set.prems(1) Set.prems(6) v assms(7) Some] by metis
    have "\<exists>sh'' td'' working'. call_rw lay tx p sh' td = (fst (exec p (hs(v := x)) as), sh'', td'')
        \<and> in_tx H hs0 (fst (snd (exec p (hs(v := x)) as))) (snd (snd (exec p (hs(v := x)) as))) sh'' chunks working' td''
        \<and> vars sh'' = vars sh' \<and> domain sh'' = domain sh'
        \<and> synchronization_node td'' = synchronization_node td \<and> tx_state td'' = tx_state td
        \<and> queue_slots chunks working' < 2 ^ 62"
      by (rule Set.IH [OF i _ n(2)]) (use Set.prems same n(1) in auto)
    with w same show ?thesis by simp
  qed
next
  case (Get_Atomic v k)
  obtain td' where "rw_read_atomic tx sh v td = (Inr (as v), td')" "in_tx H hs0 hs as sh chunks working td'"
    "synchronization_node td' = synchronization_node td" "tx_state td' = tx_state td"
    using in_tx_get_atomic [OF Get_Atomic.prems(1) Get_Atomic.prems(6)] Get_Atomic.prems(2) by auto
  then show ?case
    using Get_Atomic.IH [of "k (as v)" hs as sh working td' n] Get_Atomic.prems by simp
next
  case (Set_Atomic v x p)
  have v: "v \<notin> H" using Set_Atomic.prems(2) by simp
  obtain td' where w: "rw_write_atomic tx sh v x td = (Inr (), td')"
    and i: "in_tx H hs0 hs (as(v := x)) sh chunks working td'"
    and same: "synchronization_node td' = synchronization_node td" "tx_state td' = tx_state td"
    using in_tx_set_atomic [OF Set_Atomic.prems(1) Set_Atomic.prems(6) v] by metis
  have "\<exists>sh' td'' working'. call_rw lay tx p sh td' = (fst (exec p hs (as(v := x))), sh', td'')
      \<and> in_tx H hs0 (fst (snd (exec p hs (as(v := x))))) (snd (snd (exec p hs (as(v := x))))) sh' chunks working' td''
      \<and> vars sh' = vars sh \<and> domain sh' = domain sh
      \<and> synchronization_node td'' = synchronization_node td' \<and> tx_state td'' = tx_state td'
      \<and> queue_slots chunks working' < 2 ^ 62"
    by (rule Set_Atomic.IH [OF i]) (use Set_Atomic.prems in simp_all)
  with w same show ?case by simp
next
  case (After_Fail c p)
  have "\<exists>sh' td' working'. call_rw lay tx p sh (td_after_fail (User c) td) = (fst (exec p hs as), sh', td')
      \<and> in_tx H hs0 (fst (snd (exec p hs as))) (snd (snd (exec p hs as))) sh' chunks working' td'
      \<and> vars sh' = vars sh \<and> domain sh' = domain sh
      \<and> synchronization_node td' = synchronization_node (td_after_fail (User c) td)
      \<and> tx_state td' = tx_state (td_after_fail (User c) td) \<and> queue_slots chunks working' < 2 ^ 62"
    by (rule After_Fail.IH [OF in_tx_after_fail [OF After_Fail.prems(1)]]) (use After_Fail.prems in simp_all)
  then show ?case by (simp add: td_after_fail_def)
next
  case (Sometime_Synchronized_After c p)
  let ?td = "td_sometime_synchronized_after (User c) td"
  have n: "0 < n" "fits p (n - 1)" using Sometime_Synchronized_After.prems by simp_all
  have "qb_room (succ_callbacks td)"
    using qb_room_slots Sometime_Synchronized_After.prems(5) in_tx_rep [OF Sometime_Synchronized_After.prems(1)]
    unfolding td_rep_def by force
  note i = in_tx_sometime [OF Sometime_Synchronized_After.prems(1) this, of c]
  have "\<exists>sh' td' working'. call_rw lay tx p sh ?td = (fst (exec p hs as), sh', td')
      \<and> in_tx H hs0 (fst (snd (exec p hs as))) (snd (snd (exec p hs as))) sh' chunks working' td'
      \<and> vars sh' = vars sh \<and> domain sh' = domain sh
      \<and> synchronization_node td' = synchronization_node ?td \<and> tx_state td' = tx_state ?td
      \<and> queue_slots chunks working' < 2 ^ 62"
    by (rule Sometime_Synchronized_After.IH [OF i _ n(2)]) (use Sometime_Synchronized_After.prems n(1) in auto)
  then show ?case by (simp add: td_sometime_synchronized_after_def)
qed auto

end
