(* ===== verification/Atomic_Proof.thy ===== *)
theory Atomic_Proof
  imports Atomic_Spec
begin

text \<open>
  From the body of a transaction to its outcome: the state in which a call of \<open>lstm::atomic\<close> may
  start (\<open>ready\<close>), what the two ways an attempt ends do to it, and the theorems on a whole attempt.
\<close>

section \<open>The state between transactions\<close>

definition versions_ok :: "'v shared \<Rightarrow> bool" where
  "versions_ok sh \<longleftrightarrow> (\<forall>v. version_lock (vars sh v) \<le> clock (domain sh)) \<and> \<not> locked (clock (domain sh))"

definition epochs_ok :: "(epoch_t \<times> 'c gp_callback list) list \<Rightarrow> bool" where
  "epochs_ok chunks \<longleftrightarrow> (\<forall>c \<in> fst ` set chunks. c \<noteq> off_state)"

definition ready ::
    "tx_kind \<Rightarrow> var_ref set \<Rightarrow> (var_ref \<Rightarrow> 'v) \<Rightarrow> (var_ref \<Rightarrow> uword)
     \<Rightarrow> (epoch_t \<times> 'c gp_callback list) list \<Rightarrow> ('v, 'c) world \<Rightarrow> bool" where
  "ready kind H hs as chunks w \<longleftrightarrow>
     quiescent H hs as (w_shared w) chunks \<and> versions_ok (w_shared w) \<and> td_rep (w_td w) chunks []
     \<and> epochs_ok chunks \<and> valid_start_state (w_td w) \<and> \<not> in_critical_section (w_td w) \<and> tx_state (w_td w) = kind"

lemma valid_start_state_views:
  assumes "valid_start_state td" and "td_rep td chunks working"
  shows "pv_items (read_set td) = []" "hs_view (write_set td) = Map.empty" "pv_items (fail_callbacks td) = []"
proof -
  have "hs_items (write_set td) = []" using assms by (simp add: valid_start_state_def hs_empty_items)
  then show "hs_view (write_set td) = Map.empty" by (simp add: hs_view_def)
qed (use assms in \<open>simp_all add: valid_start_state_def pv_empty_items\<close>)

lemma valid_start_stateI:
  assumes "td_rep td chunks []" and "pv_items (read_set td) = []" and "hs_items (write_set td) = []"
    and "pv_items (fail_callbacks td) = []"
  shows "valid_start_state td"
  using assms working_epoch_empty_rep [of "succ_callbacks td" chunks "[]"]
  by (simp add: valid_start_state_def pv_empty_items hs_empty_items td_rep_def)

lemma begin_in_tx:
  assumes "ready kind H hs as chunks w"
  shows "in_tx H hs hs as (w_shared w) chunks [] (td_access_lock e (w_td w))"
proof -
  let ?td = "td_access_lock e (w_td w)"
  have rep: "td_rep ?td chunks []" and start: "valid_start_state ?td" and q: "quiescent H hs as (w_shared w) chunks"
    using assms by (simp_all add: ready_def td_rep_def valid_start_state_def td_access_lock_def)
  note views = valid_start_state_views [OF start rep]
  have "new_objects H ?td = {}" "tx_storage (w_shared w) ?td = (\<lambda>v. storage (vars (w_shared w) v))"
    by (simp_all add: new_objects_def tx_storage_def views fun_eq_iff)
  then show ?thesis
    using q rep by (simp add: in_tx_def quiescent_def views storages_def)
qed

section \<open>Abort\<close>

lemma in_tx_abort:
  assumes i: "in_tx H hs0 hs as sh chunks working td"
    and as0: "\<And>v. v \<notin> H \<Longrightarrow> storage (vars sh v) = as0 v"
  obtains m' l' where "run_gp_callbacks (rev (pv_items (fail_callbacks td))) (heap sh, l) = Some (m', l')"
    and "quiescent H hs0 as0 (sh\<lparr> heap := m' \<rparr>) chunks"
proof -
  let ?fails = "rev (pv_items (fail_callbacks td))"
  let ?P = "storages H sh \<union> set (cb_objects (queued chunks)) \<union> new_objects H td"
  have objs: "set (cb_objects ?fails) = new_objects H td" and dist: "distinct (cb_objects ?fails)"
    and disj: "new_objects H td \<inter> (storages H sh \<union> set (cb_objects (queued chunks))) = {}"
    and blocks: "blocks_are ?P (heap sh)" and simple: "simple_callbacks ?fails"
    using i by (auto simp: in_tx_def)
  obtain m' l' where run: "run_gp_callbacks ?fails (heap sh, l) = Some (m', l')"
    and blocks': "blocks_are (?P - set (cb_objects ?fails)) m'"
    and same: "\<And>p. p \<notin> set (cb_objects ?fails) \<Longrightarrow> mem_blocks m' p = mem_blocks (heap sh) p"
    using run_simple_callbacks [OF blocks simple dist, of l] objs by blast
  have "?P - set (cb_objects ?fails) = storages H sh \<union> set (cb_objects (queued chunks))"
    using disj unfolding objs by blast
  moreover have "mem_load (storage (vars sh v)) m' = mem_load (storage (vars sh v)) (heap sh)" if "v \<in> H" for v
  proof -
    have "storage (vars sh v) \<notin> new_objects H td"
      using disj that by (auto simp: storages_def)
    then show ?thesis using same unfolding objs by (simp add: mem_load_def)
  qed
  ultimately have "quiescent H hs0 as0 (sh\<lparr> heap := m' \<rparr>) chunks"
    using i as0 blocks' by (auto simp: in_tx_def quiescent_def storages_def)
  with run show thesis by (rule that)
qed

lemma tx_failure_no_backoff_ready:
  assumes i: "in_tx H hs0 hs as (w_shared w) chunks working (w_td w)"
    and as0: "\<And>v. v \<notin> H \<Longrightarrow> storage (vars (w_shared w) v) = as0 v"
    and "versions_ok (w_shared w)" and "epochs_ok chunks"
  obtains w' where "tx_failure_no_backoff Read_write w = Some w'"
    and "ready (tx_state (w_td w)) H hs0 as0 chunks w'"
    and "vars (w_shared w') = vars (w_shared w)" and "domain (w_shared w') = domain (w_shared w)"
proof -
  let ?td = "w_td w"
  let ?td3 = "clear_read_write_sets (td_access_unlock ?td)\<lparr> succ_callbacks := clear_working_epoch (succ_callbacks ?td) \<rparr>"
  let ?td4 = "snd (do_fail_callbacks ?td3)"
  have fails: "fail_callbacks ?td3 = fail_callbacks ?td" "succ_callbacks (clear_read_write_sets (td_access_unlock ?td)) = succ_callbacks ?td"
    by (simp_all add: clear_read_write_sets_def td_access_unlock_def)
  have rep: "td_rep ?td chunks working" using i by (rule in_tx_rep)
  have cbs: "fst (do_fail_callbacks ?td3) = rev (pv_items (fail_callbacks ?td))"
    using rep do_fail_callbacks_reverse(1) [of ?td3] by (simp add: fails td_rep_def)
  obtain m' l' where run: "run_gp_callbacks (rev (pv_items (fail_callbacks ?td))) (heap (w_shared w), w_log w) = Some (m', l')"
    and q: "quiescent H hs0 as0 ((w_shared w)\<lparr> heap := m' \<rparr>) chunks"
    by (rule in_tx_abort [OF i as0])
  let ?w' = "w\<lparr> w_td := ?td4, w_shared := (w_shared w)\<lparr> heap := m' \<rparr>, w_log := l' \<rparr>"
  have fail: "tx_failure_no_backoff Read_write w = Some ?w'"
    using run cbs by (cases "do_fail_callbacks ?td3") (simp add: tx_failure_no_backoff_def Let_def fails world_callbacks_def)
  have rep4: "td_rep ?td4 chunks []"
    using rep clear_working_epoch_rep [of "succ_callbacks ?td" chunks working]
    by (simp add: td_rep_def do_fail_callbacks_def clear_read_write_sets_def td_access_unlock_def
        pv_clear_refines hs_clear_refines)
  have "valid_start_state ?td4"
    by (rule valid_start_stateI [OF rep4])
      (simp_all add: do_fail_callbacks_def clear_read_write_sets_def pv_clear_refines hs_clear_refines)
  moreover have "\<not> in_critical_section ?td4" "tx_state ?td4 = tx_state ?td"
    by (simp_all add: in_critical_section_def node_in_critical_section_def do_fail_callbacks_def
        clear_read_write_sets_def td_access_unlock_def access_unlock_def)
  ultimately have "ready (tx_state ?td) H hs0 as0 chunks ?w'"
    using q rep4 assms(3,4) by (simp add: ready_def versions_ok_def)
  with fail show thesis by (rule that) simp_all
qed

section \<open>Commit\<close>

lemma quiescent_install:
  assumes i: "in_tx H hs0 hs as sh chunks working td"
    and st: "\<And>v. storage (vars sh' v) = tx_storage sh td v" and "heap sh' = heap sh"
    and chunks': "queued chunks' = queued chunks @ working"
  shows "quiescent H hs as sh' chunks'"
proof -
  let ?view = "hs_view (write_set td)"
  have old: "tx_storage sh td v = storage (vars sh v)" if "?view v = None" for v
    using that by (simp add: tx_storage_def)
  have new: "tx_storage sh td v = p" if "?view v = Some p" for v p
    using that by (simp add: tx_storage_def)
  have storages': "storages H sh' = storages (H - dom ?view) sh \<union> new_objects H td"
  proof (rule set_eqI)
    fix p
    have "tx_storage sh td v = p \<longleftrightarrow> ?view v = None \<and> storage (vars sh v) = p \<or> ?view v = Some p" for v
      by (cases "?view v") (auto simp: old new)
    then have "(\<exists>v \<in> H. tx_storage sh td v = p) \<longleftrightarrow>
        (\<exists>v \<in> H. ?view v = None \<and> storage (vars sh v) = p) \<or> (\<exists>v \<in> H. ?view v = Some p)"
      by blast
    moreover have "p \<in> f ` A \<longleftrightarrow> (\<exists>v \<in> A. f v = p)" for f :: "var_ref \<Rightarrow> uword" and A
      by blast
    ultimately show "p \<in> storages H sh' \<longleftrightarrow> p \<in> storages (H - dom ?view) sh \<union> new_objects H td"
      by (simp add: storages_def st new_objects_def dom_def Bex_def conj_assoc)
  qed
  have split: "storages H sh = storages (H - dom ?view) sh \<union> storages (H \<inter> dom ?view) sh"
    by (auto simp: storages_def)
  have inj: "inj_on (\<lambda>v. storage (vars sh v)) H" "inj_on ?view (H \<inter> dom ?view)"
    and disj: "(set (cb_objects (queued chunks)) \<union> new_objects H td) \<inter> storages H sh = {}"
      "set (cb_objects (queued chunks)) \<inter> new_objects H td = {}"
    and work: "set (cb_objects working) = storages (H \<inter> dom ?view) sh"
    using i by (auto simp: in_tx_def)
  have sep: "storages (H - dom ?view) sh \<inter> storages (H \<inter> dom ?view) sh = {}"
    using inj(1) by (auto simp: storages_def inj_on_def)
  have inj': "inj_on (\<lambda>v. storage (vars sh' v)) H"
    unfolding st
  proof (rule inj_onI)
    fix a b assume ab: "a \<in> H" "b \<in> H" and eq: "tx_storage sh td a = tx_storage sh td b"
    have no: "storage (vars sh u) \<noteq> p" if "u \<in> H" "v \<in> H" "?view v = Some p" for u v p
      using disj(1) that by (auto simp: storages_def new_objects_def)
    show "a = b"
    proof (cases "?view a"; cases "?view b")
      fix p q assume "?view a = Some p" "?view b = Some q"
      then show ?thesis using ab eq inj_onD [OF inj(2), of a b] by (simp add: new dom_def)
    qed (use ab eq no inj_onD [OF inj(1), of a b] in \<open>auto simp: old new\<close>)
  qed
  have "storages H sh \<union> set (cb_objects (queued chunks)) \<union> new_objects H td
      = storages H sh' \<union> set (cb_objects (queued chunks'))"
    unfolding storages' split chunks' using work by auto
  moreover have "set (cb_objects (queued chunks')) \<inter> storages H sh' = {}"
    unfolding storages' chunks' using disj sep work split by auto
  ultimately show ?thesis
    using i inj' work disj unfolding quiescent_def st assms(3) chunks'
    by (auto simp: in_tx_def storages_def)
qed

text \<open>A prefix of the queue may be run: its objects are no longer the value of any variable.\<close>

lemma quiescent_reclaim:
  assumes "quiescent H hs as sh (gone @ rest)"
  obtains m' l' where "run_gp_callbacks (queued gone) (heap sh, l) = Some (m', l')"
    and "quiescent H hs as (sh\<lparr> heap := m' \<rparr>) rest"
proof -
  let ?Q = "cb_objects (queued gone)" and ?R = "cb_objects (queued rest)"
  let ?P = "storages H sh \<union> set (?Q @ ?R)"
  have q: "queued (gone @ rest) = queued gone @ queued rest" by (simp add: queued_def)
  have blocks: "blocks_are ?P (heap sh)" and simple: "simple_callbacks (queued gone)"
    and dist: "distinct (?Q @ ?R)" and disj: "set (?Q @ ?R) \<inter> storages H sh = {}"
    using assms unfolding quiescent_def q by auto
  obtain m' l' where run: "run_gp_callbacks (queued gone) (heap sh, l) = Some (m', l')"
    and blocks': "blocks_are (?P - set ?Q) m'"
    and same: "\<And>p. p \<notin> set ?Q \<Longrightarrow> mem_blocks m' p = mem_blocks (heap sh) p"
    using run_simple_callbacks [OF blocks simple, of l] dist by auto
  have "?P - set ?Q = storages H sh \<union> set ?R" using dist disj by auto
  moreover have "mem_load (storage (vars sh v)) m' = mem_load (storage (vars sh v)) (heap sh)" if "v \<in> H" for v
  proof -
    have "storage (vars sh v) \<notin> set ?Q"
      using disj that by (auto simp: storages_def)
    then show ?thesis using same by (simp add: mem_load_def)
  qed
  ultimately have "quiescent H hs as (sh\<lparr> heap := m' \<rparr>) rest"
    using assms blocks' unfolding quiescent_def q by (auto simp: storages_def)
  with run show thesis by (rule that)
qed

definition close_chunk :: "epoch_t \<Rightarrow> 'c gp_callback list \<Rightarrow> (epoch_t \<times> 'c gp_callback list) list" where
  "close_chunk e working = (if working = [] then [] else [(e, working)])"

lemma queued_close_chunk [simp]: "queued (chunks @ close_chunk e working) = queued chunks @ working"
  by (simp add: close_chunk_def queued_def)

lemma tx_success_ready:
  assumes rep: "td_rep (w_td w) chunks working" and slots: "queue_slots chunks working < 2 ^ 62"
    and q: "quiescent H hs as (w_shared w) (chunks @ close_chunk e working)"
    and "versions_ok (w_shared w)" and epochs: "epochs_ok chunks" "e \<noteq> off_state"
    and sync: "\<And>c. c \<noteq> off_state \<Longrightarrow> synchronize_min_epoch c nodes \<noteq> None"
  obtains w' chunks' where "tx_success Read_write e nodes w = Some w'"
    and "ready None_kind H hs as chunks' w'"
    and "vars (w_shared w') = vars (w_shared w)" and "domain (w_shared w') = domain (w_shared w)"
proof -
  let ?td3 = "clear_read_write_sets ((td_access_unlock (w_td w))\<lparr> tx_state := None_kind \<rparr>)"
  let ?td4 = "?td3\<lparr> fail_callbacks := pv_clear (fail_callbacks ?td3) \<rparr>"
  have succ: "succ_callbacks ?td4 = succ_callbacks (w_td w)"
    by (simp add: clear_read_write_sets_def td_access_unlock_def)
  have rep4: "td_rep ?td4 chunks working"
    using rep by (simp add: td_rep_def clear_read_write_sets_def td_access_unlock_def pv_clear_refines hs_clear_refines)
  have room: "qb_room (succ_callbacks ?td4)"
    using qb_room_slots [OF _ slots] rep unfolding succ td_rep_def by blast
  have ep: "\<forall>c \<in> fst ` set chunks \<union> {e}. c \<noteq> off_state"
    using epochs by (simp add: epochs_ok_def)
  obtain gone rest td5 where split: "chunks @ close_chunk e working = gone @ rest"
    and rec: "reclaim e nodes ?td4 = Some (concat (map snd gone), td5)" and rep5: "td_rep td5 rest []"
    and frame: "td5 = ?td4\<lparr> succ_callbacks := succ_callbacks td5 \<rparr>"
    unfolding close_chunk_def by (rule reclaim_rep [OF rep4 room sync ep]) blast
  have "set rest \<subseteq> set (chunks @ close_chunk e working)" unfolding split by simp
  then have ep': "epochs_ok rest"
    using ep by (auto simp: epochs_ok_def close_chunk_def split: if_splits)
  obtain m' l' where run: "run_gp_callbacks (queued gone) (heap (w_shared w), w_log w) = Some (m', l')"
    and q': "quiescent H hs as ((w_shared w)\<lparr> heap := m' \<rparr>) rest"
    by (rule quiescent_reclaim [OF q [unfolded split]])
  let ?w' = "w\<lparr> w_td := td5, w_shared := (w_shared w)\<lparr> heap := m' \<rparr>, w_log := l' \<rparr>"
  have "tx_success Read_write e nodes w = Some ?w'"
    using rec run by (simp add: tx_success_def Let_def world_callbacks_def queued_def)
  moreover have start: "valid_start_state td5"
    by (rule valid_start_stateI [OF rep5]; subst frame)
      (simp_all add: clear_read_write_sets_def pv_clear_refines hs_clear_refines)
  moreover have "\<not> in_critical_section td5" "tx_state td5 = None_kind"
    by (subst frame, simp add: clear_read_write_sets_def td_access_unlock_def access_unlock_def
        in_critical_section_def node_in_critical_section_def)+
  ultimately have "ready None_kind H hs as rest ?w'"
    using q' rep5 assms(4) ep' by (simp add: ready_def versions_ok_def)
  with \<open>tx_success Read_write e nodes w = Some ?w'\<close> show thesis by (rule that) simp_all
qed

text \<open>In a quiet state the commit succeeds and installs the write set.\<close>

lemma try_commit_quiet:
  assumes i: "in_tx H hs0 hs as sh chunks working td" and ok: "versions_ok sh"
    and v: "version tx = clock (domain sh)" and b: "bump_assert (clock (domain sh))"
  obtains e rs sh' where "try_commit tx td sh = (e, td\<lparr> read_set := rs \<rparr>, sh')" and "pv_inv rs"
    and "e \<noteq> commit_failed" and "versions_ok sh'" and "\<And>v. storage (vars sh' v) = tx_storage sh td v"
    and "heap sh' = heap sh"
proof (cases "hs_empty (write_set td)")
  case True
  then have "hs_view (write_set td) = Map.empty" by (simp add: hs_empty_items hs_view_def)
  then have "storage (vars sh v) = tx_storage sh td v" for v by (simp add: tx_storage_def)
  moreover have "(0 :: epoch_t) \<noteq> commit_failed" by (simp add: unlocked_not_failed)
  ultimately show ?thesis
    using that [of 0 "read_set td" sh] True ok in_tx_rep [OF i] by (simp add: try_commit_def td_rep_def)
next
  case False
  let ?n = "clock (domain sh) + bump_size"
  let ?sh = "(install_vars ?n (hs_view (write_set td)) sh)\<lparr> domain := snd (fetch_and_bump_clock (domain sh)) \<rparr>"
  have valid: "commit_valid tx td sh"
    using ok v by (simp add: commit_valid_def versions_ok_def)
  have unlocked: "\<not> locked (version tx)" using ok v by (simp add: versions_ok_def)
  obtain rs where rs: "pv_inv rs" "slow_path tx td sh = (clock (domain sh), td\<lparr> read_set := rs \<rparr>, ?sh)"
    using slow_path_eq [OF in_tx_rep [OF i] unlocked] valid by metis
  have "version_lock (vars ?sh v) \<le> ?n" for v
    using ok bump_facts(1) [OF b]
    by (auto simp: install_vars_def versions_ok_def split: option.split intro: order_trans less_imp_le)
  then have "versions_ok ?sh"
    using bump_facts(2) [OF b] by (simp add: versions_ok_def fetch_and_bump_clock_def)
  moreover have "storage (vars ?sh v) = tx_storage sh td v" for v
    by (simp add: install_vars_def tx_storage_def split: option.split)
  moreover have "clock (domain sh) \<noteq> commit_failed"
    using unlocked_not_failed [OF bump_facts(3) [OF b]] .
  ultimately show ?thesis
    using that [of "clock (domain sh)" rs ?sh] rs False by (simp add: try_commit_def install_vars_def)
qed

section \<open>A whole attempt\<close>

lemma exec_errors: "fst (exec func hs as) = Inl e \<Longrightarrow> e = User_exception \<or> e = Tx_retry"
  by (induction func arbitrary: hs as) (auto, (metis rangeI)+)

lemma read_write_attempt_exec:
  assumes r: "ready Read_write H hs as chunks w" and "well_typed H func" and "fits func n"
    and "n \<le> length (mem_free (heap (w_shared w)))" and "queue_slots chunks [] + n < 2 ^ 62"
    and b: "bump_assert (clock (domain (w_shared w)))" and "\<And>v. var_object_hash (lay v) v = var_hash v"
    and sync: "\<And>c. c \<noteq> off_state \<Longrightarrow> synchronize_min_epoch c nodes \<noteq> None"
  obtains w' chunks' where
    "read_write_attempt lay i nodes func w =
       Some (case fst (exec func hs as) of Inr r \<Rightarrow> Returned r | Inl e \<Rightarrow> if e = Tx_retry then Again else Raised e, w')"
    and "case fst (exec func hs as) of
        Inr r \<Rightarrow> ready None_kind H (fst (snd (exec func hs as))) (snd (snd (exec func hs as))) chunks' w'
      | Inl e \<Rightarrow> ready (if e = Tx_retry then Read_write else None_kind) H hs as chunks w'
          \<and> vars (w_shared w') = vars (w_shared w) \<and> domain (w_shared w') = domain (w_shared w)"
proof -
  let ?sh = "w_shared w" and ?v = "get_clock (domain (w_shared w))" and ?td1 = "td_access_lock (get_clock (domain (w_shared w))) (w_td w)"
  let ?tx = "transaction i ?v"
  let ?hs' = "fst (snd (exec func hs as))" and ?as' = "snd (snd (exec func hs as))"
  have ok: "versions_ok ?sh" and ep: "epochs_ok chunks" using r by (simp_all add: ready_def)
  have le: "version_lock (vars ?sh v) \<le> version ?tx" for v
    using ok by (simp add: versions_ok_def transaction_def get_clock_def)
  obtain sh2 td2 working where call: "call_rw lay ?tx func ?sh ?td1 = (fst (exec func hs as), sh2, td2)"
    and i: "in_tx H hs ?hs' ?as' sh2 chunks working td2"
    and same: "vars sh2 = vars ?sh" "domain sh2 = domain ?sh" "tx_state td2 = tx_state ?td1"
    and slots: "queue_slots chunks working < 2 ^ 62"
    using call_rw_exec [OF begin_in_tx [OF r] assms(2-5) le assms(7), of ?v] by blast
  have kind: "tx_state td2 = Read_write"
    using r same(3) by (simp add: ready_def td_access_lock_def)
  have ok2: "versions_ok sh2" using ok same by (simp add: versions_ok_def)
  have as0: "storage (vars sh2 v) = as v" if "v \<notin> H" for v
    using r that by (simp add: ready_def quiescent_def same)
  let ?w2 = "w\<lparr> w_shared := sh2, w_td := td2 \<rparr>"
  show thesis
  proof (cases "fst (exec func hs as)")
    case (Inl e)
    obtain w' where w': "tx_failure_no_backoff Read_write ?w2 = Some w'" "ready Read_write H hs as chunks w'"
      "vars (w_shared w') = vars sh2" "domain (w_shared w') = domain sh2"
      by (rule tx_failure_no_backoff_ready [of H hs ?hs' ?as' ?w2 chunks working as])
        (use i as0 ok2 kind ep in simp_all)
    have e: "e = User_exception \<or> e = Tx_retry" using exec_errors [OF Inl] .
    let ?w'' = "w'\<lparr> w_td := (w_td w')\<lparr> tx_state := None_kind \<rparr> \<rparr>"
    have "ready None_kind H hs as chunks ?w''"
      using w'(2) by (simp add: ready_def td_rep_def valid_start_state_def in_critical_section_def)
    then show thesis
      using that [of "if e = Tx_retry then w' else ?w''" chunks] w' e same
      by (auto simp: read_write_attempt_def Let_def call Inl tx_failure_def unhandled_exception_def)
  next
    case (Inr r)
    obtain e rs sh3 where tc: "try_commit ?tx td2 sh2 = (e, td2\<lparr> read_set := rs \<rparr>, sh3)" "pv_inv rs"
      and e: "e \<noteq> commit_failed" and sh3: "versions_ok sh3" "\<And>v. storage (vars sh3 v) = tx_storage sh2 td2 v"
        "heap sh3 = heap sh2"
      by (rule try_commit_quiet [OF i ok2, of ?tx]) (use b same in \<open>simp_all add: transaction_def get_clock_def\<close>)
    let ?w3 = "?w2\<lparr> w_shared := sh3, w_td := td2\<lparr> read_set := rs \<rparr> \<rparr>"
    have q: "quiescent H ?hs' ?as' sh3 (chunks @ close_chunk e working)"
      by (rule quiescent_install [OF i sh3(2,3)]) simp
    obtain w' chunks' where "tx_success Read_write e nodes ?w3 = Some w'" "ready None_kind H ?hs' ?as' chunks' w'"
      by (rule tx_success_ready [of ?w3 chunks working H ?hs' ?as' e nodes])
        (use in_tx_rep [OF in_tx_read_set [OF i tc(2)]] slots q sh3(1) sync ep e in \<open>simp_all add: commit_failed_def\<close>)
    then show thesis
      using that [of w' chunks'] e by (simp add: read_write_attempt_def Let_def call Inr tc(1))
  qed
qed

section \<open>Read-only transactions\<close>





section \<open>Properties\<close>

text \<open>C11: A transaction that runs undisturbed commits at its first attempt and does what the program
  does on a plain store: its result and the values of all variables afterwards are those of \<open>exec\<close>.
  When the program throws, the exception comes out and every variable is as it was. Either way the
  thread is idle again, and every allocated block is the value of exactly one variable or waits in
  exactly one queued callback: nothing leaks and nothing is freed early.\<close>

theorem read_write_solo:
  assumes "ready None_kind H hs as chunks w" and "well_typed H func" and "fits func n"
    and "n \<le> length (mem_free (heap (w_shared w)))" and "queue_slots chunks [] + n < 2 ^ 62"
    and "bump_assert (clock (domain (w_shared w)))" and "\<And>v. var_object_hash (lay v) v = var_hash v"
    and "\<And>c. c \<noteq> off_state \<Longrightarrow> synchronize_min_epoch c nodes \<noteq> None"
    and "fst (exec func hs as) \<noteq> Inl Tx_retry"
  shows "\<exists>w' chunks'. read_write lay i nodes (id # others) func w = Some (fst (exec func hs as), w')
    \<and> (case fst (exec func hs as) of
        Inr r \<Rightarrow> ready None_kind H (fst (snd (exec func hs as))) (snd (snd (exec func hs as))) chunks' w'
      | Inl e \<Rightarrow> ready None_kind H hs as chunks w'
          \<and> vars (w_shared w') = vars (w_shared w) \<and> domain (w_shared w') = domain (w_shared w))"
proof -
  let ?w = "w\<lparr> w_td := set_rw (w_td w) \<rparr>"
  have r: "ready Read_write H hs as chunks ?w"
    using assms(1) by (simp add: ready_def set_rw_def td_rep_def valid_start_state_def in_critical_section_def)
  have idle: "\<not> in_transaction (w_td w)" using assms(1) by (simp add: ready_def in_transaction_def)
  obtain w' chunks' where att: "read_write_attempt lay i nodes func ?w =
       Some (case fst (exec func hs as) of Inr r \<Rightarrow> Returned r | Inl e \<Rightarrow> if e = Tx_retry then Again else Raised e, w')"
    and post: "case fst (exec func hs as) of
        Inr r \<Rightarrow> ready None_kind H (fst (snd (exec func hs as))) (snd (snd (exec func hs as))) chunks' w'
      | Inl e \<Rightarrow> ready (if e = Tx_retry then Read_write else None_kind) H hs as chunks w'
          \<and> vars (w_shared w') = vars (w_shared ?w) \<and> domain (w_shared w') = domain (w_shared ?w)"
    by (rule read_write_attempt_exec [OF r assms(2,3) _ assms(5) _ assms(7,8)]) (use assms(4,6) in auto)
  have "?w\<lparr> w_shared := id (w_shared ?w) \<rparr> = ?w" by simp
  then have "read_write lay i nodes (id # others) func w = Some (fst (exec func hs as), w')"
    using att assms(9) idle by (auto simp: read_write_def split: sum.splits)
  then show ?thesis using post assms(9) by (auto split: sum.splits)
qed

text \<open>Variable 16 holds an object of value 5 at address 4096, every other variable is atomic and 0.\<close>

definition demo_world :: "(nat, char) world" where
  "demo_world = \<lparr> w_shared = \<lparr> vars = (\<lambda>v. \<lparr> version_lock = 0, storage = if v = 16 then 4096 else 0 \<rparr>),
       heap = \<lparr> mem_blocks = [4096 \<mapsto> Object 5], mem_free = [8192, 12288] \<rparr>, domain = new_domain \<rparr>,
     w_td = new_thread_data, w_log = [] \<rparr>"

definition demo_tx :: "(nat, char, nat) tx_prog" where
  "demo_tx = Get 16 (\<lambda>x. Set 16 (x + 1) (Set 16 (x + 2) (Set_Atomic 64 9 (Get_Atomic 64 (\<lambda>y. Get 16 (\<lambda>z. Return z))))))"

lemma demo_ready: "ready None_kind {16} (\<lambda>_. 5) (\<lambda>_. 0) [] demo_world"
  by (auto simp: ready_def quiescent_def demo_world_def queued_def blocks_are_def mem_inv_def storages_def mem_load_def
      versions_ok_def new_domain_def new_thread_data_rep epochs_ok_def)
    (simp_all add: new_thread_data_def valid_start_state_def pv_empty_def pv_new_def hs_empty_def hs_new_def
      working_epoch_empty_def working_epoch_size_def qb_new_def qb_wrap_def qb_capacity_def ReclaimLimit_def
      in_critical_section_def node_in_critical_section_def new_node_def)

theorem read_write_solo_witness:
  "\<exists>w' chunks'. read_write (\<lambda>_. empty_alloc_layout) 0 [] [id] demo_tx demo_world = Some (Inr 7, w')
     \<and> ready None_kind {16} ((\<lambda>_. 5)(16 := 7)) ((\<lambda>_. 0)(64 := 9)) chunks' w'"
proof -
  have e: "exec demo_tx (\<lambda>_. 5) (\<lambda>_. 0) = (Inr 7, (\<lambda>_. 5)(16 := 7), (\<lambda>_. 0)(64 := 9))"
    by (simp add: demo_tx_def)
  have "well_typed {16} demo_tx" "fits demo_tx 2" by (simp_all add: demo_tx_def)
  moreover have "2 \<le> length (mem_free (heap (w_shared demo_world)))" by (simp add: demo_world_def)
  moreover have "queue_slots ([] :: (epoch_t \<times> char gp_callback list) list) [] + 2 < 2 ^ 62" by (simp add: queue_slots_def)
  moreover have "bump_assert (clock (domain (w_shared demo_world)))"
    by (simp add: demo_world_def new_domain_def bump_assert_def max_version_val lock_bit_val bump_size_def)
  moreover have "synchronize_min_epoch c [] \<noteq> None" for c
    by (simp add: synchronize_min_epoch_def wait_min_epoch_def)
  ultimately show ?thesis
    using read_write_solo [OF demo_ready, where func = demo_tx and n = 2 and lay = "\<lambda>_. empty_alloc_layout"
        and nodes = "[]" and others = "[]" and i = 0]
    by (simp add: e)
qed



text \<open>C14: An attempt that calls \<open>lstm::retry\<close> leaves no trace: the variables, the clock and every value
  are as before, the objects the attempt made are destroyed, and the loop starts another attempt.\<close>

theorem retry_leaves_no_trace:
  assumes "ready Read_write H hs as chunks w" and "well_typed H func" and "fits func n"
    and "n \<le> length (mem_free (heap (w_shared w)))" and "queue_slots chunks [] + n < 2 ^ 62"
    and "bump_assert (clock (domain (w_shared w)))" and "\<And>v. var_object_hash (lay v) v = var_hash v"
    and "\<And>c. c \<noteq> off_state \<Longrightarrow> synchronize_min_epoch c nodes \<noteq> None"
    and "fst (exec func hs as) = Inl Tx_retry"
  shows "\<exists>w'. read_write_slow_path lay i nodes (id # others) func w = read_write_slow_path lay i nodes others func w'
    \<and> ready Read_write H hs as chunks w'
    \<and> vars (w_shared w') = vars (w_shared w) \<and> domain (w_shared w') = domain (w_shared w)"
proof -
  obtain w' chunks' where "read_write_attempt lay i nodes func w = Some (Again, w')"
    "ready Read_write H hs as chunks w'" "vars (w_shared w') = vars (w_shared w)" "domain (w_shared w') = domain (w_shared w)"
    by (rule read_write_attempt_exec [OF assms(1-8)]) (use assms(9) in auto)
  moreover have "w\<lparr> w_shared := id (w_shared w) \<rparr> = w" by simp
  ultimately show ?thesis by auto
qed

theorem retry_leaves_no_trace_witness:
  "\<exists>w'. read_write_slow_path (\<lambda>_. empty_alloc_layout) 0 [] [id] (Set 16 8 Retry)
       (demo_world\<lparr> w_td := set_rw new_thread_data \<rparr>) =
       read_write_slow_path (\<lambda>_. empty_alloc_layout) 0 [] [] (Set 16 8 (Retry :: (nat, char, nat) tx_prog)) w'
     \<and> ready Read_write {16} (\<lambda>_. 5) (\<lambda>_. 0) [] w'"
proof -
  let ?w = "demo_world\<lparr> w_td := set_rw new_thread_data \<rparr>" and ?f = "Set 16 8 (Retry :: (nat, char, nat) tx_prog)"
  have "w_td demo_world = new_thread_data" by (simp add: demo_world_def)
  then have r: "ready Read_write {16} (\<lambda>_. 5) (\<lambda>_. 0) [] ?w"
    using demo_ready by (simp add: ready_def set_rw_def td_rep_def valid_start_state_def in_critical_section_def)
  have "well_typed {16} ?f" "fits ?f 1" "fst (exec ?f (\<lambda>_. 5) (\<lambda>_. 0)) = Inl Tx_retry" by simp_all
  moreover have "1 \<le> length (mem_free (heap (w_shared ?w)))" by (simp add: demo_world_def)
  moreover have "queue_slots ([] :: (epoch_t \<times> char gp_callback list) list) [] + 1 < 2 ^ 62" by (simp add: queue_slots_def)
  moreover have "bump_assert (clock (domain (w_shared ?w)))"
    by (simp add: demo_world_def new_domain_def bump_assert_def max_version_val lock_bit_val bump_size_def)
  moreover have "synchronize_min_epoch c [] \<noteq> None" for c
    by (simp add: synchronize_min_epoch_def wait_min_epoch_def)
  ultimately show ?thesis
    using retry_leaves_no_trace [OF r, where func = ?f and n = 1 and lay = "\<lambda>_. empty_alloc_layout"
        and nodes = "[]" and others = "[]" and i = 0]
    by (simp only: empty_alloc_hash) blast
qed

end
