(* ===== verification/Stm_System.thy ===== *)
theory Stm_System
  imports Commit_Algorithm
begin

text \<open>
  Concurrent transactions: the same code as in \<^verbatim>\<open>Transaction_Base\<close>, \<^verbatim>\<open>Commit_Algorithm\<close> and
  \<^verbatim>\<open>Atomic_Fn\<close>, cut at every access to shared memory, for any number of threads.

  One step of one thread makes at most one access to the clock, to a version lock or to a storage
  word; computations on the thread's own data are part of the step before or after. Accesses are
  sequentially consistent, which is the program built with \<^verbatim>\<open>LSTM_ALWAYS_SEQ_CST\<close>. A transaction is
  a program over atomic variables, whose value is the storage word; a heap variable behaves the same
  way with the address of its object as the word. The callbacks that free replaced objects are added in \<^verbatim>\<open>Stm_Reclaim\<close>.

  The state also carries ghost fields, which no step reads except to update ghost fields: what has
  been committed (\<open>committed\<close>, \<open>committed_version\<close>), who holds which lock (\<open>owner\<close>), and the log of
  committed transactions. A transaction draws a ticket when it loads the clock, and a writing
  transaction draws another when it has taken its last lock; the log is indexed by tickets. A
  read-only transaction, or one that has written nothing, enters the log under its first ticket, any
  other one under its second.
\<close>

section \<open>Programs\<close>

datatype 'r stm_prog =
    P_Return 'r
  | P_Throw
  | P_Retry
  | P_Get var_ref "var_storage \<Rightarrow> 'r stm_prog"
  | P_Set var_ref var_storage "'r stm_prog"

type_synonym store = "var_ref \<Rightarrow> var_storage"

text \<open>The specification of a transaction: the program run on a store nobody else uses.\<close>

primrec p_exec :: "'r stm_prog \<Rightarrow> store \<Rightarrow> (cxx_error + 'r) \<times> store" where
  "p_exec (P_Return r) = (\<lambda>st. (Inr r, st))"
| "p_exec P_Throw = (\<lambda>st. (Inl User_exception, st))"
| "p_exec P_Retry = (\<lambda>st. (Inl Tx_retry, st))"
| "p_exec (P_Get v k) = (\<lambda>st. p_exec (k (st v)) st)"
| "p_exec (P_Set v x p) = (\<lambda>st. p_exec p (st(v := x)))"

text \<open>The store \<open>st\<close> under the pending writes \<open>m\<close>.\<close>

definition overlay :: "store \<Rightarrow> (var_ref \<rightharpoonup> var_storage) \<Rightarrow> store" where
  "overlay st m = (\<lambda>v. case m v of None \<Rightarrow> st v | Some x \<Rightarrow> x)"

section \<open>State\<close>

text \<open>The next access of a thread. Iterators of the read and write sets are offsets, as before.\<close>

datatype 'r pc =
    Idle
  | Start
  | Announce
  | Body "'r stm_prog"
  | Get_Fast var_ref var_storage "var_storage \<Rightarrow> 'r stm_prog"
  | Slow_Get var_ref "var_storage \<Rightarrow> 'r stm_prog"
  | Get_Slow var_ref var_storage "var_storage \<Rightarrow> 'r stm_prog"
  | Get_Ro var_ref var_storage "var_storage \<Rightarrow> 'r stm_prog"
  | Set_Slow var_ref var_storage "'r stm_prog"
  | Abort
  | Unwind
  | Lock nat
  | Lock_Cas nat epoch_t
  | Unlock nat nat
  | Unlock_Store nat nat epoch_t
  | Validate nat
  | Write nat
  | Bump
  | Publish nat epoch_t
  | Success

record 'r thread =
  pc :: "'r pc"
  td :: "unit thread_data"
  tx :: transaction_base
  func :: "'r stm_prog"
  result :: "'r option"
  jobs :: "(tx_kind \<times> 'r stm_prog) list"
  returned :: "((cxx_error + 'r) \<times> nat) list"
  snap :: store
  start :: nat
  seen :: "var_ref \<rightharpoonup> var_storage"
  ticket :: nat

record 'r log_entry =
  e_func :: "'r stm_prog"
  e_result :: 'r
  e_seen :: "var_ref \<rightharpoonup> var_storage"
  e_writes :: "var_ref \<rightharpoonup> var_storage"
  e_start :: nat
  e_end :: nat

record 'r sys =
  threads :: "nat \<Rightarrow> 'r thread"
  version_of :: "var_ref \<Rightarrow> epoch_t"
  storage_of :: store
  the_clock :: transaction_domain
  committed :: store
  committed_version :: "var_ref \<Rightarrow> epoch_t"
  owner :: "var_ref \<Rightarrow> nat option"
  log :: "nat \<Rightarrow> 'r log_entry option"
  tickets :: nat
  initial :: store

definition put :: "nat \<Rightarrow> 'r thread \<Rightarrow> 'r sys \<Rightarrow> 'r sys" where
  "put t l s = s\<lparr> threads := (threads s)(t := l) \<rparr>"

section \<open>Steps\<close>

text \<open>Starting: \<open>get_clock\<close>, then \<open>access_lock\<close>.\<close>

definition step_idle :: "nat \<Rightarrow> 'r thread \<Rightarrow> 'r sys \<Rightarrow> 'r sys option" where
  "step_idle t l s =
     (case jobs l of
        [] \<Rightarrow> None
      | (kind, f) # js \<Rightarrow> Some (put t (l\<lparr> pc := Start, jobs := js, func := f, td := (td l)\<lparr> tx_state := kind \<rparr> \<rparr>) s))"

definition step_get_clock :: "nat \<Rightarrow> 'r thread \<Rightarrow> 'r sys \<Rightarrow> 'r sys" where
  "step_get_clock t l s =
     (let version = get_clock (the_clock s);
          tx' = (if tx_state (td l) = Read_only then read_transaction version else transaction t version)
      in (put t (l\<lparr> pc := Announce, tx := tx', snap := committed s, start := tickets s, seen := Map.empty \<rparr>) s)
           \<lparr> tickets := tickets s + 1 \<rparr>)"

definition step_access_lock :: "nat \<Rightarrow> 'r thread \<Rightarrow> 'r sys \<Rightarrow> 'r sys" where
  "step_access_lock t l s = put t (l\<lparr> pc := Body (func l), td := td_access_lock (version (tx l)) (td l) \<rparr>) s"

text \<open>Reads.\<close>

definition step_get :: "nat \<Rightarrow> 'r thread \<Rightarrow> var_ref \<Rightarrow> (var_storage \<Rightarrow> 'r stm_prog) \<Rightarrow> 'r sys \<Rightarrow> 'r sys" where
  "step_get t l v k s =
     (if \<not> can_write (tx l) then put t (l\<lparr> pc := Get_Ro v (storage_of s v) k \<rparr>) s
      else if \<not> pv_allocates_on_next_push (read_set (td l)) \<and> hs_filter (write_set (td l)) AND var_hash v = 0
      then put t (l\<lparr> pc := Get_Fast v (storage_of s v) k \<rparr>) s
      else put t (l\<lparr> pc := Slow_Get v k \<rparr>) s)"

definition step_get_fast :: "nat \<Rightarrow> 'r thread \<Rightarrow> var_ref \<Rightarrow> var_storage \<Rightarrow> (var_storage \<Rightarrow> 'r stm_prog) \<Rightarrow> 'r sys \<Rightarrow> 'r sys" where
  "step_get_fast t l v r k s =
     (if rw_valid (tx l) (version_of s v)
      then put t (l\<lparr> pc := Body (k r), td := (td l)\<lparr> read_set := unchecked_emplace_back v (read_set (td l)) \<rparr>,
                     seen := (seen l)(v \<mapsto> r) \<rparr>) s
      else put t (l\<lparr> pc := Slow_Get v k \<rparr>) s)"

definition step_slow_get :: "nat \<Rightarrow> 'r thread \<Rightarrow> var_ref \<Rightarrow> (var_storage \<Rightarrow> 'r stm_prog) \<Rightarrow> 'r sys \<Rightarrow> 'r sys" where
  "step_slow_get t l v k s =
     (let iter = hs_find (write_set (td l)) v in
      if iter = hs_end (write_set (td l)) then put t (l\<lparr> pc := Get_Slow v (storage_of s v) k \<rparr>) s
      else if rw_valid (tx l) (version_of s v)
      then put t (l\<lparr> pc := Body (k (hs_pending_at (write_set (td l)) iter)) \<rparr>) s
      else put t (l\<lparr> pc := Abort \<rparr>) s)"

definition step_get_slow :: "nat \<Rightarrow> 'r thread \<Rightarrow> var_ref \<Rightarrow> var_storage \<Rightarrow> (var_storage \<Rightarrow> 'r stm_prog) \<Rightarrow> 'r sys \<Rightarrow> 'r sys" where
  "step_get_slow t l v r k s =
     (if rw_valid (tx l) (version_of s v)
      then put t (l\<lparr> pc := Body (k r), td := (td l)\<lparr> read_set := emplace_back v (read_set (td l)) \<rparr>,
                     seen := (seen l)(v \<mapsto> r) \<rparr>) s
      else put t (l\<lparr> pc := Abort \<rparr>) s)"

definition step_get_ro :: "nat \<Rightarrow> 'r thread \<Rightarrow> var_ref \<Rightarrow> var_storage \<Rightarrow> (var_storage \<Rightarrow> 'r stm_prog) \<Rightarrow> 'r sys \<Rightarrow> 'r sys" where
  "step_get_ro t l v r k s =
     (if rw_valid (tx l) (version_of s v)
      then put t (l\<lparr> pc := Body (k r), seen := (seen l)(v \<mapsto> r) \<rparr>) s
      else put t (l\<lparr> pc := Abort \<rparr>) s)"

text \<open>Writes.\<close>

definition step_set :: "nat \<Rightarrow> 'r thread \<Rightarrow> var_ref \<Rightarrow> var_storage \<Rightarrow> 'r stm_prog \<Rightarrow> 'r sys \<Rightarrow> 'r sys option" where
  "step_set t l v x p s =
     (if \<not> can_write (tx l) then None
      else let h = var_hash v in
        if hs_allocates_on_next_push (write_set (td l)) \<or> hs_filter (write_set (td l)) AND h \<noteq> 0
           \<or> \<not> rw_valid (tx l) (version_of s v)
        then Some (put t (l\<lparr> pc := Set_Slow v x p \<rparr>) s)
        else Some (put t (l\<lparr> pc := Body p, td := add_write_set_unchecked v x h (td l) \<rparr>) s))"

definition step_set_slow :: "nat \<Rightarrow> 'r thread \<Rightarrow> var_ref \<Rightarrow> var_storage \<Rightarrow> 'r stm_prog \<Rightarrow> 'r sys \<Rightarrow> 'r sys" where
  "step_set_slow t l v x p s =
     (let lookup = hs_lookup (write_set (td l)) v;
          td1 = (if \<not> lookup_success lookup then add_write_set v x (wl_hash lookup) (td l)
                 else (td l)\<lparr> write_set := hs_set_pending (the (wl_pending_write lookup)) x (write_set (td l)) \<rparr>)
      in if rw_valid (tx l) (version_of s v) then put t (l\<lparr> pc := Body p, td := td1 \<rparr>) s
         else put t (l\<lparr> pc := Abort, td := td1 \<rparr>) s)"

text \<open>The end of the body: an exception, or \<open>try_commit\<close>. A transaction without writes is committed.\<close>

definition log_commit :: "nat \<Rightarrow> 'r thread \<Rightarrow> 'r \<Rightarrow> 'r sys \<Rightarrow> 'r sys" where
  "log_commit n l r s = s\<lparr> log := (log s)(n \<mapsto> \<lparr> e_func = func l, e_result = r, e_seen = seen l,
     e_writes = hs_view (write_set (td l)), e_start = start l, e_end = tickets s \<rparr>) \<rparr>"

definition step_return :: "nat \<Rightarrow> 'r thread \<Rightarrow> 'r \<Rightarrow> 'r sys \<Rightarrow> 'r sys" where
  "step_return t l r s =
     (if \<not> can_write (tx l) \<or> hs_empty (write_set (td l))
      then log_commit (start l) l r (put t (l\<lparr> pc := Success, result := Some r, ticket := start l \<rparr>) s)
      else put t (l\<lparr> pc := Lock 0, result := Some r, td := remove_writes_from_reads (td l) \<rparr>) s)"

text \<open>\<open>tx_failure\<close> and \<open>unhandled_exception\<close>.\<close>

definition step_abort :: "nat \<Rightarrow> 'r thread \<Rightarrow> 'r sys \<Rightarrow> 'r sys" where
  "step_abort t l s = put t (l\<lparr> pc := Start, td := clear_read_write_sets (td_access_unlock (td l)) \<rparr>) s"

definition step_unwind :: "nat \<Rightarrow> 'r thread \<Rightarrow> 'r sys \<Rightarrow> 'r sys" where
  "step_unwind t l s = put t (l\<lparr> pc := Idle,
     td := (clear_read_write_sets (td_access_unlock (td l)))\<lparr> tx_state := None_kind \<rparr>,
     returned := returned l @ [(Inl User_exception, 0)] \<rparr>) s"

text \<open>\<open>lock_writes\<close>. The last lock draws the ticket of the transaction.\<close>

definition step_lock :: "nat \<Rightarrow> 'r thread \<Rightarrow> nat \<Rightarrow> 'r sys \<Rightarrow> 'r sys" where
  "step_lock t l i s =
     (let version_buf = version_of s (hs_dest_at (write_set (td l)) i) in
      if rw_valid (tx l) version_buf then put t (l\<lparr> pc := Lock_Cas i version_buf \<rparr>) s
      else put t (l\<lparr> pc := if i = 0 then Abort else Unlock 0 i \<rparr>) s)"

definition step_lock_cas :: "nat \<Rightarrow> 'r thread \<Rightarrow> nat \<Rightarrow> epoch_t \<Rightarrow> 'r sys \<Rightarrow> 'r sys" where
  "step_lock_cas t l i version_buf s =
     (let v = hs_dest_at (write_set (td l)) i in
      if version_of s v = version_buf then
        let s1 = s\<lparr> version_of := (version_of s)(v := as_locked version_buf), owner := (owner s)(v := Some t) \<rparr> in
        if Suc i = hs_end (write_set (td l))
        then (put t (l\<lparr> pc := Validate 0, ticket := tickets s \<rparr>) s1)\<lparr> tickets := tickets s + 1 \<rparr>
        else put t (l\<lparr> pc := Lock (Suc i) \<rparr>) s1
      else put t (l\<lparr> pc := if i = 0 then Abort else Unlock 0 i \<rparr>) s)"

text \<open>\<open>unlock_write_set\<close> from \<open>j\<close> to \<open>n\<close>: the load and the store of \<open>unlock\<close>.\<close>

definition step_unlock :: "nat \<Rightarrow> 'r thread \<Rightarrow> nat \<Rightarrow> nat \<Rightarrow> 'r sys \<Rightarrow> 'r sys" where
  "step_unlock t l j n s =
     put t (l\<lparr> pc := Unlock_Store j n (version_of s (hs_dest_at (write_set (td l)) j)) \<rparr>) s"

definition step_unlock_store :: "nat \<Rightarrow> 'r thread \<Rightarrow> nat \<Rightarrow> nat \<Rightarrow> epoch_t \<Rightarrow> 'r sys \<Rightarrow> 'r sys" where
  "step_unlock_store t l j n x s =
     (let v = hs_dest_at (write_set (td l)) j in
      put t (l\<lparr> pc := if Suc j = n then Abort else Unlock (Suc j) n \<rparr>)
        (s\<lparr> version_of := (version_of s)(v := x XOR lock_bit), owner := (owner s)(v := None) \<rparr>))"

text \<open>\<open>validate_reads\<close>. Passing the last check is the moment of commitment.\<close>

definition step_validate :: "nat \<Rightarrow> 'r thread \<Rightarrow> nat \<Rightarrow> 'r sys \<Rightarrow> 'r sys" where
  "step_validate t l j s =
     (case pv_deref (read_set (td l)) j of
        None \<Rightarrow> log_commit (ticket l) l (the (result l)) (put t (l\<lparr> pc := Write 0 \<rparr>) s)
      | Some src_var \<Rightarrow>
          if rw_valid (tx l) (version_of s src_var) then put t (l\<lparr> pc := Validate (Suc j) \<rparr>) s
          else put t (l\<lparr> pc := Unlock 0 (hs_end (write_set (td l))) \<rparr>) s)"

text \<open>\<open>do_writes\<close>, \<open>fetch_and_bump_clock\<close> with its assertion, \<open>publish\<close>.\<close>

definition step_write :: "nat \<Rightarrow> 'r thread \<Rightarrow> nat \<Rightarrow> 'r sys \<Rightarrow> 'r sys" where
  "step_write t l i s =
     put t (l\<lparr> pc := if Suc i = hs_end (write_set (td l)) then Bump else Write (Suc i) \<rparr>)
       (s\<lparr> storage_of := (storage_of s)(hs_dest_at (write_set (td l)) i := hs_pending_at (write_set (td l)) i) \<rparr>)"

definition step_bump :: "nat \<Rightarrow> 'r thread \<Rightarrow> 'r sys \<Rightarrow> 'r sys option" where
  "step_bump t l s =
     (let (sync_epoch, d) = fetch_and_bump_clock (the_clock s);
          write_version = sync_epoch + bump_size;
          m = hs_view (write_set (td l))
      in if bump_assert sync_epoch
         then Some (put t (l\<lparr> pc := Publish 0 write_version \<rparr>)
           (s\<lparr> the_clock := d, committed := overlay (committed s) m,
               committed_version := (\<lambda>v. if m v = None then committed_version s v else write_version) \<rparr>))
         else None)"

definition step_publish :: "nat \<Rightarrow> 'r thread \<Rightarrow> nat \<Rightarrow> epoch_t \<Rightarrow> 'r sys \<Rightarrow> 'r sys" where
  "step_publish t l i write_version s =
     (let v = hs_dest_at (write_set (td l)) i in
      put t (l\<lparr> pc := if Suc i = hs_end (write_set (td l)) then Success else Publish (Suc i) write_version \<rparr>)
        (s\<lparr> version_of := (version_of s)(v := write_version), owner := (owner s)(v := None) \<rparr>))"

text \<open>\<open>tx_success\<close>.\<close>

definition step_success :: "nat \<Rightarrow> 'r thread \<Rightarrow> 'r sys \<Rightarrow> 'r sys" where
  "step_success t l s = put t (l\<lparr> pc := Idle,
     td := clear_read_write_sets ((td_access_unlock (td l))\<lparr> tx_state := None_kind \<rparr>),
     returned := returned l @ [(Inr (the (result l)), ticket l)] \<rparr>) s"

text \<open>One step of thread \<open>t\<close>; \<open>None\<close> when it has nothing to do or an assertion stops the program.\<close>

definition tstep :: "nat \<Rightarrow> 'r sys \<Rightarrow> 'r sys option" where
  "tstep t s =
     (let l = threads s t in
      case pc l of
        Idle \<Rightarrow> step_idle t l s
      | Start \<Rightarrow> Some (step_get_clock t l s)
      | Announce \<Rightarrow> Some (step_access_lock t l s)
      | Body p \<Rightarrow>
          (case p of
             P_Return r \<Rightarrow> Some (step_return t l r s)
           | P_Throw \<Rightarrow> Some (put t (l\<lparr> pc := Unwind \<rparr>) s)
           | P_Retry \<Rightarrow> Some (put t (l\<lparr> pc := Abort \<rparr>) s)
           | P_Get v k \<Rightarrow> Some (step_get t l v k s)
           | P_Set v x q \<Rightarrow> step_set t l v x q s)
      | Get_Fast v r k \<Rightarrow> Some (step_get_fast t l v r k s)
      | Slow_Get v k \<Rightarrow> Some (step_slow_get t l v k s)
      | Get_Slow v r k \<Rightarrow> Some (step_get_slow t l v r k s)
      | Get_Ro v r k \<Rightarrow> Some (step_get_ro t l v r k s)
      | Set_Slow v x p \<Rightarrow> Some (step_set_slow t l v x p s)
      | Abort \<Rightarrow> Some (step_abort t l s)
      | Unwind \<Rightarrow> Some (step_unwind t l s)
      | Lock i \<Rightarrow> Some (step_lock t l i s)
      | Lock_Cas i x \<Rightarrow> Some (step_lock_cas t l i x s)
      | Unlock j n \<Rightarrow> Some (step_unlock t l j n s)
      | Unlock_Store j n x \<Rightarrow> Some (step_unlock_store t l j n x s)
      | Validate j \<Rightarrow> Some (step_validate t l j s)
      | Write i \<Rightarrow> Some (step_write t l i s)
      | Bump \<Rightarrow> step_bump t l s
      | Publish i wv \<Rightarrow> Some (step_publish t l i wv s)
      | Success \<Rightarrow> Some (step_success t l s))"

definition stm_step :: "'r sys \<Rightarrow> 'r sys \<Rightarrow> bool" where
  "stm_step s s' \<longleftrightarrow> (\<exists>t. tstep t s = Some s')"

section \<open>Start states\<close>

text \<open>Every thread is idle with a list of transactions to run; every variable is unlocked.\<close>

definition new_thread :: "(tx_kind \<times> 'r stm_prog) list \<Rightarrow> 'r thread" where
  "new_thread js = \<lparr> pc = Idle, td = new_thread_data, tx = read_transaction 0, func = P_Throw, result = None,
     jobs = js, returned = [], snap = (\<lambda>_. 0), start = 0, seen = Map.empty, ticket = 0 \<rparr>"

definition new_sys :: "(nat \<Rightarrow> (tx_kind \<times> 'r stm_prog) list) \<Rightarrow> store \<Rightarrow> 'r sys" where
  "new_sys js st = \<lparr> threads = (\<lambda>t. new_thread (js t)), version_of = (\<lambda>_. 0), storage_of = st,
     the_clock = new_domain, committed = st, committed_version = (\<lambda>_. 0), owner = (\<lambda>_. None),
     log = (\<lambda>_. None), tickets = 0, initial = st \<rparr>"

text \<open>\<open>lstm::atomic\<close> is called with a reading or a writing function.\<close>

definition good_jobs :: "(tx_kind \<times> 'r stm_prog) list \<Rightarrow> bool" where
  "good_jobs js \<longleftrightarrow> (\<forall>(kind, f) \<in> set js. kind \<noteq> None_kind)"

definition stm_start :: "'r sys \<Rightarrow> bool" where
  "stm_start s \<longleftrightarrow> (\<exists>js st. (\<forall>t. good_jobs (js t)) \<and> s = new_sys js st)"

text \<open>The run of a schedule: threads take steps in the order given; a step that is not enabled is skipped.\<close>

primrec run_schedule :: "nat list \<Rightarrow> 'r sys \<Rightarrow> 'r sys" where
  "run_schedule [] s = s"
| "run_schedule (t # ts) s = run_schedule ts (case tstep t s of None \<Rightarrow> s | Some s' \<Rightarrow> s')"

lemma run_schedule_reachable:
  "reachable stm_start stm_step s \<Longrightarrow> reachable stm_start stm_step (run_schedule ts s)"
proof (induction ts arbitrary: s)
  case (Cons t ts)
  show ?case
  proof (cases "tstep t s")
    case None
    then show ?thesis using Cons by simp
  next
    case (Some s')
    then have "stm_step s s'" by (auto simp: stm_step_def)
    then show ?thesis using Cons Some reach_step by fastforce
  qed
qed simp

end
