(* ===== verification/Stm_Inv.thy ===== *)
theory Stm_Inv
  imports Stm_System
begin

text \<open>
  The invariant of the concurrent machine. The global part says what version words, storage words
  and lock owners look like at any moment and relates them to the log; the local part says what a
  running transaction knows. \<open>env\<close> is what a step of one thread may do to what the others know, and
  the lemmas at the end show that the local part of a thread survives such a step.
\<close>

section \<open>The store after the transactions with tickets below n\<close>

primrec sigma :: "(nat \<Rightarrow> 'r log_entry option) \<Rightarrow> store \<Rightarrow> nat \<Rightarrow> store" where
  "sigma L st 0 = st"
| "sigma L st (Suc n) = (case L n of None \<Rightarrow> sigma L st n | Some e \<Rightarrow> overlay (sigma L st n) (e_writes e))"

definition writes :: "(nat \<Rightarrow> 'r log_entry option) \<Rightarrow> nat \<Rightarrow> var_ref \<Rightarrow> bool" where
  "writes L n v \<longleftrightarrow> (\<exists>e. L n = Some e \<and> e_writes e v \<noteq> None)"

lemma overlay_empty [simp]: "overlay st Map.empty = st"
  by (simp add: overlay_def)

lemma overlay_same [simp]: "m v = None \<Longrightarrow> overlay st m v = st v"
  by (simp add: overlay_def)

lemma overlay_Some [simp]: "m v = Some x \<Longrightarrow> overlay st m v = x"
  by (simp add: overlay_def)

lemma overlay_update: "overlay st (m(v \<mapsto> x)) = (overlay st m)(v := x)"
  by (auto simp: overlay_def)

lemma sigma_step: "\<not> writes L n v \<Longrightarrow> sigma L st (Suc n) v = sigma L st n v"
  by (auto simp: writes_def overlay_def split: option.split)

lemma sigma_quiet:
  assumes "a \<le> b" and "\<And>n. a \<le> n \<Longrightarrow> n < b \<Longrightarrow> \<not> writes L n v"
  shows "sigma L st b v = sigma L st a v"
  using assms
proof (induction b rule: nat_induct_at_least)
  case (Suc n)
  then show ?case using sigma_step [of L n v st] by simp
qed simp

lemma sigma_upd_above: "m \<le> n \<Longrightarrow> sigma (L(n \<mapsto> e)) st m = sigma L st m"
  by (induction m) (auto split: option.split)

lemma sigma_upd_other: "L n = None \<Longrightarrow> e_writes e v = None \<Longrightarrow> sigma (L(n \<mapsto> e)) st m v = sigma L st m v"
proof (induction m)
  case (Suc m)
  then show ?case by (auto simp: overlay_def split: option.split)
qed simp

lemma sigma_upd_last:
  assumes "n < m" and "e_writes e v = Some x" and "\<And>k. n < k \<Longrightarrow> k < m \<Longrightarrow> \<not> writes L k v"
  shows "sigma (L(n \<mapsto> e)) st m v = x"
proof -
  have "sigma (L(n \<mapsto> e)) st m v = sigma (L(n \<mapsto> e)) st (Suc n) v"
  proof (rule sigma_quiet)
    fix k assume "Suc n \<le> k" "k < m"
    then show "\<not> writes (L(n \<mapsto> e)) k v" using assms(3) [of k] by (simp add: writes_def)
  qed (use assms(1) in simp)
  then show ?thesis using assms(2) by simp
qed

section \<open>What a thread holds\<close>

abbreviation ws :: "'r thread \<Rightarrow> pod_hash_set" where
  "ws l \<equiv> write_set (td l)"

abbreviation dests :: "'r thread \<Rightarrow> var_ref list" where
  "dests l \<equiv> hs_dests (ws l)"

abbreviation rv :: "'r thread \<Rightarrow> epoch_t" where
  "rv l \<equiv> version (tx l)"

definition held :: "'r thread \<Rightarrow> var_ref set" where
  "held l = (case pc l of
      Lock i \<Rightarrow> set (take i (dests l))
    | Lock_Cas i x \<Rightarrow> set (take i (dests l))
    | Unlock j n \<Rightarrow> set (drop j (take n (dests l)))
    | Unlock_Store j n x \<Rightarrow> set (drop j (take n (dests l)))
    | Validate j \<Rightarrow> set (dests l)
    | Write i \<Rightarrow> set (dests l)
    | Bump \<Rightarrow> set (dests l)
    | Publish i x \<Rightarrow> set (drop i (dests l))
    | _ \<Rightarrow> {})"

definition pending_t :: "'r thread \<Rightarrow> bool" where
  "pending_t l \<longleftrightarrow> (case pc l of Validate j \<Rightarrow> True | _ \<Rightarrow> False)"

definition decided_t :: "'r thread \<Rightarrow> bool" where
  "decided_t l \<longleftrightarrow> (case pc l of Write i \<Rightarrow> True | Bump \<Rightarrow> True | _ \<Rightarrow> False)"

definition publishing_t :: "'r thread \<Rightarrow> bool" where
  "publishing_t l \<longleftrightarrow> (case pc l of Publish i x \<Rightarrow> True | _ \<Rightarrow> False)"

definition written :: "'r thread \<Rightarrow> var_ref set" where
  "written l = (case pc l of Write i \<Rightarrow> set (take i (dests l)) | Bump \<Rightarrow> set (dests l) | _ \<Rightarrow> {})"

text \<open>A transaction is active from the load of the clock to the moment it is over.\<close>

definition active_t :: "'r thread \<Rightarrow> bool" where
  "active_t l \<longleftrightarrow> (case pc l of Idle \<Rightarrow> False | Start \<Rightarrow> False | _ \<Rightarrow> True)"

text \<open>The tickets under which a thread may still enter the log.\<close>

definition live :: "'r thread \<Rightarrow> nat set" where
  "live l = (case pc l of
      Announce \<Rightarrow> {start l} | Body p \<Rightarrow> {start l} | Get_Fast v x k \<Rightarrow> {start l} | Slow_Get v k \<Rightarrow> {start l}
    | Get_Slow v x k \<Rightarrow> {start l} | Get_Ro v x k \<Rightarrow> {start l} | Set_Slow v x p \<Rightarrow> {start l}
    | Validate j \<Rightarrow> {ticket l} | _ \<Rightarrow> {})"

text \<open>The program that is left to run; \<open>None\<close> when the thread does not run one.\<close>

definition cont :: "'r thread \<Rightarrow> 'r stm_prog option" where
  "cont l = (case pc l of
      Announce \<Rightarrow> Some (func l) | Body p \<Rightarrow> Some p | Get_Fast v x k \<Rightarrow> Some (P_Get v k)
    | Slow_Get v k \<Rightarrow> Some (P_Get v k) | Get_Slow v x k \<Rightarrow> Some (P_Get v k) | Get_Ro v x k \<Rightarrow> Some (P_Get v k)
    | Set_Slow v x p \<Rightarrow> Some (P_Set v x p)
    | Lock i \<Rightarrow> Some (P_Return (the (result l))) | Lock_Cas i x \<Rightarrow> Some (P_Return (the (result l)))
    | Validate j \<Rightarrow> Some (P_Return (the (result l)))
    | _ \<Rightarrow> None)"

lemmas phase_defs = held_def pending_t_def decided_t_def publishing_t_def written_def active_t_def live_def cont_def

definition dec :: "'r sys \<Rightarrow> var_ref \<Rightarrow> bool" where
  "dec s v \<longleftrightarrow> (\<exists>t. owner s v = Some t \<and> decided_t (threads s t))"

definition pend :: "'r sys \<Rightarrow> nat \<Rightarrow> var_ref \<Rightarrow> bool" where
  "pend s n v \<longleftrightarrow> (\<exists>u. pending_t (threads s u) \<and> ticket (threads s u) < n \<and> v \<in> set (dests (threads s u)))"

abbreviation sig :: "'r sys \<Rightarrow> nat \<Rightarrow> store" where
  "sig s \<equiv> sigma (log s) (initial s)"

section \<open>The global invariant\<close>

text \<open>The owner of a lock is the thread that is between taking and releasing it.\<close>

definition own_inv :: "'r sys \<Rightarrow> bool" where
  "own_inv s \<longleftrightarrow> (\<forall>v t. owner s v = Some t \<longleftrightarrow> v \<in> held (threads s t))"

text \<open>A version word is the version of the last committed value, locked while the variable has an owner.\<close>

definition ver_inv :: "'r sys \<Rightarrow> bool" where
  "ver_inv s \<longleftrightarrow> \<not> locked (clock (the_clock s)) \<and> (\<forall>v. committed_version s v \<le> clock (the_clock s)
     \<and> (case owner s v of
          None \<Rightarrow> version_of s v = committed_version s v
        | Some t \<Rightarrow> locked (version_of s v)
            \<and> (\<not> publishing_t (threads s t) \<longrightarrow> version_of s v = as_locked (committed_version s v))))"

text \<open>A storage word is the committed value unless its owner has written it back before the bump.\<close>

definition sto_inv :: "'r sys \<Rightarrow> bool" where
  "sto_inv s \<longleftrightarrow> (\<forall>v. storage_of s v =
     (case owner s v of
        None \<Rightarrow> committed s v
      | Some t \<Rightarrow> if v \<in> written (threads s t) then the (hs_view (ws (threads s t)) v) else committed s v))"

text \<open>The store of the log is what is committed, with the writes of the decided transactions.\<close>

definition ser_inv :: "'r sys \<Rightarrow> bool" where
  "ser_inv s \<longleftrightarrow> (\<forall>v. sig s (tickets s) v =
     (case owner s v of
        None \<Rightarrow> committed s v
      | Some t \<Rightarrow> if decided_t (threads s t) then the (hs_view (ws (threads s t)) v) else committed s v))"

definition live_inv :: "'r sys \<Rightarrow> bool" where
  "live_inv s \<longleftrightarrow> (\<forall>n \<ge> tickets s. log s n = None)
     \<and> (\<forall>t. \<forall>n \<in> live (threads s t). n < tickets s \<and> log s n = None)
     \<and> (\<forall>t u. t \<noteq> u \<longrightarrow> live (threads s t) \<inter> live (threads s u) = {})"

text \<open>Every transaction of the log does in the store before it what the program does.\<close>

definition entry_ok :: "'r sys \<Rightarrow> nat \<Rightarrow> 'r log_entry \<Rightarrow> bool" where
  "entry_ok s n e \<longleftrightarrow> (\<forall>v x. e_seen e v = Some x \<longrightarrow> sig s n v = x \<and> \<not> pend s n v)
     \<and> (\<forall>st. (\<forall>v x. e_seen e v = Some x \<longrightarrow> st v = x) \<longrightarrow> p_exec (e_func e) st = (Inr (e_result e), overlay st (e_writes e)))
     \<and> e_start e \<le> n \<and> n < e_end e \<and> e_end e \<le> tickets s"

definition log_inv :: "'r sys \<Rightarrow> bool" where
  "log_inv s \<longleftrightarrow> (\<forall>n e. log s n = Some e \<longrightarrow> entry_ok s n e)"

definition ginv :: "'r sys \<Rightarrow> bool" where
  "ginv s \<longleftrightarrow> own_inv s \<and> ver_inv s \<and> sto_inv s \<and> ser_inv s \<and> live_inv s \<and> log_inv s"

section \<open>The local invariant\<close>

text \<open>What an active transaction knows: no variable it may still read has changed since it began.\<close>

definition snap_inv :: "'r sys \<Rightarrow> 'r thread \<Rightarrow> bool" where
  "snap_inv s l \<longleftrightarrow> rv l \<le> clock (the_clock s) \<and> start l < tickets s
     \<and> (\<forall>v. committed_version s v \<le> rv l \<longrightarrow> committed s v = snap l v)
     \<and> (\<forall>n \<ge> start l. \<forall>v. writes (log s) n v \<longrightarrow> rv l < committed_version s v \<or> dec s v)
     \<and> (\<forall>v x. seen l v = Some x \<longrightarrow> snap l v = x \<and> sig s (start l) v = x \<and> \<not> pend s (start l) v)"

text \<open>The thread's own data: nothing here depends on the shared state.\<close>

definition own_data :: "'r thread \<Rightarrow> bool" where
  "own_data l \<longleftrightarrow> hs_inv (ws l) \<and> pv_inv (read_set (td l))
     \<and> (\<forall>p st. cont l = Some p \<longrightarrow> (\<forall>v x. seen l v = Some x \<longrightarrow> st v = x) \<longrightarrow>
          p_exec (func l) st = p_exec p (overlay st (hs_view (ws l))))
     \<and> (\<not> active_t l \<longrightarrow> dests l = [])
     \<and> (active_t l \<longrightarrow> (if can_write (tx l) then dom (seen l) \<subseteq> set (pv_items (read_set (td l))) \<union> set (dests l) else dests l = []))"

definition logged :: "'r sys \<Rightarrow> 'r thread \<Rightarrow> bool" where
  "logged s l \<longleftrightarrow> (\<exists>e. log s (ticket l) = Some e \<and> e_func e = func l \<and> result l = Some (e_result e))"

definition old_versions :: "'r sys \<Rightarrow> 'r thread \<Rightarrow> bool" where
  "old_versions s l \<longleftrightarrow> (\<forall>v \<in> held l. committed_version s v \<le> rv l)"

definition fresh :: "'r sys \<Rightarrow> 'r thread \<Rightarrow> var_ref \<Rightarrow> var_storage \<Rightarrow> bool" where
  "fresh s l v x \<longleftrightarrow> x = snap l v \<or> rv l < committed_version s v \<or> dec s v"

definition validated :: "'r sys \<Rightarrow> 'r thread \<Rightarrow> nat \<Rightarrow> bool" where
  "validated s l j \<longleftrightarrow> (\<forall>v \<in> set (take j (pv_items (read_set (td l)))). \<forall>x. seen l v = Some x \<longrightarrow>
     sig s (ticket l) v = x \<and> \<not> pend s (ticket l) v)"

definition pc_inv :: "'r sys \<Rightarrow> 'r thread \<Rightarrow> bool" where
  "pc_inv s l \<longleftrightarrow> (case pc l of
      Announce \<Rightarrow> dests l = [] \<and> seen l = Map.empty
    | Get_Fast v x k \<Rightarrow> can_write (tx l) \<and> fresh s l v x \<and> v \<notin> set (dests l)
        \<and> \<not> pv_allocates_on_next_push (read_set (td l))
    | Slow_Get v k \<Rightarrow> can_write (tx l)
    | Get_Slow v x k \<Rightarrow> can_write (tx l) \<and> fresh s l v x \<and> v \<notin> set (dests l)
    | Get_Ro v x k \<Rightarrow> \<not> can_write (tx l) \<and> fresh s l v x
    | Set_Slow v x p \<Rightarrow> can_write (tx l)
    | Lock i \<Rightarrow> can_write (tx l) \<and> i < length (dests l) \<and> old_versions s l \<and> result l \<noteq> None
    | Lock_Cas i x \<Rightarrow> can_write (tx l) \<and> i < length (dests l) \<and> old_versions s l \<and> x \<le> rv l \<and> result l \<noteq> None
    | Unlock j n \<Rightarrow> j < n \<and> n \<le> length (dests l)
    | Unlock_Store j n x \<Rightarrow> j < n \<and> n \<le> length (dests l) \<and> x = version_of s (dests l ! j)
    | Validate j \<Rightarrow> can_write (tx l) \<and> old_versions s l \<and> start l \<le> ticket l \<and> validated s l j \<and> result l \<noteq> None \<and> dests l \<noteq> []
    | Write i \<Rightarrow> i < length (dests l) \<and> logged s l
    | Bump \<Rightarrow> dests l \<noteq> [] \<and> logged s l
    | Publish i x \<Rightarrow> i < length (dests l) \<and> logged s l \<and> \<not> locked x \<and> (\<forall>v \<in> held l. committed_version s v = x)
    | Success \<Rightarrow> logged s l
    | _ \<Rightarrow> True)"

definition jobs_inv :: "'r sys \<Rightarrow> 'r thread \<Rightarrow> bool" where
  "jobs_inv s l \<longleftrightarrow> (\<forall>r n. (Inr r, n) \<in> set (returned l) \<longrightarrow> (\<exists>e. log s n = Some e \<and> e_result e = r))"

definition tinv :: "'r sys \<Rightarrow> 'r thread \<Rightarrow> bool" where
  "tinv s l \<longleftrightarrow> own_data l \<and> (active_t l \<longrightarrow> snap_inv s l) \<and> pc_inv s l \<and> jobs_inv s l"

definition stm_inv :: "'r sys \<Rightarrow> bool" where
  "stm_inv s \<longleftrightarrow> ginv s \<and> (\<forall>t. tinv s (threads s t))"

section \<open>What a step of one thread may do to the others\<close>

text \<open>\<open>env u s s'\<close>: thread \<open>u\<close> has moved from \<open>s\<close> to \<open>s'\<close>.\<close>

definition env :: "nat \<Rightarrow> 'r sys \<Rightarrow> 'r sys \<Rightarrow> bool" where
  "env u s s' \<longleftrightarrow>
     (\<forall>t. t \<noteq> u \<longrightarrow> threads s' t = threads s t)
     \<and> clock (the_clock s) \<le> clock (the_clock s') \<and> tickets s \<le> tickets s'
     \<and> (\<forall>v. committed_version s' v = committed_version s v \<and> committed s' v = committed s v
           \<or> clock (the_clock s) < committed_version s' v)
     \<and> (\<forall>v. dec s v \<longrightarrow> dec s' v \<or> clock (the_clock s) < committed_version s' v)
     \<and> (\<forall>n v. writes (log s') n v \<longrightarrow> writes (log s) n v \<or> dec s' v)
     \<and> (\<forall>n v. n \<le> tickets s \<longrightarrow> \<not> pend s n v \<longrightarrow> \<not> pend s' n v \<and> sig s' n v = sig s n v)
     \<and> (\<forall>t v. t \<noteq> u \<longrightarrow> owner s v = Some t \<longrightarrow>
           committed_version s' v = committed_version s v \<and> version_of s' v = version_of s v)
     \<and> (\<forall>n e. log s n = Some e \<longrightarrow> log s' n = Some e)"

lemma env_threads: "env u s s' \<Longrightarrow> t \<noteq> u \<Longrightarrow> threads s' t = threads s t"
  by (simp add: env_def)

lemma env_clock: "env u s s' \<Longrightarrow> clock (the_clock s) \<le> clock (the_clock s')"
  by (simp add: env_def)

lemma env_tickets: "env u s s' \<Longrightarrow> tickets s \<le> tickets s'"
  by (simp add: env_def)

lemma env_committed:
  "env u s s' \<Longrightarrow> committed_version s' v = committed_version s v \<and> committed s' v = committed s v
     \<or> clock (the_clock s) < committed_version s' v"
  by (simp add: env_def)

lemma env_dec: "env u s s' \<Longrightarrow> dec s v \<Longrightarrow> dec s' v \<or> clock (the_clock s) < committed_version s' v"
  by (simp add: env_def)

lemma env_writes: "env u s s' \<Longrightarrow> writes (log s') n v \<Longrightarrow> writes (log s) n v \<or> dec s' v"
  by (simp add: env_def)

lemma env_sig: "env u s s' \<Longrightarrow> n \<le> tickets s \<Longrightarrow> \<not> pend s n v \<Longrightarrow> \<not> pend s' n v \<and> sig s' n v = sig s n v"
  by (simp add: env_def)

lemma env_owned:
  "env u s s' \<Longrightarrow> t \<noteq> u \<Longrightarrow> owner s v = Some t \<Longrightarrow>
   committed_version s' v = committed_version s v \<and> version_of s' v = version_of s v"
  by (simp add: env_def)

lemma env_log: "env u s s' \<Longrightarrow> log s n = Some e \<Longrightarrow> log s' n = Some e"
  by (simp add: env_def)

lemma env_newer:
  assumes "env u s s'" and "rv l \<le> clock (the_clock s)"
  shows "rv l < committed_version s v \<or> dec s v \<Longrightarrow> rv l < committed_version s' v \<or> dec s' v"
  using env_committed [OF assms(1), of v] env_dec [OF assms(1), of v] assms(2) by auto

lemma snap_env:
  assumes "env u s s'" and "snap_inv s l"
  shows "snap_inv s' l"
proof -
  have le: "rv l \<le> clock (the_clock s)" and st: "start l < tickets s"
    using assms(2) by (simp_all add: snap_inv_def)
  have "rv l < committed_version s' v \<or> dec s' v" if "start l \<le> n" "writes (log s') n v" for n v
    using env_newer [OF assms(1) le, of v] env_writes [OF assms(1) that(2)] assms(2) that(1)
    by (auto simp: snap_inv_def)
  moreover have "committed s' v = snap l v" if "committed_version s' v \<le> rv l" for v
    using env_committed [OF assms(1), of v] that le assms(2) by (auto simp: snap_inv_def)
  moreover have "snap l v = x \<and> sig s' (start l) v = x \<and> \<not> pend s' (start l) v" if "seen l v = Some x" for v x
  proof -
    have "snap l v = x" "sig s (start l) v = x" "\<not> pend s (start l) v"
      using assms(2) that by (auto simp: snap_inv_def)
    then show ?thesis using env_sig [OF assms(1), of "start l" v] st by simp
  qed
  ultimately show ?thesis
    using env_clock [OF assms(1)] env_tickets [OF assms(1)] le st by (simp add: snap_inv_def)
qed

lemma logged_env: "env u s s' \<Longrightarrow> logged s l \<Longrightarrow> logged s' l"
  by (auto simp: logged_def dest: env_log)

lemma jobs_env: "env u s s' \<Longrightarrow> jobs_inv s l \<Longrightarrow> jobs_inv s' l"
  unfolding jobs_inv_def by (meson env_log)

lemma fresh_env: "env u s s' \<Longrightarrow> snap_inv s l \<Longrightarrow> fresh s l v x \<Longrightarrow> fresh s' l v x"
  using env_newer [of u s s' l v] by (auto simp: fresh_def snap_inv_def)

lemma validated_env:
  assumes "env u s s'" and "validated s l j" and "ticket l \<le> tickets s"
  shows "validated s' l j"
  using assms(2) env_sig [OF assms(1,3)] by (fastforce simp: validated_def)

lemma held_env:
  assumes "env u s s'" and "own_inv s" and "t \<noteq> u" and "v \<in> held (threads s t)"
  shows "committed_version s' v = committed_version s v \<and> version_of s' v = version_of s v"
  using env_owned [OF assms(1,3)] assms(2,4) by (simp add: own_inv_def)

lemma in_held_Unlock_Store: "pc l = Unlock_Store j n x \<Longrightarrow> j < n \<Longrightarrow> n \<le> length (dests l) \<Longrightarrow> dests l ! j \<in> held l"
  by (auto simp: held_def in_set_conv_nth intro!: exI [of _ 0])

lemma entry_env:
  assumes "env u s s'" and "entry_ok s n e"
  shows "entry_ok s' n e"
proof -
  have "n \<le> tickets s" using assms(2) by (auto simp: entry_ok_def)
  then have "sig s' n v = x \<and> \<not> pend s' n v" if "e_seen e v = Some x" for v x
    using assms(2) that env_sig [OF assms(1), of n v] by (auto simp: entry_ok_def)
  then show ?thesis
    using assms(2) env_tickets [OF assms(1)] unfolding entry_ok_def by auto
qed

text \<open>The log part of the invariant only needs the new entries to be checked.\<close>

lemma log_inv_env:
  assumes "env u s s'" and "log_inv s" and "\<And>n e. log s' n = Some e \<Longrightarrow> log s n = None \<Longrightarrow> entry_ok s' n e"
  shows "log_inv s'"
  unfolding log_inv_def
proof (intro allI impI)
  fix n e assume l: "log s' n = Some e"
  show "entry_ok s' n e"
  proof (cases "log s n")
    case (Some e')
    then have "e' = e" using env_log [OF assms(1) Some] l by simp
    then show ?thesis using Some assms(2) entry_env [OF assms(1)] by (simp add: log_inv_def)
  qed (use assms(3) l in blast)
qed

text \<open>The local part of a thread survives the steps of the others.\<close>

lemma tinv_env:
  assumes e: "env u s s'" and g: "ginv s" and "t \<noteq> u" and t: "tinv s (threads s t)"
  shows "tinv s' (threads s' t)"
proof -
  let ?l = "threads s t"
  have l: "threads s' t = ?l" using env_threads [OF e] assms(3) .
  have o: "own_inv s" and tick: "n \<in> live ?l \<Longrightarrow> n < tickets s" for n
    using g by (auto simp: ginv_def live_inv_def)
  note h = held_env [OF e o assms(3)]
  have fr: "fresh s ?l v x \<Longrightarrow> active_t ?l \<Longrightarrow> fresh s' ?l v x" for v x
    using fresh_env [OF e] t by (simp add: tinv_def)
  have old: "old_versions s ?l \<Longrightarrow> old_versions s' ?l"
    using h by (simp add: old_versions_def)
  have val: "validated s' ?l j" if "pc ?l = Validate j" "validated s ?l j" for j
    using validated_env [OF e that(2)] tick [of "ticket ?l"] that(1) by (simp add: live_def)
  have pub: "committed_version s' v = x" if "\<forall>v \<in> held ?l. committed_version s v = x" "v \<in> held ?l" for v x
    using h that by simp
  have un: "version_of s' (dests ?l ! j) = version_of s (dests ?l ! j)"
    if "pc ?l = Unlock_Store j n x" "j < n" "n \<le> length (dests ?l)" for j n x
    using h in_held_Unlock_Store [OF that] by simp
  have "pc_inv s' ?l"
    using t un pub val old fr logged_env [OF e, of ?l]
    unfolding tinv_def pc_inv_def active_t_def
    by (cases "pc ?l") auto
  then show ?thesis
    using t snap_env [OF e] jobs_env [OF e] unfolding l by (simp add: tinv_def)
qed

text \<open>So an invariant is kept by a step that keeps the global part and the mover's local part.\<close>

definition moves :: "nat \<Rightarrow> 'r sys \<Rightarrow> 'r sys \<Rightarrow> bool" where
  "moves u s s' \<longleftrightarrow> stm_inv s' \<and> env u s s'"

lemma stm_inv_move:
  assumes "stm_inv s" and "env u s s'" and "ginv s'" and "tinv s' (threads s' u)"
  shows "moves u s s'"
  unfolding moves_def stm_inv_def
proof (intro conjI allI)
  fix t
  show "tinv s' (threads s' t)"
    using assms tinv_env [OF assms(2)] by (cases "t = u") (auto simp: stm_inv_def)
qed (rule assms(3), rule assms(2))

end
