(* ===== verification/Stm_Steps.thy ===== *)
theory Stm_Steps
  imports Stm_Inv
begin

text \<open>
  Every step of the concurrent machine keeps the invariant of \<^verbatim>\<open>Stm_Inv\<close>. A step that touches no
  shared word and takes no ticket is an instance of one lemma; the others (the load of the clock,
  taking and releasing a lock, the decision to commit, a write back, the bump of the clock and the
  publication of a version) have one lemma each for the global part.
\<close>

section \<open>Steps on the thread's own data\<close>

lemma put_simps [simp]:
  "threads (put u l s) = (threads s)(u := l)" "version_of (put u l s) = version_of s"
  "storage_of (put u l s) = storage_of s" "the_clock (put u l s) = the_clock s"
  "committed (put u l s) = committed s" "committed_version (put u l s) = committed_version s"
  "owner (put u l s) = owner s" "log (put u l s) = log s" "tickets (put u l s) = tickets s"
  "initial (put u l s) = initial s"
  by (simp_all add: put_def)

section \<open>The global parts, variable by variable\<close>

lemma ver_at:
  "ginv s \<Longrightarrow> case owner s v of None \<Rightarrow> version_of s v = committed_version s v
    | Some t \<Rightarrow> locked (version_of s v) \<and> (\<not> publishing_t (threads s t) \<longrightarrow> version_of s v = as_locked (committed_version s v))"
  by (simp add: ginv_def ver_inv_def)

lemma sto_at:
  "ginv s \<Longrightarrow> storage_of s v = (case owner s v of None \<Rightarrow> committed s v
    | Some t \<Rightarrow> if v \<in> written (threads s t) then the (hs_view (ws (threads s t)) v) else committed s v)"
  by (simp add: ginv_def sto_inv_def)

lemma ser_at:
  "ginv s \<Longrightarrow> sig s (tickets s) v = (case owner s v of None \<Rightarrow> committed s v
    | Some t \<Rightarrow> if decided_t (threads s t) then the (hs_view (ws (threads s t)) v) else committed s v)"
  by (simp add: ginv_def ser_inv_def)

lemma clock_at: "ginv s \<Longrightarrow> committed_version s v \<le> clock (the_clock s)" "ginv s \<Longrightarrow> \<not> locked (clock (the_clock s))"
  by (simp_all add: ginv_def ver_inv_def)

lemma version_unlocked: "ginv s \<Longrightarrow> \<not> locked (committed_version s v)"
  using clock_at unlocked_le by blast

lemma owner_held: "ginv s \<Longrightarrow> owner s v = Some t \<longleftrightarrow> v \<in> held (threads s t)"
  by (simp add: ginv_def own_inv_def)

lemma log_above: "ginv s \<Longrightarrow> tickets s \<le> n \<Longrightarrow> log s n = None"
  by (simp add: ginv_def live_inv_def)

lemma live_free: "ginv s \<Longrightarrow> n \<in> live (threads s t) \<Longrightarrow> n < tickets s \<and> log s n = None"
  by (simp add: ginv_def live_inv_def)

lemma live_disjoint: "ginv s \<Longrightarrow> t \<noteq> u \<Longrightarrow> n \<in> live (threads s t) \<Longrightarrow> n \<notin> live (threads s u)"
  unfolding ginv_def live_inv_def by blast

definition var_ok :: "'r sys \<Rightarrow> var_ref \<Rightarrow> bool" where
  "var_ok s v \<longleftrightarrow> committed_version s v \<le> clock (the_clock s) \<and>
     (case owner s v of
        None \<Rightarrow> version_of s v = committed_version s v \<and> storage_of s v = committed s v
          \<and> sig s (tickets s) v = committed s v
      | Some t \<Rightarrow> locked (version_of s v)
          \<and> (\<not> publishing_t (threads s t) \<longrightarrow> version_of s v = as_locked (committed_version s v))
          \<and> storage_of s v = (if v \<in> written (threads s t) then the (hs_view (ws (threads s t)) v) else committed s v)
          \<and> sig s (tickets s) v = (if decided_t (threads s t) then the (hs_view (ws (threads s t)) v) else committed s v))"

lemma var_ok_at: "ginv s \<Longrightarrow> var_ok s v"
  using ver_at [of s v] sto_at [of s v] ser_at [of s v] clock_at(1) [of s v]
  by (cases "owner s v") (simp_all add: var_ok_def)

lemma ginvI:
  assumes v: "\<And>v. var_ok s v" and "own_inv s" and "\<not> locked (clock (the_clock s))" and "live_inv s" and "log_inv s"
  shows "ginv s"
proof -
  have c: "committed_version s v \<le> clock (the_clock s)" for v using v [of v] by (simp add: var_ok_def)
  have "ver_inv s"
    unfolding ver_inv_def
  proof (intro conjI allI)
    fix v show "case owner s v of None \<Rightarrow> version_of s v = committed_version s v
      | Some t \<Rightarrow> locked (version_of s v) \<and> (\<not> publishing_t (threads s t) \<longrightarrow> version_of s v = as_locked (committed_version s v))"
      using v [of v] by (cases "owner s v") (simp_all add: var_ok_def)
  qed (use assms(3) c in simp_all)
  moreover have "sto_inv s"
    unfolding sto_inv_def
  proof
    fix v show "storage_of s v = (case owner s v of None \<Rightarrow> committed s v
      | Some t \<Rightarrow> if v \<in> written (threads s t) then the (hs_view (ws (threads s t)) v) else committed s v)"
      using v [of v] by (cases "owner s v") (simp_all add: var_ok_def)
  qed
  moreover have "ser_inv s"
    unfolding ser_inv_def
  proof
    fix v show "sig s (tickets s) v = (case owner s v of None \<Rightarrow> committed s v
      | Some t \<Rightarrow> if decided_t (threads s t) then the (hs_view (ws (threads s t)) v) else committed s v)"
      using v [of v] by (cases "owner s v") (simp_all add: var_ok_def)
  qed
  ultimately show ?thesis using assms by (simp add: ginv_def)
qed

text \<open>A variable the step does not touch, seen from the thread that moves.\<close>

lemma var_ok_keep:
  assumes "ginv s" and "threads s' = (threads s)(u := l')" and "clock (the_clock s) \<le> clock (the_clock s')"
    and "committed_version s' v = committed_version s v" "committed s' v = committed s v" "version_of s' v = version_of s v"
      "storage_of s' v = storage_of s v" "owner s' v = owner s v" "sig s' (tickets s') v = sig s (tickets s) v"
    and "owner s v = Some u \<Longrightarrow> (v \<in> written l' \<longleftrightarrow> v \<in> written (threads s u)) \<and> (decided_t l' \<longleftrightarrow> decided_t (threads s u))
      \<and> (publishing_t l' \<longleftrightarrow> publishing_t (threads s u))
      \<and> (decided_t l' \<or> v \<in> written l' \<longrightarrow> ws l' = ws (threads s u))"
  shows "var_ok s' v"
  using var_ok_at [OF assms(1), of v] assms
  by (cases "owner s v") (auto simp: var_ok_def)

definition calm :: "'r thread \<Rightarrow> bool" where
  "calm l \<longleftrightarrow> \<not> decided_t l \<and> \<not> publishing_t l"

lemma calm_written: "calm l \<Longrightarrow> written l = {}"
  by (auto simp: calm_def decided_t_def written_def split: pc.splits)

lemma local_step:
  assumes g: "ginv s" and held: "held l' = held (threads s u)"
    and calm: "calm (threads s u)" "calm l'"
    and pend: "pending_t l' \<Longrightarrow> pending_t (threads s u) \<and> ticket l' = ticket (threads s u) \<and> dests l' = dests (threads s u)"
    and live: "live l' \<subseteq> live (threads s u)"
  shows "ginv (put u l' s) \<and> env u s (put u l' s)"
proof -
  let ?s = "put u l' s"
  have nd: "\<not> decided_t (threads s u)" "\<not> decided_t l'" "\<not> publishing_t (threads s u)" "\<not> publishing_t l'"
    using calm by (simp_all add: calm_def)
  note nw = calm_written [OF calm(1)] calm_written [OF calm(2)]
  have dec: "dec ?s v \<longleftrightarrow> dec s v" for v
    using nd by (auto simp: dec_def)
  have pd: "pend ?s n v \<Longrightarrow> pend s n v" for n v
    using pend by (auto simp: pend_def split: if_splits)
  have "own_inv ?s" using g held by (auto simp: ginv_def own_inv_def)
  moreover have "var_ok ?s v" for v
    by (rule var_ok_keep [OF g, where u = u and l' = l']) (use nd nw in simp_all)
  moreover have "live_inv ?s"
  proof -
    have sub: "live (threads ?s t) \<subseteq> live (threads s t)" for t using live by simp
    have "live (threads ?s a) \<inter> live (threads ?s b) = {}" if "a \<noteq> b" for a b
      using g that sub [of a] sub [of b] unfolding ginv_def live_inv_def by blast
    moreover have "\<forall>n \<in> live (threads ?s t). n < tickets ?s \<and> log ?s n = None" for t
      using g sub [of t] unfolding ginv_def live_inv_def by (simp only: put_simps) blast
    ultimately show ?thesis using g by (simp add: ginv_def live_inv_def)
  qed
  moreover have env: "env u s ?s" using dec pd by (auto simp: env_def)
  moreover have "log_inv ?s"
    by (rule log_inv_env [OF env]) (use g in \<open>auto simp: ginv_def\<close>)
  ultimately show ?thesis using clock_at(2) [OF g] by (auto intro: ginvI)
qed

lemma local_inv:
  assumes "stm_inv s" and "held l' = held (threads s u)" and "calm (threads s u)" and "calm l'"
    and "pending_t l' \<Longrightarrow> pending_t (threads s u) \<and> ticket l' = ticket (threads s u) \<and> dests l' = dests (threads s u)"
    and "live l' \<subseteq> live (threads s u)"
    and own: "own_data l'"
    and snap: "active_t l' \<Longrightarrow> active_t (threads s u) \<and> tx l' = tx (threads s u) \<and> snap l' = snap (threads s u) \<and> start l' = start (threads s u)"
    and seen: "\<And>v x. active_t l' \<Longrightarrow> seen l' v = Some x \<Longrightarrow>
      seen (threads s u) v = Some x \<or> snap (threads s u) v = x \<and> sig s (start (threads s u)) v = x \<and> \<not> pend s (start (threads s u)) v"
    and pc: "(\<And>v x. fresh (put u l' s) l' v x = fresh s l' v x) \<Longrightarrow> pc_inv s l'"
    and jobs: "jobs_inv s l'"
  shows "moves u s (put u l' s)"
proof (rule stm_inv_move [OF assms(1), where u = u])
  let ?s = "put u l' s"
  have g: "ginv s" and t: "tinv s (threads s u)" using assms(1) by (simp_all add: stm_inv_def)
  note ls = local_step [OF g assms(2-6)]
  show "ginv ?s" "env u s ?s" using ls by simp_all
  have dec: "dec ?s v \<longleftrightarrow> dec s v" for v
    using assms(3,4) by (auto simp: dec_def calm_def)
  have pd: "pend ?s n v \<Longrightarrow> pend s n v" for n v
    using assms(5) by (auto simp: pend_def split: if_splits)
  have fr: "fresh ?s l' v x = fresh s l' v x" for v x
    by (simp add: fresh_def dec)
  have "pc_inv s l'" by (rule pc) (rule fr)
  moreover have "validated s l' j \<Longrightarrow> validated ?s l' j" for j
    using pd by (fastforce simp: validated_def)
  ultimately have "pc_inv ?s l'"
    by (auto simp: pc_inv_def fr old_versions_def logged_def split: pc.splits)
  moreover have "snap_inv ?s l'" if "active_t l'"
    using snap [OF that] seen [OF that] t dec pd by (fastforce simp: tinv_def snap_inv_def)
  moreover have "jobs_inv ?s l'" using jobs by (simp add: jobs_inv_def)
  ultimately show "tinv ?s (threads ?s u)" using own by (simp add: tinv_def)
qed

section \<open>Reading\<close>

lemma pend_owned: "own_inv s \<Longrightarrow> pend s n v \<Longrightarrow> \<exists>u. owner s v = Some u \<and> pending_t (threads s u) \<and> ticket (threads s u) < n"
proof -
  assume o: "own_inv s" and "pend s n v"
  then obtain u where u: "pending_t (threads s u)" "v \<in> set (dests (threads s u))" "ticket (threads s u) < n"
    by (auto simp: pend_def)
  then have "v \<in> held (threads s u)" by (cases "pc (threads s u)") (simp_all add: pending_t_def held_def)
  then show ?thesis using o u(1,3) by (auto simp: own_inv_def)
qed

lemma quiet_sig:
  assumes "snap_inv s l" and "committed_version s v \<le> rv l" and "\<not> dec s v" and "start l \<le> n"
  shows "sig s n v = sig s (start l) v"
proof (rule sigma_quiet [OF assms(4)])
  show "\<not> writes (log s) k v" if "start l \<le> k" for k
    using that assms(1-3) unfolding snap_inv_def by (meson not_less)
qed

lemma valid_unowned:
  assumes "ginv s" and "snap_inv s l" and "version_of s v \<le> rv l"
  shows "owner s v = None" and "committed_version s v \<le> rv l" and "\<not> dec s v"
    and "committed s v = snap l v" and "sig s (start l) v = snap l v" and "\<not> pend s n v"
proof -
  have "\<not> locked (clock (the_clock s))" "rv l \<le> clock (the_clock s)"
    using assms by (simp_all add: ginv_def ver_inv_def snap_inv_def)
  then have "\<not> locked (version_of s v)"
    using assms(3) unlocked_le by (metis order.trans)
  moreover have c: "case owner s v of None \<Rightarrow> version_of s v = committed_version s v
      | Some t \<Rightarrow> locked (version_of s v) \<and> (\<not> publishing_t (threads s t) \<longrightarrow> version_of s v = as_locked (committed_version s v))"
    using assms(1) by (simp add: ginv_def ver_inv_def)
  ultimately show o: "owner s v = None" by (cases "owner s v") simp_all
  then show V: "committed_version s v \<le> rv l" using c assms(3) by simp
  show d: "\<not> dec s v" using o by (simp add: dec_def)
  show B: "committed s v = snap l v" using V assms(2) by (simp add: snap_inv_def)
  have "sig s (tickets s) v = committed s v"
    using assms(1) o by (simp add: ginv_def ser_inv_def)
  moreover have "start l \<le> tickets s" using assms(2) by (simp add: snap_inv_def)
  ultimately show "sig s (start l) v = snap l v"
    using quiet_sig [OF assms(2) V d, of "tickets s"] B by simp
  show "\<not> pend s n v"
  proof
    assume "pend s n v"
    then have "owner s v \<noteq> None" using pend_owned assms(1) unfolding ginv_def by blast
    then show False using o by simp
  qed
qed

lemma storage_fresh:
  assumes "ginv s" and "snap_inv s l"
  shows "fresh s l v (storage_of s v)"
proof -
  have s: "storage_of s v = (case owner s v of None \<Rightarrow> committed s v
      | Some t \<Rightarrow> if v \<in> written (threads s t) then the (hs_view (ws (threads s t)) v) else committed s v)"
    using assms(1) by (simp add: ginv_def sto_inv_def)
  have B: "committed_version s v \<le> rv l \<Longrightarrow> committed s v = snap l v"
    using assms(2) by (simp add: snap_inv_def)
  have w: "decided_t l" if "v \<in> written l" for l :: "'a thread"
    using that by (auto simp: written_def decided_t_def split: pc.splits)
  show ?thesis
  proof (cases "owner s v")
    case None
    then show ?thesis using s B by (auto simp: fresh_def simp flip: not_le)
  next
    case (Some t)
    then show ?thesis using s B w [of "threads s t"] by (cases "v \<in> written (threads s t)") (auto simp: fresh_def dec_def simp flip: not_le)
  qed
qed

text \<open>A read that passes the version check has returned the value the transaction began with.\<close>

lemma valid_read:
  assumes "ginv s" and "snap_inv s l" and "fresh s l v x" and "version_of s v \<le> rv l"
  shows "snap l v = x \<and> sig s (start l) v = x \<and> \<not> pend s (start l) v"
  using valid_unowned [OF assms(1,2,4)] assms(3) by (auto simp: fresh_def)

section \<open>The local steps\<close>

lemma stm_inv_g: "stm_inv s \<Longrightarrow> ginv s"
  by (simp add: stm_inv_def)

lemma stm_invD:
  assumes "stm_inv s"
  shows "own_data (threads s u)" "active_t (threads s u) \<Longrightarrow> snap_inv s (threads s u)"
    "pc_inv s (threads s u)" "jobs_inv s (threads s u)"
  using assms by (simp_all add: stm_inv_def tinv_def)

lemmas quiet_defs = phase_defs calm_def

text \<open>Moves between program points that hold no lock: only what is read and written matters.\<close>

lemma quiet_move:
  assumes "stm_inv s" and "live (threads s u) = {start (threads s u)}" and "held l' = {}" and "held (threads s u) = {}"
    and "calm (threads s u)" and "calm l'" and "\<not> pending_t l'" and "live l' \<subseteq> live (threads s u)"
    and "own_data l'" and "tx l' = tx (threads s u)" "snap l' = snap (threads s u)" "start l' = start (threads s u)"
    and "\<And>v x. seen l' v = Some x \<Longrightarrow>
      seen (threads s u) v = Some x \<or> snap (threads s u) v = x \<and> sig s (start (threads s u)) v = x \<and> \<not> pend s (start (threads s u)) v"
    and "pc_inv s l'" and "returned l' = returned (threads s u)"
  shows "moves u s (put u l' s)"
proof (rule local_inv)
  show "jobs_inv s l'" using stm_invD(4) [OF assms(1), of u] assms(15) by (simp add: jobs_inv_def)
  have "active_t (threads s u)" using assms(2) by (auto simp: live_def active_t_def split: pc.splits)
  then show "active_t (threads s u) \<and> tx l' = tx (threads s u) \<and> snap l' = snap (threads s u) \<and> start l' = start (threads s u)"
    using assms(10-12) by simp
qed (use assms in auto)

lemma step_idle_inv:
  assumes "stm_inv s" and "pc (threads s u) = Idle" and "step_idle u (threads s u) s = Some s'"
  shows "moves u s s'"
proof -
  obtain l' where "s' = put u l' s" and l': "pc l' = Start" "write_set (td l') = ws (threads s u)"
    "read_set (td l') = read_set (td (threads s u))" "returned l' = returned (threads s u)"
    using assms(3) that by (auto simp: step_idle_def split: list.splits)
  then show ?thesis
    using stm_invD [OF assms(1), of u] assms(2)
    by (auto intro!: local_inv [OF assms(1)] simp: quiet_defs own_data_def pc_inv_def jobs_inv_def)
qed

lemma step_access_lock_inv:
  assumes "stm_inv s" and "pc (threads s u) = Announce"
  shows "moves u s (step_access_lock u (threads s u) s)"
  using stm_invD [OF assms(1), of u] assms(2) unfolding step_access_lock_def
  by (intro quiet_move [OF assms(1)]) (auto simp: quiet_defs own_data_def pc_inv_def td_access_lock_def)

lemma step_get_inv:
  assumes "stm_inv s" and "pc (threads s u) = Body (P_Get v k)"
  shows "moves u s (step_get u (threads s u) v k s)"
proof -
  have "snap_inv s (threads s u)" using stm_invD(2) [OF assms(1), of u] assms(2) by (simp add: active_t_def)
  then have "fresh s (threads s u) v (storage_of s v)"
    using storage_fresh stm_inv_g [OF assms(1)] by blast
  then show ?thesis
    using stm_invD [OF assms(1), of u] assms(2) filter_miss [of "ws (threads s u)" v] unfolding step_get_def
    by (auto intro!: quiet_move [OF assms(1)] simp: quiet_defs own_data_def pc_inv_def fresh_def)
qed

lemma overlay_read: "v \<notin> set (hs_dests w) \<Longrightarrow> overlay st (hs_view w) v = st v"
  by (simp add: ws_simps)

lemma read_cont:
  assumes "own_data l" and "cont l = Some (P_Get v k)" and "v \<notin> set (dests l)"
    and "\<And>y. seen l v = Some y \<Longrightarrow> y = r" and "\<And>u x. ((seen l)(v \<mapsto> r)) u = Some x \<Longrightarrow> st u = x"
  shows "p_exec (func l) st = p_exec (k r) (overlay st (hs_view (ws l)))"
proof -
  have "st u = x" if "seen l u = Some x" for u x
    using assms(4) assms(5) [of u x] that by (cases "u = v") auto
  moreover have "st v = r" using assms(5) [of v r] by simp
  ultimately show ?thesis
    using assms(1-3) by (simp add: own_data_def overlay_read)
qed

lemma seen_snap: "snap_inv s l \<Longrightarrow> seen l v = Some y \<Longrightarrow> snap l v = y"
  by (simp add: snap_inv_def)

text \<open>A read that succeeds, in whichever of the paths.\<close>

lemma read_move:
  assumes i: "stm_inv s" and l: "l = threads s u" and c: "cont l = Some (P_Get v k)" and live: "live l = {start l}"
    and h: "held l = {}" "calm l" and v: "v \<notin> set (dests l)" and f: "fresh s l v r" and ok: "version_of s v \<le> rv l"
    and l': "pc l' = Body (k r)" "ws l' = ws l" "seen l' = (seen l)(v \<mapsto> r)" "pv_inv (read_set (td l'))"
      "tx l' = tx l" "snap l' = snap l" "start l' = start l" "func l' = func l" "returned l' = returned l"
      "can_write (tx l) \<Longrightarrow> set (pv_items (read_set (td l'))) = insert v (set (pv_items (read_set (td l))))"
  shows "moves u s (put u l' s)"
proof -
  have a: "active_t l" using live by (auto simp: live_def active_t_def split: pc.splits)
  then have sn: "snap_inv s l" using stm_invD [OF i, of u] l by simp
  have val: "snap l v = r \<and> sig s (start l) v = r \<and> \<not> pend s (start l) v"
    by (rule valid_read [OF stm_inv_g [OF i] sn f ok])
  have own: "own_data l" using stm_invD [OF i, of u] l by simp
  have "p_exec (func l) st = p_exec (k r) (overlay st (hs_view (ws l)))"
    if "\<forall>u x. ((seen l)(v \<mapsto> r)) u = Some x \<longrightarrow> st u = x" for st
    by (rule read_cont [OF own c v]) (use that seen_snap [OF sn] val in auto)
  moreover have "dom (seen l') \<subseteq> set (pv_items (read_set (td l'))) \<union> set (dests l)" if "can_write (tx l)"
    using own a that l'(3,10) by (auto simp: own_data_def)
  moreover have "active_t l'" "cont l' = Some (k r)" using l' by (simp_all add: active_t_def cont_def)
  ultimately have "own_data l'"
    using own a l' by (auto simp: own_data_def)
  then show ?thesis
    using val l l' live h by (intro quiet_move [OF i]) (auto simp: quiet_defs pc_inv_def split: if_splits)
qed

lemma step_get_fast_inv:
  assumes "stm_inv s" and "pc (threads s u) = Get_Fast v r k"
  shows "moves u s (step_get_fast u (threads s u) v r k s)"
proof (cases "version_of s v \<le> rv (threads s u)")
  case True
  then show ?thesis
    using stm_invD [OF assms(1), of u] assms(2) unfolding step_get_fast_def
    by (auto intro!: read_move [OF assms(1) refl, where v = v and r = r and k = k]
        simp: rw_valid_def quiet_defs pc_inv_def own_data_def unchecked_emplace_back_eq unchecked_emplace_back_assert_def emplace_back_inv vec_simps)
next
  case False
  then show ?thesis
    using stm_invD [OF assms(1), of u] assms(2) unfolding step_get_fast_def
    by (auto intro!: quiet_move [OF assms(1)] simp: rw_valid_def quiet_defs own_data_def pc_inv_def)
qed

lemma step_get_slow_inv:
  assumes "stm_inv s" and "pc (threads s u) = Get_Slow v r k"
  shows "moves u s (step_get_slow u (threads s u) v r k s)"
proof (cases "version_of s v \<le> rv (threads s u)")
  case True
  then show ?thesis
    using stm_invD [OF assms(1), of u] assms(2) unfolding step_get_slow_def
    by (auto intro!: read_move [OF assms(1) refl, where v = v and r = r and k = k]
        simp: rw_valid_def quiet_defs pc_inv_def own_data_def emplace_back_inv vec_simps)
next
  case False
  then show ?thesis
    using stm_invD [OF assms(1), of u] assms(2) unfolding step_get_slow_def
    by (auto intro!: quiet_move [OF assms(1)] simp: rw_valid_def quiet_defs own_data_def pc_inv_def)
qed

lemma step_get_ro_inv:
  assumes "stm_inv s" and "pc (threads s u) = Get_Ro v r k"
  shows "moves u s (step_get_ro u (threads s u) v r k s)"
proof (cases "version_of s v \<le> rv (threads s u)")
  case True
  then show ?thesis
    using stm_invD [OF assms(1), of u] assms(2) unfolding step_get_ro_def
    by (auto intro!: read_move [OF assms(1) refl, where v = v and r = r and k = k]
        simp: rw_valid_def quiet_defs pc_inv_def own_data_def)
next
  case False
  then show ?thesis
    using stm_invD [OF assms(1), of u] assms(2) unfolding step_get_ro_def
    by (auto intro!: quiet_move [OF assms(1)] simp: rw_valid_def quiet_defs own_data_def pc_inv_def)
qed

lemma step_slow_get_inv:
  assumes "stm_inv s" and "pc (threads s u) = Slow_Get v k"
  shows "moves u s (step_slow_get u (threads s u) v k s)"
proof -
  let ?l = "threads s u"
  note d = stm_invD [OF assms(1), of u]
  have inv: "hs_inv (ws ?l)" using d(1) by (simp add: own_data_def)
  have sn: "snap_inv s ?l" using d(2) assms(2) by (simp add: active_t_def)
  have fr: "fresh s ?l v (storage_of s v)" by (rule storage_fresh [OF stm_inv_g [OF assms(1)] sn])
  show ?thesis
  proof (cases "v \<in> set (dests ?l)")
    case False
    then have "hs_find (ws ?l) v = hs_end (ws ?l)" using hs_find_found(1) [OF inv] by simp
    then show ?thesis
      using d assms(2) False fr unfolding step_slow_get_def
      by (auto intro!: quiet_move [OF assms(1)] simp: quiet_defs own_data_def pc_inv_def fresh_def)
  next
    case True
    then have find: "hs_find (ws ?l) v < hs_end (ws ?l)" "dest_var (hs_items (ws ?l) ! hs_find (ws ?l) v) = v"
      using hs_find_found(2) [OF inv] by simp_all
    then have "hs_view (ws ?l) v = Some (hs_pending_at (ws ?l) (hs_find (ws ?l) v))"
      using hs_view_nth [OF inv] hs_pending_at_items [OF inv] by metis
    then show ?thesis
      using d assms(2) find(1) unfolding step_slow_get_def
      by (auto intro!: quiet_move [OF assms(1)] simp: quiet_defs own_data_def pc_inv_def)
  qed
qed

section \<open>Writing\<close>

lemma write_cont:
  assumes "own_data l" and "cont l = Some (P_Set v x p)" and "\<And>u y. seen l u = Some y \<Longrightarrow> st u = y"
    and "m = (hs_view (ws l))(v \<mapsto> x)"
  shows "p_exec (func l) st = p_exec p (overlay st m)"
  using assms by (simp add: own_data_def overlay_update)

lemma write_move:
  assumes i: "stm_inv s" and l: "l = threads s u" and c: "cont l = Some (P_Set v x p)" and live: "live l = {start l}"
    and h: "held l = {}" "calm l" and cw: "can_write (tx l)"
    and l': "pc l' = Body p \<or> pc l' = Abort" "hs_inv (ws l')" "hs_view (ws l') = (hs_view (ws l))(v \<mapsto> x)"
      "read_set (td l') = read_set (td l)" "seen l' = seen l"
      "tx l' = tx l" "snap l' = snap l" "start l' = start l" "func l' = func l" "returned l' = returned l"
  shows "moves u s (put u l' s)"
proof -
  have own: "own_data l" using stm_invD [OF i, of u] l by simp
  have a: "active_t l" using live by (auto simp: live_def active_t_def split: pc.splits)
  have "set (dests l') = insert v (set (dests l))"
    using arg_cong [OF l'(3), of dom] by (simp add: ws_simps)
  moreover have "p_exec (func l) st = p_exec p (overlay st (hs_view (ws l')))"
    if "\<forall>u y. seen l u = Some y \<longrightarrow> st u = y" for st
    by (rule write_cont [OF own c _ l'(3)]) (use that in auto)
  moreover have "active_t l'" "cont l' = Some q \<Longrightarrow> q = p" for q
    using l'(1) by (auto simp: active_t_def cont_def)
  ultimately have "own_data l'"
    using own a l' cw by (auto simp: own_data_def)
  then show ?thesis
    using l l' live h by (intro quiet_move [OF i]) (auto simp: quiet_defs pc_inv_def)
qed

lemma looked_up_write:
  assumes "hs_inv (write_set d)" and "lookup = hs_lookup (write_set d) v"
    and "d' = (if \<not> lookup_success lookup then add_write_set v x (wl_hash lookup) d
      else d\<lparr> write_set := hs_set_pending (the (wl_pending_write lookup)) x (write_set d) \<rparr>)"
  shows "hs_inv (write_set d')" and "hs_view (write_set d') = (hs_view (write_set d))(v \<mapsto> x)"
    and "read_set d' = read_set d"
proof -
  let ?w = "write_set d"
  have "hs_inv (write_set d') \<and> hs_view (write_set d') = (hs_view ?w)(v \<mapsto> x) \<and> read_set d' = read_set d"
  proof (cases "v \<in> set (hs_dests ?w)")
    case False
    then show ?thesis
      using assms hs_push_back_inv [of ?w v x] by (simp add: ws_simps add_write_set_def)
  next
    case True
    note f = hs_find_found(2) [OF assms(1) True]
    have "d' = d\<lparr> write_set := hs_set_pending (hs_find ?w v) x ?w \<rparr>"
      using assms True by (simp add: ws_simps) (simp add: hs_lookup_eq lookup_of_pending_def)
    then show ?thesis
      using f hs_set_pending_inv [OF assms(1), of "hs_find ?w v" x] hs_set_pending_view [OF assms(1), of "hs_find ?w v" x]
      by simp
  qed
  then show "hs_inv (write_set d')" "hs_view (write_set d') = (hs_view (write_set d))(v \<mapsto> x)" "read_set d' = read_set d"
    by simp_all
qed

lemma step_set_inv:
  assumes "stm_inv s" and "pc (threads s u) = Body (P_Set v x p)" and "step_set u (threads s u) v x p s = Some s'"
  shows "moves u s s'"
proof -
  let ?l = "threads s u"
  have inv: "hs_inv (ws ?l)" using stm_invD(1) [OF assms(1)] by (simp add: own_data_def)
  have cw: "can_write (tx ?l)" using assms(3) by (auto simp: step_set_def split: if_splits)
  consider "s' = put u (?l\<lparr> pc := Set_Slow v x p \<rparr>) s"
    | "\<not> hs_allocates_on_next_push (ws ?l)" "hs_filter (ws ?l) AND var_hash v = 0"
      "s' = put u (?l\<lparr> pc := Body p, td := add_write_set_unchecked v x (var_hash v) (td ?l) \<rparr>) s"
    using assms(3) cw by (auto simp: step_set_def Let_def split: if_splits)
  then show ?thesis
  proof cases
    case 1
    then show ?thesis
      using stm_invD [OF assms(1), of u] assms(2) cw unfolding 1
      by (auto intro!: quiet_move [OF assms(1)] simp: quiet_defs own_data_def pc_inv_def)
  next
    case 2
    have "v \<notin> set (dests ?l)" using filter_miss [OF inv 2(2)] .
    then show ?thesis
      using assms(2) cw 2 inv hs_push_back_inv [OF inv, of v x]
      by (auto intro!: write_move [OF assms(1) refl, where v = v and x = x and p = p]
          simp: quiet_defs add_write_set_unchecked_def hs_unchecked_push_back_eq ws_simps)
  qed
qed

lemma step_set_slow_inv:
  assumes "stm_inv s" and "pc (threads s u) = Set_Slow v x p"
  shows "moves u s (step_set_slow u (threads s u) v x p s)"
proof -
  let ?l = "threads s u"
  have inv: "hs_inv (ws ?l)" and cw: "can_write (tx ?l)"
    using stm_invD [OF assms(1), of u] assms(2) by (simp_all add: own_data_def pc_inv_def)
  note w = looked_up_write [OF inv refl refl, of v x]
  show ?thesis
    unfolding step_set_slow_def Let_def
    using assms(2) cw w
    by (auto intro!: write_move [OF assms(1) refl, where v = v and x = x and p = p] simp: quiet_defs)
qed

section \<open>The end of an attempt\<close>

lemma step_leave_inv:
  assumes "stm_inv s" and "pc (threads s u) = Body p" and "x = Unwind \<or> x = Abort"
  shows "moves u s (put u ((threads s u)\<lparr> pc := x \<rparr>) s)"
  using stm_invD [OF assms(1), of u] assms(2,3)
  by (auto intro!: quiet_move [OF assms(1)] simp: quiet_defs own_data_def pc_inv_def)

lemma cleared: 
  "hs_inv (write_set d) \<Longrightarrow> pv_inv (read_set d) \<Longrightarrow>
   hs_inv (write_set (clear_read_write_sets d)) \<and> pv_inv (read_set (clear_read_write_sets d))
   \<and> hs_dests (write_set (clear_read_write_sets d)) = []"
  by (simp add: clear_read_write_sets_def hs_clear_refines pv_clear_refines hs_dests_def)

lemma over_move:
  assumes i: "stm_inv s" and h: "held (threads s u) = {}" "calm (threads s u)"
    and l': "pc l' = Idle \<or> pc l' = Start" "hs_inv (ws l')" "pv_inv (read_set (td l'))" "dests l' = []"
    and jobs: "jobs_inv s l'"
  shows "moves u s (put u l' s)"
  using l' h by (intro local_inv [OF i _ _ _ _ _ _ _ _ _ jobs]) (auto simp: quiet_defs own_data_def pc_inv_def)

lemma access_unlock_sets [simp]: "write_set (td_access_unlock d) = write_set d" "read_set (td_access_unlock d) = read_set d"
  by (simp_all add: td_access_unlock_def)

lemma step_abort_inv:
  assumes "stm_inv s" and "pc (threads s u) = Abort"
  shows "moves u s (step_abort u (threads s u) s)"
  using stm_invD [OF assms(1), of u] assms(2) cleared [of "td_access_unlock (td (threads s u))"]
  unfolding step_abort_def
  by (intro over_move [OF assms(1)]) (simp_all add: quiet_defs own_data_def jobs_inv_def)

lemma step_unwind_inv:
  assumes "stm_inv s" and "pc (threads s u) = Unwind"
  shows "moves u s (step_unwind u (threads s u) s)"
  using stm_invD [OF assms(1), of u] assms(2) cleared [of "td_access_unlock (td (threads s u))"]
  unfolding step_unwind_def
  by (intro over_move [OF assms(1)]) (auto simp: quiet_defs own_data_def jobs_inv_def)

lemma step_success_inv:
  assumes "stm_inv s" and "pc (threads s u) = Success"
  shows "moves u s (step_success u (threads s u) s)"
  using stm_invD [OF assms(1), of u] assms(2)
    cleared [of "(td_access_unlock (td (threads s u)))\<lparr> tx_state := None_kind \<rparr>"]
  unfolding step_success_def
  by (intro over_move [OF assms(1)]) (auto simp: quiet_defs own_data_def jobs_inv_def pc_inv_def logged_def)

section \<open>Locking, without success, and validation\<close>

lemma step_return_lock_inv:
  assumes "stm_inv s" and "pc (threads s u) = Body (P_Return r)"
    and "can_write (tx (threads s u))" and "\<not> hs_empty (ws (threads s u))"
  shows "moves u s (step_return u (threads s u) r s)"
proof -
  let ?l = "threads s u"
  have inv: "pv_inv (read_set (td ?l))" "hs_inv (ws ?l)"
    using stm_invD [OF assms(1), of u] by (simp_all add: own_data_def)
  obtain rs where rs: "remove_writes_from_reads (td ?l) = (td ?l)\<lparr> read_set := rs \<rparr>" "pv_inv rs"
    and ms: "mset (pv_items rs) = filter_mset (\<lambda>v. v \<notin> set (dests ?l)) (mset (pv_items (read_set (td ?l))))"
    by (rule remove_writes_from_reads_spec [OF inv])
  have "set (pv_items rs) = set (pv_items (read_set (td ?l))) - set (dests ?l)"
    using arg_cong [OF ms, of set_mset] by auto
  moreover have "dests ?l \<noteq> []" using assms(4) by (simp add: hs_empty_dests)
  ultimately show ?thesis
    using stm_invD [OF assms(1), of u] assms(2-4) rs unfolding step_return_def
    by (auto intro!: quiet_move [OF assms(1)] simp: quiet_defs own_data_def pc_inv_def old_versions_def)
qed

text \<open>Between taking the first lock and giving the last one back.\<close>

lemma lock_move:
  assumes "stm_inv s" and "held l' = held (threads s u)" and "calm (threads s u)" and "calm l'"
    and "pending_t l' \<Longrightarrow> pending_t (threads s u)"
    and "live l' \<subseteq> live (threads s u)" and "active_t (threads s u)"
    and "cont l' = None \<or> cont l' = cont (threads s u)" and "active_t l'"
    and l': "td l' = td (threads s u)" "tx l' = tx (threads s u)" "snap l' = snap (threads s u)" "start l' = start (threads s u)"
      "seen l' = seen (threads s u)" "func l' = func (threads s u)" "ticket l' = ticket (threads s u)" "returned l' = returned (threads s u)"
    and pc: "pc_inv s l'"
  shows "moves u s (put u l' s)"
proof (rule local_inv [OF assms(1)])
  note d = stm_invD [OF assms(1), of u]
  show "own_data l'" using d(1) assms(7-9) l' by (auto simp: own_data_def)
  show "jobs_inv s l'" using d(4) l' by (simp add: jobs_inv_def)
qed (use assms in auto)

lemma step_lock_inv:
  assumes "stm_inv s" and "pc (threads s u) = Lock i"
  shows "moves u s (step_lock u (threads s u) i s)"
  using stm_invD [OF assms(1), of u] assms(2) unfolding step_lock_def
  by (auto simp: Let_def rw_valid_def intro!: lock_move [OF assms(1)])
    (auto simp: quiet_defs pc_inv_def old_versions_def)

lemma step_lock_cas_fail_inv:
  assumes "stm_inv s" and "pc (threads s u) = Lock_Cas i x"
    and "version_of s (hs_dest_at (ws (threads s u)) i) \<noteq> x"
  shows "moves u s (step_lock_cas u (threads s u) i x s)"
  using stm_invD [OF assms(1), of u] assms(2,3) unfolding step_lock_cas_def
  by (auto simp: Let_def rw_valid_def intro!: lock_move [OF assms(1)])
    (auto simp: quiet_defs pc_inv_def old_versions_def)

lemma step_unlock_inv:
  assumes "stm_inv s" and "pc (threads s u) = Unlock j n"
  shows "moves u s (step_unlock u (threads s u) j n s)"
proof -
  note d = stm_invD [OF assms(1), of u]
  have "j < n" "n \<le> length (dests (threads s u))" using d(3) assms(2) by (simp_all add: pc_inv_def)
  moreover have "hs_inv (ws (threads s u))" using d(1) by (simp add: own_data_def)
  ultimately have "hs_dest_at (ws (threads s u)) j = dests (threads s u) ! j"
    by (simp add: hs_dest_at_nth hs_end_dests)
  then show ?thesis
    using d(3) assms(2) unfolding step_unlock_def
    by (intro lock_move [OF assms(1)]) (simp_all add: quiet_defs pc_inv_def)
qed

text \<open>A variable that passes validation has not changed since the transaction began, up to its ticket.\<close>

lemma validate_one:
  assumes "ginv s" and "snap_inv s l" and "version_of s v \<le> rv l" and "start l \<le> ticket l" and "seen l v = Some x"
  shows "sig s (ticket l) v = x \<and> \<not> pend s (ticket l) v"
proof -
  note v = valid_unowned [OF assms(1-3)]
  have "sig s (ticket l) v = sig s (start l) v" by (rule quiet_sig [OF assms(2) v(2,3) assms(4)])
  then show ?thesis using v(5,6) seen_snap [OF assms(2,5)] by simp
qed

lemma step_validate_inv:
  assumes "stm_inv s" and "pc (threads s u) = Validate j" and "pv_deref (read_set (td (threads s u))) j = Some v"
  shows "moves u s (step_validate u (threads s u) j s)"
proof -
  let ?l = "threads s u"
  note d = stm_invD [OF assms(1), of u]
  have inv: "pv_inv (read_set (td ?l))" using d(1) by (simp add: own_data_def)
  then have j: "j < length (pv_items (read_set (td ?l)))" "v = pv_items (read_set (td ?l)) ! j"
    using assms(3) by (auto simp: pv_deref_items split: if_splits)
  have sn: "snap_inv s ?l" using d(2) assms(2) by (simp add: active_t_def)
  have "validated s ?l (Suc j)" if "version_of s v \<le> rv ?l"
    using d(3) assms(2) j validate_one [OF stm_inv_g [OF assms(1)] sn that]
    by (auto simp: validated_def pc_inv_def take_Suc_conv_app_nth)
  then show ?thesis
    using d assms(2,3) unfolding step_validate_def
    by (auto simp: Let_def rw_valid_def hs_end_dests intro!: lock_move [OF assms(1)])
      (auto simp: quiet_defs pc_inv_def own_data_def validated_def old_versions_def)
qed

section \<open>Tickets and locks\<close>

text \<open>A thread that takes the next ticket, or gives one up, keeps the tickets apart.\<close>

lemma live_step:
  assumes g: "ginv s" and "threads s' = (threads s)(u := l')" and "tickets s \<le> tickets s'"
    and "\<And>n. n \<in> live l' \<Longrightarrow> n \<in> live (threads s u) \<and> log s' n = None \<or> n = tickets s \<and> tickets s < tickets s' \<and> log s' n = None"
    and "\<And>n. log s' n = log s n \<or> n \<in> live (threads s u) \<and> n \<notin> live l'"
  shows "live_inv s'"
proof -
  have "log s' n = None" if "tickets s' \<le> n" for n
    using that assms(3) assms(5) [of n] log_above [OF g, of n] live_free [OF g, of n u] by auto
  moreover have own: "n < tickets s' \<and> log s' n = None" if "n \<in> live l'" for n
    using assms(4) [OF that] live_free [OF g, of n u] assms(3) by auto
  moreover have "n < tickets s' \<and> log s' n = None" if "t \<noteq> u" "n \<in> live (threads s t)" for t n
    using that live_free [OF g that(2)] live_disjoint [OF g that] assms(3) assms(5) [of n] by auto
  moreover have "n \<notin> live l'" if "t \<noteq> u" "n \<in> live (threads s t)" for t n
    using that live_free [OF g that(2)] live_disjoint [OF g that] assms(4) [of n] by auto
  moreover have "live (threads s' a) \<inter> live (threads s' b) = {}" if "a \<noteq> b" for a b
    using that live_disjoint [OF g that] calculation(4) unfolding assms(2) by (cases "a = u"; cases "b = u") auto
  ultimately show ?thesis
    unfolding live_inv_def assms(2) by auto
qed

lemma own_keep:
  assumes "ginv s" and "threads s' = (threads s)(u := l')" and "owner s' = owner s" and "held l' = held (threads s u)"
  shows "own_inv s'"
  using assms owner_held by (auto simp: own_inv_def)

lemma own_take:
  assumes "ginv s" and "threads s' = (threads s)(u := l')" and "owner s v = None"
    and "owner s' = (owner s)(v := Some u)" and "held l' = insert v (held (threads s u))"
  shows "own_inv s'"
proof -
  have "v \<notin> held (threads s t)" for t using owner_held [OF assms(1), of v t] assms(3) by simp
  then show ?thesis using assms owner_held [OF assms(1)] by (auto simp: own_inv_def)
qed

lemma own_drop:
  assumes "ginv s" and "threads s' = (threads s)(u := l')" and "v \<in> held (threads s u)"
    and "owner s' = (owner s)(v := None)" and "held l' = held (threads s u) - {v}"
  shows "own_inv s'"
proof -
  have "owner s v = Some u" using owner_held [OF assms(1)] assms(3) by simp
  then have "v \<in> held (threads s t) \<longleftrightarrow> t = u" for t using owner_held [OF assms(1), of v t] by auto
  then show ?thesis using assms owner_held [OF assms(1)] by (auto simp: own_inv_def)
qed

section \<open>Loading the clock\<close>

lemma empty_view: "hs_dests w = [] \<Longrightarrow> hs_view w = Map.empty"
  using dom_hs_view [of w] by auto

lemma step_get_clock_inv:
  assumes i: "stm_inv s" and p: "pc (threads s u) = Start"
  shows "moves u s (step_get_clock u (threads s u) s)"
proof -
  let ?l = "threads s u" and ?s = "step_get_clock u (threads s u) s"
  note g = stm_inv_g [OF i]
  obtain l' where s': "?s = (put u l' s)\<lparr> tickets := tickets s + 1 \<rparr>" and l': "pc l' = Announce" "rv l' = clock (the_clock s)"
    "snap l' = committed s" "start l' = tickets s" "seen l' = Map.empty" "td l' = td ?l" "func l' = func ?l" "returned l' = returned ?l"
    by (rule that [of "?l\<lparr> pc := Announce, tx := if tx_state (td ?l) = Read_only then read_transaction (clock (the_clock s))
        else transaction u (clock (the_clock s)), snap := committed s, start := tickets s, seen := Map.empty \<rparr>"])
      (simp_all add: step_get_clock_def Let_def get_clock_def read_transaction_def transaction_def)
  have q: "held ?l = {}" "held l' = {}" "\<not> decided_t ?l" "\<not> decided_t l'" "\<not> publishing_t ?l" "\<not> publishing_t l'"
    "\<not> pending_t l'" "written ?l = {}" "written l' = {}" "live l' = {tickets s}"
    using p l' by (simp_all add: phase_defs)
  have sg: "sig ?s n = sig s n" for n by (simp add: s')
  have none: "log s (tickets s) = None" by (rule log_above [OF g]) simp
  have dec: "dec ?s v \<longleftrightarrow> dec s v" for v using q by (auto simp: dec_def s')
  have pd: "pend ?s n v \<Longrightarrow> pend s n v" for n v using q by (auto simp: pend_def s' split: if_splits)
  have env: "env u s ?s" using dec pd sg by (auto simp: env_def s')
  have "own_inv ?s" by (rule own_keep [OF g, where u = u and l' = l']) (simp_all add: s' q)
  moreover have "var_ok ?s v" for v
    by (rule var_ok_keep [OF g, where u = u and l' = l']) (use q none in \<open>simp_all add: s'\<close>)
  moreover have "live_inv ?s"
    by (rule live_step [OF g, where u = u and l' = l']) (use none in \<open>simp_all add: s' q\<close>)
  moreover have "log_inv ?s" by (rule log_inv_env [OF env]) (use g in \<open>auto simp: ginv_def s'\<close>)
  ultimately have "ginv ?s" using clock_at(2) [OF g] by (auto intro: ginvI simp: s')
  moreover have "tinv ?s l'"
  proof -
    note d = stm_invD [OF i, of u]
    have e: "dests ?l = []" using d(1) p by (simp add: own_data_def active_t_def)
    have "own_data l'"
      using d(1) e empty_view [OF e] l' by (simp add: own_data_def cont_def)
    moreover have "snap_inv ?s l'"
      using l' log_above [OF g] by (auto simp: snap_inv_def s' writes_def)
    moreover have "pc_inv ?s l'" using l' e by (simp add: pc_inv_def)
    moreover have "jobs_inv ?s l'" using d(4) l' by (simp add: jobs_inv_def s')
    ultimately show ?thesis by (simp add: tinv_def)
  qed
  ultimately show ?thesis
    using stm_inv_move [OF i env] by (simp add: s')
qed

section \<open>Taking and giving back a lock\<close>

lemma shared_move:
  assumes "stm_inv s" and t: "threads s' = (threads s)(u := l')" and e: "env u s s'"
    and "\<And>v. var_ok s' v" and "own_inv s'" and "\<not> locked (clock (the_clock s'))" and "live_inv s'"
    and "\<And>n e. log s' n = Some e \<Longrightarrow> log s n = None \<Longrightarrow> entry_ok s' n e"
    and "tinv s' l'"
  shows "moves u s s'"
proof (rule stm_inv_move [OF assms(1) e])
  have "log_inv s'"
    by (rule log_inv_env [OF e]) (use assms(1,8) in \<open>auto simp: stm_inv_def ginv_def\<close>)
  then show "ginv s'" using assms by (auto intro: ginvI)
  show "tinv s' (threads s' u)" using t assms(9) by simp
qed

lemma snap_same:
  "snap_inv s l \<Longrightarrow> tx l' = tx l \<Longrightarrow> snap l' = snap l \<Longrightarrow> start l' = start l \<Longrightarrow> seen l' = seen l \<Longrightarrow> snap_inv s l'"
  by (simp add: snap_inv_def)

lemma snap_next:
  assumes "stm_inv s" and "env u s s'" and "active_t (threads s u)"
    and "tx l' = tx (threads s u)" "snap l' = snap (threads s u)" "start l' = start (threads s u)" "seen l' = seen (threads s u)"
  shows "snap_inv s' l'"
  using snap_same [OF snap_env [OF assms(2) stm_invD(2) [OF assms(1,3)]] assms(4-7)] .

lemma own_next:
  assumes "own_data l" and "active_t l" and "active_t l'" and "cont l' = None \<or> cont l' = cont l"
    and "td l' = td l" "tx l' = tx l" "seen l' = seen l" "func l' = func l"
  shows "own_data l'"
  using assms by (auto simp: own_data_def)

lemma jobs_next: "stm_inv s \<Longrightarrow> env u s s' \<Longrightarrow> returned l' = returned (threads s u) \<Longrightarrow> jobs_inv s' l'"
  using jobs_env [of u s s' "threads s u"] stm_invD(4) [of s u] by (simp add: jobs_inv_def)

lemma take_Suc_set: "i < length xs \<Longrightarrow> set (take (Suc i) xs) = insert (xs ! i) (set (take i xs))"
  by (simp add: take_Suc_conv_app_nth)

lemma step_lock_cas_inv:
  assumes i: "stm_inv s" and p: "pc (threads s u) = Lock_Cas i x"
    and eq: "version_of s (hs_dest_at (ws (threads s u)) i) = x"
  shows "moves u s (step_lock_cas u (threads s u) i x s)"
proof -
  let ?l = "threads s u" and ?s = "step_lock_cas u (threads s u) i x s"
  let ?last = "Suc i = length (dests ?l)"
  define v where "v = dests ?l ! i"
  note g = stm_inv_g [OF i] and d = stm_invD [OF i, of u]
  have pcf: "can_write (tx ?l)" "i < length (dests ?l)" "old_versions s ?l" "x \<le> rv ?l" "result ?l \<noteq> None"
    using d(3) p by (simp_all add: pc_inv_def)
  have v: "hs_dest_at (ws ?l) i = v"
    using d(1) pcf(2) by (simp add: v_def own_data_def hs_dest_at_nth hs_end_dests)
  have a: "active_t ?l" using p by (simp add: active_t_def)
  have sn: "snap_inv s ?l" using d(2) a .
  have ver: "version_of s v = x" using eq v by simp
  note un = valid_unowned [OF g sn, of v, unfolded ver, OF pcf(4)]
  have Vx: "committed_version s v = x" using var_ok_at [OF g, of v] un(1) ver by (simp add: var_ok_def)
  obtain l' where t: "threads ?s = (threads s)(u := l')"
    and l': "pc l' = (if ?last then Validate 0 else Lock (Suc i))" "?last \<Longrightarrow> ticket l' = tickets s"
      "td l' = td ?l" "tx l' = tx ?l" "snap l' = snap ?l" "start l' = start ?l" "seen l' = seen ?l" "func l' = func ?l"
      "returned l' = returned ?l" "result l' = result ?l"
    by (rule that [of "if ?last then ?l\<lparr> pc := Validate 0, ticket := tickets s \<rparr> else ?l\<lparr> pc := Lock (Suc i) \<rparr>"])
      (use eq hs_end_dests [of "ws ?l"] in \<open>simp_all add: step_lock_cas_def Let_def\<close>)
  have s': "version_of ?s = (version_of s)(v := as_locked x)" "owner ?s = (owner s)(v := Some u)"
    "storage_of ?s = storage_of s" "the_clock ?s = the_clock s" "committed ?s = committed s"
    "committed_version ?s = committed_version s" "log ?s = log s" "initial ?s = initial s"
    "tickets ?s = (if ?last then tickets s + 1 else tickets s)"
    using eq v hs_end_dests [of "ws ?l"] by (simp_all add: step_lock_cas_def Let_def)
  have held: "held l' = insert v (held ?l)"
  proof -
    have "held l' = set (take (Suc i) (dests ?l))"
      using l'(1) l'(3) by (cases ?last) (simp_all add: held_def)
    moreover have "held ?l = set (take i (dests ?l))" using p by (simp add: held_def)
    ultimately show ?thesis using take_Suc_set [OF pcf(2)] by (simp only: v_def)
  qed
  have q: "\<not> decided_t ?l" "\<not> decided_t l'" "\<not> publishing_t ?l" "\<not> publishing_t l'"
    "written ?l = {}" "written l' = {}" "live l' = (if ?last then {tickets s} else {})" "active_t l'"
    "cont l' = cont ?l" "pending_t l' \<longleftrightarrow> ?last"
    by (cases ?last; use p l'(1,2,10) in \<open>simp add: phase_defs\<close>)+
  have none: "log s (tickets s) = None" by (rule log_above [OF g]) simp
  have sg: "sig ?s (tickets ?s) = sig s (tickets s)" using none by (simp add: s')
  have dec: "dec ?s w \<longleftrightarrow> dec s w" for w using q un(1) by (auto simp: dec_def s' t)
  have pd: "pend s n w" if "n \<le> tickets s" "pend ?s n w" for n w
    using that q(10) l'(2) by (auto simp: pend_def t split: if_splits)
  have env: "env u s ?s"
    using dec pd un(1) by (auto simp: env_def s' t)
  show ?thesis
  proof (rule shared_move [OF i t env])
    fix w show "var_ok ?s w"
    proof (cases "w = v")
      case True
      then show ?thesis
        using var_ok_at [OF g, of v] un(1) q sg Vx by (auto simp: var_ok_def s' t)
    next
      case False
      then show ?thesis
        by (intro var_ok_keep [OF g t]) (use q sg in \<open>simp_all add: s'\<close>)
    qed
  next
    show "own_inv ?s" by (rule own_take [OF g t un(1) s'(2) held])
    show "\<not> locked (clock (the_clock ?s))" using clock_at(2) [OF g] by (simp add: s')
    show "live_inv ?s" by (rule live_step [OF g t]) (use none q(7) in \<open>auto simp: s'\<close>)
    have "snap_inv ?s l'" by (rule snap_next [OF i env a l'(4-7)])
    moreover have "own_data l'" by (rule own_next [OF d(1) a q(8)]) (use q(9) l' in simp_all)
    moreover have "jobs_inv ?s l'" by (rule jobs_next [OF i env l'(9)])
    moreover have "old_versions ?s l'"
      using pcf(3) un(2) l'(4) by (auto simp: old_versions_def held s')
    then have "pc_inv ?s l'"
      using pcf l' sn by (auto simp: pc_inv_def validated_def snap_inv_def)
    ultimately show "tinv ?s l'" by (simp add: tinv_def)
  qed (simp add: s')
qed

lemma drop_Suc_set: "distinct xs \<Longrightarrow> j < length xs \<Longrightarrow> set (drop (Suc j) xs) = set (drop j xs) - {xs ! j}"
proof -
  assume xs: "distinct xs" "j < length xs"
  then have "drop j xs = xs ! j # drop (Suc j) xs" by (simp add: Cons_nth_drop_Suc)
  moreover have "distinct (drop j xs)" using xs(1) by simp
  ultimately show ?thesis by simp
qed

text \<open>Giving back a lock leaves the committed version in the version word.\<close>

lemma release_move:
  assumes i: "stm_inv s" and t: "threads s' = (threads s)(u := l')" and v: "v \<in> held (threads s u)" and h: "held l' = held (threads s u) - {v}"
    and s': "version_of s' = (version_of s)(v := committed_version s v)" "owner s' = (owner s)(v := None)"
      "storage_of s' = storage_of s" "the_clock s' = the_clock s" "committed s' = committed s"
      "committed_version s' = committed_version s" "log s' = log s" "initial s' = initial s" "tickets s' = tickets s"
    and q: "\<not> decided_t (threads s u)" "\<not> decided_t l'" "\<not> pending_t (threads s u)" "\<not> pending_t l'"
      "written (threads s u) = {}" "written l' = {}" "live l' = {}"
      "held l' \<noteq> {} \<Longrightarrow> publishing_t l' = publishing_t (threads s u)"
  shows "env u s s'" and "tinv s' l' \<Longrightarrow> moves u s s'"
proof -
  note g = stm_inv_g [OF i]
  have o: "owner s v = Some u" using owner_held [OF g] v by simp
  have dec: "dec s' w \<longleftrightarrow> dec s w" for w
    using q(1,2) o by (cases "owner s w"; cases "w = v") (auto simp: dec_def s' t)
  have pd: "pend s' n w \<Longrightarrow> pend s n w" for n w using q by (auto simp: pend_def t split: if_splits)
  show env: "env u s s'" using dec pd o by (auto simp: env_def s' t)
  assume tv: "tinv s' l'"
  show "moves u s s'"
  proof (rule shared_move [OF i t env])
    fix w show "var_ok s' w"
    proof (cases "w = v")
      case True
      then show ?thesis using var_ok_at [OF g, of v] o q by (simp add: var_ok_def s')
    next
      case False
      then have "owner s w = Some u \<Longrightarrow> held l' \<noteq> {}" using owner_held [OF g] h by auto
      then show ?thesis
        using False by (intro var_ok_keep [OF g t]) (use q in \<open>simp_all add: s'\<close>)
    qed
  next
    show "own_inv s'" by (rule own_drop [OF g t v s'(2) h])
    show "\<not> locked (clock (the_clock s'))" using clock_at(2) [OF g] by (simp add: s')
    show "live_inv s'" by (rule live_step [OF g t]) (use q(7) in \<open>auto simp: s'\<close>)
  qed (use tv in \<open>simp_all add: s'\<close>)
qed

lemma step_unlock_store_inv:
  assumes i: "stm_inv s" and p: "pc (threads s u) = Unlock_Store j n x"
  shows "moves u s (step_unlock_store u (threads s u) j n x s)"
proof -
  let ?l = "threads s u" and ?s = "step_unlock_store u (threads s u) j n x s"
  define v where "v = dests ?l ! j"
  define l' where "l' = ?l\<lparr> pc := if Suc j = n then Abort else Unlock (Suc j) n \<rparr>"
  note g = stm_inv_g [OF i] and d = stm_invD [OF i, of u]
  have pcf: "j < n" "n \<le> length (dests ?l)" "x = version_of s v" using d(3) p by (simp_all add: pc_inv_def v_def)
  have inv: "hs_inv (ws ?l)" "distinct (dests ?l)" using d(1) by (simp_all add: own_data_def hs_inv_def)
  have dv: "hs_dest_at (ws ?l) j = v" using inv pcf by (simp add: v_def hs_dest_at_nth hs_end_dests)
  have a: "active_t ?l" using p by (simp add: active_t_def)
  have held: "v \<in> held ?l" using in_held_Unlock_Store [OF p pcf(1,2)] by (simp add: v_def)
  have "take n (dests ?l) ! j = v" "j < length (take n (dests ?l))" using pcf by (simp_all add: v_def)
  then have "set (drop (Suc j) (take n (dests ?l))) = held ?l - {v}"
    using drop_Suc_set [of "take n (dests ?l)" j] inv(2) p by (simp add: held_def)
  then have h: "held l' = held ?l - {v}" by (cases "Suc j = n") (auto simp: l'_def held_def [of "?l\<lparr> pc := Abort \<rparr>"] held_def [of "?l\<lparr> pc := Unlock (Suc j) n \<rparr>"])
  have o: "owner s v = Some u" using owner_held [OF g] held by simp
  have "\<not> publishing_t ?l" using p by (simp add: publishing_t_def)
  then have "x XOR lock_bit = committed_version s v"
    using var_ok_at [OF g, of v] o pcf(3) as_locked_xor [OF version_unlocked [OF g]] by (simp add: var_ok_def)
  then have s: "?s = put u l' (s\<lparr> version_of := (version_of s)(v := committed_version s v), owner := (owner s)(v := None) \<rparr>)"
    by (simp add: step_unlock_store_def dv l'_def)
  have t: "threads ?s = (threads s)(u := l')" by (simp add: s)
  note r = release_move [OF i t held h]
  have q: "\<not> decided_t ?l" "\<not> decided_t l'" "\<not> pending_t ?l" "\<not> pending_t l'" "written ?l = {}" "written l' = {}"
    "live l' = {}" "held l' \<noteq> {} \<Longrightarrow> publishing_t l' = publishing_t ?l" "active_t l'" "cont l' = None"
    using p by (cases "Suc j = n"; simp add: l'_def phase_defs)+
  have env: "env u s ?s" by (rule r(1)) (use q in \<open>simp_all add: s\<close>)
  have "snap_inv ?s l'" by (rule snap_next [OF i env a]) (simp_all add: l'_def)
  moreover have "own_data l'" by (rule own_next [OF d(1) a q(9)]) (simp_all add: q(10), simp_all add: l'_def)
  moreover have "jobs_inv ?s l'" by (rule jobs_next [OF i env]) (simp add: l'_def)
  moreover have "pc_inv ?s l'" using pcf by (cases "Suc j = n") (simp_all add: l'_def pc_inv_def)
  ultimately show ?thesis
    by (intro r(2)) (use q in \<open>simp_all add: s tinv_def\<close>)
qed

section \<open>Publishing the new version\<close>

lemma step_publish_inv:
  assumes i: "stm_inv s" and p: "pc (threads s u) = Publish i x"
  shows "moves u s (step_publish u (threads s u) i x s)"
proof -
  let ?l = "threads s u" and ?s = "step_publish u (threads s u) i x s"
  define v where "v = dests ?l ! i"
  define l' where "l' = ?l\<lparr> pc := if Suc i = length (dests ?l) then Success else Publish (Suc i) x \<rparr>"
  note g = stm_inv_g [OF i] and d = stm_invD [OF i, of u]
  have pcf: "i < length (dests ?l)" "logged s ?l" "\<not> locked x" "\<And>v. v \<in> held ?l \<Longrightarrow> committed_version s v = x"
    using d(3) p by (simp_all add: pc_inv_def)
  have inv: "hs_inv (ws ?l)" "distinct (dests ?l)" using d(1) by (simp_all add: own_data_def hs_inv_def)
  have dv: "hs_dest_at (ws ?l) i = v" using inv pcf by (simp add: v_def hs_dest_at_nth hs_end_dests)
  have a: "active_t ?l" using p by (simp add: active_t_def)
  have he: "held ?l = set (drop i (dests ?l))" using p by (simp add: held_def)
  have "drop i (dests ?l) = v # drop (Suc i) (dests ?l)" using pcf(1) by (simp add: v_def Cons_nth_drop_Suc)
  then have held: "v \<in> held ?l" using he by simp
  have h: "held l' = held ?l - {v}"
    using drop_Suc_set [OF inv(2) pcf(1)] he by (auto simp: held_def l'_def v_def)
  have s: "?s = put u l' (s\<lparr> version_of := (version_of s)(v := committed_version s v), owner := (owner s)(v := None) \<rparr>)"
    using pcf(4) [OF held] hs_end_dests [of "ws ?l"] by (simp add: step_publish_def dv l'_def)
  have t: "threads ?s = (threads s)(u := l')" by (simp add: s)
  note r = release_move [OF i t held h]
  have q: "\<not> decided_t ?l" "\<not> decided_t l'" "\<not> pending_t ?l" "\<not> pending_t l'" "written ?l = {}" "written l' = {}"
    "live l' = {}" "held l' \<noteq> {} \<Longrightarrow> publishing_t l' = publishing_t ?l" "active_t l'" "cont l' = None"
    using p by (cases "Suc i = length (dests ?l)"; simp add: l'_def phase_defs)+
  have env: "env u s ?s" by (rule r(1)) (use q in \<open>simp_all add: s\<close>)
  have "snap_inv ?s l'" by (rule snap_next [OF i env a]) (simp_all add: l'_def)
  moreover have "own_data l'" by (rule own_next [OF d(1) a q(9)]) (simp_all add: q(10), simp_all add: l'_def)
  moreover have "jobs_inv ?s l'" by (rule jobs_next [OF i env]) (simp add: l'_def)
  moreover have "logged ?s l'" using logged_env [OF env pcf(2)] by (simp add: logged_def l'_def)
  then have "pc_inv ?s l'"
    using pcf h by (cases "Suc i = length (dests ?l)") (simp_all add: l'_def pc_inv_def s)
  ultimately show ?thesis
    by (intro r(2)) (use q in \<open>simp_all add: s tinv_def\<close>)
qed

section \<open>Commitment\<close>

lemma log_commit_simps [simp]:
  "threads (log_commit n l r s) = threads s" "version_of (log_commit n l r s) = version_of s"
  "storage_of (log_commit n l r s) = storage_of s" "the_clock (log_commit n l r s) = the_clock s"
  "committed (log_commit n l r s) = committed s" "committed_version (log_commit n l r s) = committed_version s"
  "owner (log_commit n l r s) = owner s" "tickets (log_commit n l r s) = tickets s"
  "initial (log_commit n l r s) = initial s"
  "log (log_commit n l r s) = (log s)(n \<mapsto> \<lparr> e_func = func l, e_result = r, e_seen = seen l,
     e_writes = hs_view (ws l), e_start = start l, e_end = tickets s \<rparr>)"
  by (simp_all add: log_commit_def)

text \<open>A transaction that has written nothing enters the log where it began.\<close>

lemma step_return_empty_inv:
  assumes i: "stm_inv s" and p: "pc (threads s u) = Body (P_Return r)"
    and w: "\<not> can_write (tx (threads s u)) \<or> hs_empty (ws (threads s u))"
  shows "moves u s (step_return u (threads s u) r s)"
proof -
  let ?l = "threads s u" and ?s = "step_return u (threads s u) r s"
  note g = stm_inv_g [OF i] and d = stm_invD [OF i, of u]
  have a: "active_t ?l" using p by (simp add: active_t_def)
  note sn = d(2) [OF a]
  have "dests ?l = []" using w d(1) a by (auto simp: own_data_def hs_empty_dests)
  then have none: "hs_view (ws ?l) = Map.empty" by (rule empty_view)
  define l' where "l' = ?l\<lparr> pc := Success, result := Some r, ticket := start ?l \<rparr>"
  define e where "e = \<lparr> e_func = func ?l, e_result = r, e_seen = seen ?l, e_writes = hs_view (ws ?l),
    e_start = start ?l, e_end = tickets s \<rparr>"
  have s: "?s = log_commit (start ?l) ?l r (put u l' s)" using w by (simp add: step_return_def l'_def)
  have t: "threads ?s = (threads s)(u := l')" by (simp add: s)
  have lg: "log ?s = (log s)(start ?l \<mapsto> e)" by (simp add: s e_def)
  have live: "start ?l \<in> live ?l" using p by (simp add: live_def)
  have free: "log s (start ?l) = None" "start ?l < tickets s" using live_free [OF g live] by simp_all
  have sg: "sig ?s n v = sig s n v" for n v
    using sigma_upd_other [where L = "log s" and e = e] free(1) by (simp add: lg e_def none) (simp add: s)
  have q: "\<not> decided_t ?l" "\<not> decided_t l'" "\<not> publishing_t ?l" "\<not> publishing_t l'" "\<not> pending_t l'"
    "written ?l = {}" "written l' = {}" "live l' = {}" "held ?l = {}" "held l' = {}" "active_t l'" "cont l' = None"
    using p by (simp_all add: l'_def phase_defs)
  have dec: "dec ?s v \<longleftrightarrow> dec s v" for v using q(1,2) by (auto simp: dec_def t) (auto simp: s)
  have pd: "pend ?s n v \<Longrightarrow> pend s n v" for n v using q(5) by (auto simp: pend_def t split: if_splits)
  have wr: "writes (log ?s) n v \<Longrightarrow> writes (log s) n v" for n v
    using free(1) by (auto simp: writes_def lg e_def none split: if_splits)
  have env: "env u s ?s"
    using dec pd sg wr free(1) unfolding env_def by (auto simp: t lg) (auto simp: s)
  show ?thesis
  proof (rule shared_move [OF i t env])
    show "var_ok ?s v" for v
      by (rule var_ok_keep [OF g t]) (use q sg in \<open>simp_all add: s\<close>)
    show "own_inv ?s" by (rule own_keep [OF g t]) (use q in \<open>simp_all add: s\<close>)
    show "\<not> locked (clock (the_clock ?s))" using clock_at(2) [OF g] by (simp add: s)
    show "live_inv ?s" by (rule live_step [OF g t]) (use q(8) live in \<open>simp_all add: lg\<close>, simp_all add: s)
  next
    fix n e' assume "log ?s n = Some e'" "log s n = None"
    then have n: "n = start ?l" "e' = e" by (simp_all add: lg split: if_splits)
    have seen: "sig ?s n v = x \<and> \<not> pend ?s n v" if "seen ?l v = Some x" for v x
      using sn that sg [of n v] pd [of n v] n(1) by (auto simp: snap_inv_def)
    moreover have "p_exec (func ?l) st = (Inr r, overlay st (hs_view (ws ?l)))"
      if "\<forall>v x. seen ?l v = Some x \<longrightarrow> st v = x" for st
      using d(1) p that by (simp add: own_data_def cont_def)
    moreover have "tickets ?s = tickets s" by (simp add: s)
    ultimately show "entry_ok ?s n e'"
      using free(2) unfolding entry_ok_def n(2) by (simp add: e_def n(1))
  next
    have "snap_inv ?s l'" by (rule snap_next [OF i env a]) (simp_all add: l'_def)
    moreover have "own_data l'" by (rule own_next [OF d(1) a q(11)]) (simp_all add: q(12), simp_all add: l'_def)
    moreover have "jobs_inv ?s l'" by (rule jobs_next [OF i env]) (simp add: l'_def)
    moreover have "logged ?s l'" by (simp add: logged_def lg l'_def e_def)
    then have "pc_inv ?s l'" by (simp add: pc_inv_def l'_def)
    ultimately show "tinv ?s l'" by (simp add: tinv_def)
  qed
qed

lemma envI:
  assumes "threads s' = (threads s)(u := l')" and "clock (the_clock s) \<le> clock (the_clock s')" and "tickets s \<le> tickets s'"
    and "\<And>v. committed_version s' v = committed_version s v \<and> committed s' v = committed s v
      \<or> clock (the_clock s) < committed_version s' v"
    and "\<And>v. dec s v \<Longrightarrow> dec s' v \<or> clock (the_clock s) < committed_version s' v"
    and "\<And>n v. writes (log s') n v \<Longrightarrow> writes (log s) n v \<or> dec s' v"
    and "\<And>n v. pend s' n v \<Longrightarrow> pend s n v" and "\<And>n v. \<not> pend s n v \<Longrightarrow> sig s' n v = sig s n v"
    and "\<And>t v. t \<noteq> u \<Longrightarrow> owner s v = Some t \<Longrightarrow>
      committed_version s' v = committed_version s v \<and> version_of s' v = version_of s v"
    and "\<And>n e. log s n = Some e \<Longrightarrow> log s' n = Some e"
  shows "env u s s'"
  using assms(2-6,9,10) assms(7,8) unfolding env_def by (auto simp: assms(1))

text \<open>A transaction that holds its locks and has validated its reads enters the log under its ticket.\<close>

lemma pending_quiet:
  assumes i: "stm_inv s" and p: "pc (threads s u) = Validate j" and v: "v \<in> set (dests (threads s u))"
  shows "owner s v = Some u" and "committed_version s v \<le> rv (threads s u)" and "\<not> dec s v"
proof -
  have held: "v \<in> held (threads s u)" using p v by (simp add: held_def)
  then show o: "owner s v = Some u" using owner_held [OF stm_inv_g [OF i]] by simp
  show "committed_version s v \<le> rv (threads s u)"
    using stm_invD(3) [OF i, of u] p held by (simp add: pc_inv_def old_versions_def)
  show "\<not> dec s v" using o p by (simp add: dec_def decided_t_def)
qed

lemma step_decide_inv:
  assumes i: "stm_inv s" and p: "pc (threads s u) = Validate j" and j: "pv_deref (read_set (td (threads s u))) j = None"
  shows "moves u s (step_validate u (threads s u) j s)"
proof -
  let ?l = "threads s u" and ?s = "step_validate u (threads s u) j s"
  let ?W = "set (dests ?l)" and ?n = "ticket ?l"
  note g = stm_inv_g [OF i] and d = stm_invD [OF i, of u] and pq = pending_quiet [OF i p]
  have a: "active_t ?l" using p by (simp add: active_t_def)
  note sn = d(2) [OF a]
  have pcf: "can_write (tx ?l)" "start ?l \<le> ?n" "validated s ?l j" "result ?l \<noteq> None" "dests ?l \<noteq> []"
    using d(3) p by (simp_all add: pc_inv_def)
  define l' where "l' = ?l\<lparr> pc := Write 0 \<rparr>"
  define e where "e = \<lparr> e_func = func ?l, e_result = the (result ?l), e_seen = seen ?l, e_writes = hs_view (ws ?l),
    e_start = start ?l, e_end = tickets s \<rparr>"
  have s: "?s = log_commit ?n ?l (the (result ?l)) (put u l' s)" using j by (simp add: step_validate_def l'_def)
  have t: "threads ?s = (threads s)(u := l')" by (simp add: s)
  have lg: "log ?s = (log s)(?n \<mapsto> e)" by (simp add: s e_def)
  have s': "initial ?s = initial s" "tickets ?s = tickets s" "owner ?s = owner s" "committed ?s = committed s"
    "committed_version ?s = committed_version s" "version_of ?s = version_of s" "storage_of ?s = storage_of s" "the_clock ?s = the_clock s"
    by (simp_all add: s)
  have live: "?n \<in> live ?l" using p by (simp add: live_def)
  have free: "log s ?n = None" "?n < tickets s" using live_free [OF g live] by simp_all
  have view: "e_writes e v = None \<longleftrightarrow> v \<notin> ?W" for v by (simp add: e_def ws_simps)
  have out: "sig ?s n v = sig s n v" if "v \<notin> ?W" for n v
    unfolding s'(1) lg using that view by (intro sigma_upd_other [where L = "log s"] free(1)) simp
  have before: "sig ?s n v = sig s n v" if "n \<le> ?n" for n v
    unfolding s'(1) lg using sigma_upd_above [OF that, of "log s" e] by simp
  have silent: "\<not> writes (log s) k v" if "v \<in> ?W" "start ?l \<le> k" for k v
    using sn that pq(2,3) [OF that(1)] unfolding snap_inv_def by (meson not_less)
  have last: "sig ?s (tickets ?s) v = the (hs_view (ws ?l) v)" if "v \<in> ?W" for v
  proof -
    obtain x where x: "hs_view (ws ?l) v = Some x" using view [of v] \<open>v \<in> ?W\<close> by (auto simp: e_def)
    have "sig ?s (tickets ?s) v = x"
      unfolding s'(1,2) lg by (rule sigma_upd_last [OF free(2)]) (use x silent [OF that] pcf(2) in \<open>simp_all add: e_def\<close>)
    then show ?thesis using x by simp
  qed
  have q: "\<not> decided_t ?l" "decided_t l'" "\<not> publishing_t ?l" "\<not> publishing_t l'" "pending_t ?l" "\<not> pending_t l'"
    "written ?l = {}" "written l' = {}" "live l' = {}" "held l' = held ?l" "held ?l = ?W" "active_t l'" "cont l' = None"
    using p by (simp_all add: l'_def phase_defs)
  have dec: "dec ?s v \<longleftrightarrow> dec s v \<or> v \<in> ?W" for v
    using q(1,2) pq(1) owner_held [OF g, of v u] q(11) by (auto simp: dec_def t s'(3))
  have pd: "pend ?s n v \<Longrightarrow> pend s n v" for n v using q(6) by (auto simp: pend_def t split: if_splits)
  have own: "pend s n v" if "v \<in> ?W" "?n < n" for n v using that q(5) by (auto simp: pend_def)
  have sg: "sig ?s n v = sig s n v" if "\<not> pend s n v" for n v
    using that out before own by (cases "v \<in> ?W"; cases "?n < n") auto
  have wr: "writes (log ?s) n v \<Longrightarrow> writes (log s) n v \<or> v \<in> ?W" for n v
    using view [of v] by (cases "v \<in> ?W") (auto simp: writes_def lg split: if_splits)
  have keep: "log s n = Some e' \<Longrightarrow> log ?s n = Some e'" for n e' using free(1) by (auto simp: lg)
  have env: "env u s ?s"
    by (rule envI [OF t _ _ _ _ _ pd sg _ keep]) (use wr in \<open>auto simp: s' dec\<close>)
  have seen: "sig s ?n v = x \<and> \<not> pend s ?n v" if x: "seen ?l v = Some x" for v x
  proof (cases "v \<in> ?W")
    case True
    have "sig s ?n v = sig s (start ?l) v" by (rule quiet_sig [OF sn pq(2,3) [OF True] pcf(2)])
    moreover have "\<not> pend s ?n v"
      using pend_owned [of s ?n v] g pq(1) [OF True] by (auto simp: ginv_def)
    ultimately show ?thesis using sn x by (simp add: snap_inv_def)
  next
    case False
    have "v \<in> dom (seen ?l)" using x by blast
    moreover have "dom (seen ?l) \<subseteq> set (pv_items (read_set (td ?l))) \<union> ?W" "pv_inv (read_set (td ?l))"
      using d(1) a pcf(1) by (simp_all add: own_data_def)
    moreover from this(2) have "take j (pv_items (read_set (td ?l))) = pv_items (read_set (td ?l))"
      using j by (simp add: pv_deref_items split: if_splits)
    ultimately have "v \<in> set (take j (pv_items (read_set (td ?l))))" using False by auto
    then show ?thesis using pcf(3) x by (simp add: validated_def)
  qed
  show ?thesis
  proof (rule shared_move [OF i t env])
    fix v show "var_ok ?s v"
    proof (cases "v \<in> ?W")
      case True
      then show ?thesis
        using var_ok_at [OF g, of v] pq(1) [OF True] q(2-4) q(7,8) last [OF True]
        by (auto simp: var_ok_def t s') (simp_all add: l'_def)
    next
      case False
      then have "owner s v \<noteq> Some u" using owner_held [OF g] q(11) by simp
      then show ?thesis by (intro var_ok_keep [OF g t]) (use out [OF False] in \<open>simp_all add: s'\<close>)
    qed
  next
    show "own_inv ?s" by (rule own_keep [OF g t]) (use q in \<open>simp_all add: s'\<close>)
    show "\<not> locked (clock (the_clock ?s))" using clock_at(2) [OF g] by (simp add: s')
    show "live_inv ?s" by (rule live_step [OF g t]) (use q(9) live in \<open>simp_all add: lg s'\<close>)
  next
    fix n e' assume "log ?s n = Some e'" "log s n = None"
    then have n: "n = ?n" "e' = e" by (simp_all add: lg split: if_splits)
    have "sig ?s ?n v = x \<and> \<not> pend ?s ?n v" if "seen ?l v = Some x" for v x
      using seen [OF that] before [of ?n v] pd [of ?n v] by auto
    moreover have "p_exec (func ?l) st = (Inr (the (result ?l)), overlay st (hs_view (ws ?l)))"
      if "\<forall>v x. seen ?l v = Some x \<longrightarrow> st v = x" for st
      using d(1) p that by (simp add: own_data_def cont_def)
    ultimately show "entry_ok ?s n e'"
      using free(2) pcf(2) unfolding entry_ok_def n by (simp add: e_def s')
  next
    have "snap_inv ?s l'" by (rule snap_next [OF i env a]) (simp_all add: l'_def)
    moreover have "own_data l'" by (rule own_next [OF d(1) a q(12)]) (simp_all add: q(13), simp_all add: l'_def)
    moreover have "jobs_inv ?s l'" by (rule jobs_next [OF i env]) (simp add: l'_def)
    moreover have "logged ?s l'" using pcf(4) by (auto simp: logged_def lg l'_def e_def)
    then have "pc_inv ?s l'" using pcf(5) by (simp add: pc_inv_def l'_def)
    ultimately show "tinv ?s l'" by (simp add: tinv_def)
  qed
qed

section \<open>Writing back and bumping the clock\<close>

lemma step_write_inv:
  assumes i: "stm_inv s" and p: "pc (threads s u) = Write i"
  shows "moves u s (step_write u (threads s u) i s)"
proof -
  let ?l = "threads s u" and ?s = "step_write u (threads s u) i s"
  let ?last = "Suc i = length (dests ?l)"
  note g = stm_inv_g [OF i] and d = stm_invD [OF i, of u]
  define v where "v = dests ?l ! i"
  define l' where "l' = ?l\<lparr> pc := if ?last then Bump else Write (Suc i) \<rparr>"
  have a: "active_t ?l" using p by (simp add: active_t_def)
  have pcf: "i < length (dests ?l)" "logged s ?l" using d(3) p by (simp_all add: pc_inv_def)
  have inv: "hs_inv (ws ?l)" using d(1) by (simp add: own_data_def)
  have at: "hs_dest_at (ws ?l) i = v" "hs_view (ws ?l) v = Some (hs_pending_at (ws ?l) i)"
    using inv pcf(1) hs_view_nth [OF inv, of i] hs_pending_at_items [OF inv, of i]
    by (simp_all add: v_def hs_dest_at_nth hs_end_dests) (simp add: hs_dests_def)
  have s: "?s = put u l' (s\<lparr> storage_of := (storage_of s)(v := the (hs_view (ws ?l) v)) \<rparr>)"
    using at hs_end_dests [of "ws ?l"] by (simp add: step_write_def l'_def)
  have t: "threads ?s = (threads s)(u := l')" by (simp add: s)
  have w: "written l' = insert v (written ?l)"
  proof -
    have "written l' = set (take (Suc i) (dests ?l))"
      by (cases ?last) (simp_all add: l'_def written_def [of "?l\<lparr> pc := Bump \<rparr>"] written_def [of "?l\<lparr> pc := Write (Suc i) \<rparr>"])
    moreover have "written ?l = set (take i (dests ?l))" using p by (simp add: written_def)
    ultimately show ?thesis using take_Suc_set [OF pcf(1)] by (simp only: v_def)
  qed
  have q: "decided_t ?l" "decided_t l'" "\<not> publishing_t ?l" "\<not> publishing_t l'" "\<not> pending_t l'"
    "live l' = {}" "held l' = held ?l" "held ?l = set (dests ?l)" "active_t l'" "cont l' = None"
    using p by (cases ?last; simp add: l'_def phase_defs)+
  have ww: "ws l' = ws ?l" by (simp add: l'_def)
  have o: "owner s v = Some u" using owner_held [OF g] q(8) pcf(1) by (simp add: v_def)
  have dec: "dec ?s x \<longleftrightarrow> dec s x" for x using q(1,2) by (auto simp: dec_def t) (auto simp: s)
  have pd: "pend ?s n x \<Longrightarrow> pend s n x" for n x using q(5) by (auto simp: pend_def t split: if_splits)
  have env: "env u s ?s"
    by (rule envI [OF t _ _ _ _ _ pd]) (use dec in \<open>auto simp: s\<close>)
  show ?thesis
  proof (rule shared_move [OF i t env])
    fix x show "var_ok ?s x"
    proof (cases "x = v")
      case True
      then show ?thesis
        using var_ok_at [OF g, of v] o w q(1-4) ww by (simp add: var_ok_def t) (simp add: s)
    next
      case False
      then show ?thesis
        by (intro var_ok_keep [OF g t]) (use q(1-4) w ww in \<open>simp_all add: s\<close>)
    qed
  next
    show "own_inv ?s" by (rule own_keep [OF g t]) (use q in \<open>simp_all add: s\<close>)
    show "\<not> locked (clock (the_clock ?s))" using clock_at(2) [OF g] by (simp add: s)
    show "live_inv ?s" by (rule live_step [OF g t]) (use q(6) in \<open>simp_all add: s\<close>)
  next
    have "snap_inv ?s l'" by (rule snap_next [OF i env a]) (simp_all add: l'_def)
    moreover have "own_data l'" by (rule own_next [OF d(1) a q(9)]) (simp_all add: q(10), simp_all add: l'_def)
    moreover have "jobs_inv ?s l'" by (rule jobs_next [OF i env]) (simp add: l'_def)
    moreover have "logged ?s l'" using logged_env [OF env pcf(2)] by (simp add: logged_def l'_def)
    then have "pc_inv ?s l'" using pcf(1) by (cases ?last) (auto simp: pc_inv_def l'_def)
    ultimately show "tinv ?s l'" by (simp add: tinv_def)
  qed (simp add: s)
qed

lemma step_bump_inv:
  assumes i: "stm_inv s" and p: "pc (threads s u) = Bump" and step: "step_bump u (threads s u) s = Some s'"
  shows "moves u s s'"
proof -
  let ?l = "threads s u" and ?c = "clock (the_clock s)" and ?m = "hs_view (ws (threads s u))"
  note g = stm_inv_g [OF i] and d = stm_invD [OF i, of u]
  define wv where "wv = ?c + bump_size"
  define l' where "l' = ?l\<lparr> pc := Publish 0 wv \<rparr>"
  have ok: "bump_assert ?c"
    using step by (simp add: step_bump_def fetch_and_bump_clock_def Let_def split: if_splits)
  note b = bump_facts [OF ok, folded wv_def]
  have s: "s' = put u l' (s\<lparr> the_clock := (the_clock s)\<lparr> clock := wv \<rparr>, committed := overlay (committed s) ?m,
      committed_version := (\<lambda>v. if ?m v = None then committed_version s v else wv) \<rparr>)"
    using step ok unfolding wv_def by (simp add: step_bump_def fetch_and_bump_clock_def Let_def l'_def wv_def)
  have t: "threads s' = (threads s)(u := l')" by (simp add: s)
  have a: "active_t ?l" using p by (simp add: active_t_def)
  have pcf: "dests ?l \<noteq> []" "logged s ?l" using d(3) p by (simp_all add: pc_inv_def)
  have q: "decided_t ?l" "\<not> decided_t l'" "\<not> publishing_t ?l" "publishing_t l'" "\<not> pending_t l'"
    "live l' = {}" "held l' = held ?l" "held ?l = set (dests ?l)" "active_t l'" "cont l' = None"
    "written ?l = set (dests ?l)" "written l' = {}"
    using p by (simp_all add: l'_def phase_defs)
  have o: "owner s v = Some u \<longleftrightarrow> ?m v \<noteq> None" for v
    using owner_held [OF g, of v u] q(8) by (simp add: ws_simps)
  have dec: "dec s v \<Longrightarrow> dec s' v \<or> ?m v \<noteq> None" for v
    using o [of v] by (auto simp: dec_def t) (auto simp: s)
  have pd: "pend s' n v \<Longrightarrow> pend s n v" for n v using q(5) by (auto simp: pend_def t split: if_splits)
  have wr: "writes (log s') n v = writes (log s) n v" for n v by (simp add: s)
  have env: "env u s s'"
  proof (rule envI [OF t _ _ _ _ _ pd])
    show "clock (the_clock s) \<le> clock (the_clock s')" using b(1) by (simp add: s)
    show "dec s' v \<or> clock (the_clock s) < committed_version s' v" if "dec s v" for v
      using dec [OF that] b(1) by (auto simp: s)
    show "committed_version s' v = committed_version s v \<and> version_of s' v = version_of s v" if "t \<noteq> u" "owner s v = Some t" for t v
      using that o [of v] by (simp add: s)
  qed (use b(1) in \<open>auto simp: s\<close>)
  show ?thesis
  proof (rule shared_move [OF i t env])
    fix v show "var_ok s' v"
    proof (cases "?m v")
      case None
      then show ?thesis
        using o [of v] by (intro var_ok_keep [OF g t]) (use b(1) in \<open>simp_all add: s\<close>)
    next
      case (Some x)
      then have "owner s v = Some u" "v \<in> written ?l" using o [of v] owner_held [OF g, of v u] q(8,11) by simp_all
      then show ?thesis
        using var_ok_at [OF g, of v] Some q by (simp add: var_ok_def t) (simp add: s)
    qed
  next
    show "own_inv s'" by (rule own_keep [OF g t]) (use q in \<open>simp_all add: s\<close>)
    show "\<not> locked (clock (the_clock s'))" using b(2) by (simp add: s)
    show "live_inv s'" by (rule live_step [OF g t]) (use q(6) in \<open>simp_all add: s\<close>)
  next
    have "snap_inv s' l'" by (rule snap_next [OF i env a]) (simp_all add: l'_def)
    moreover have "own_data l'" by (rule own_next [OF d(1) a q(9)]) (simp_all add: q(10), simp_all add: l'_def)
    moreover have "jobs_inv s' l'" by (rule jobs_next [OF i env]) (simp add: l'_def)
    moreover have "logged s' l'" using logged_env [OF env pcf(2)] by (simp add: logged_def l'_def)
    moreover have "committed_version s' v = wv" if "v \<in> held l'" for v
      using that o [of v] owner_held [OF g, of v u] q(7) by (auto simp: s)
    then have "pc_inv s' l'" using pcf(1) b(2) \<open>logged s' l'\<close> by (simp add: pc_inv_def l'_def)
    ultimately show "tinv s' l'" by (simp add: tinv_def)
  qed (simp add: s)
qed

section \<open>Every step\<close>

theorem tstep_moves:
  assumes "stm_inv s" and "tstep u s = Some s'"
  shows "moves u s s'"
proof (cases "pc (threads s u)")
  case (Body p)
  then show ?thesis
    using assms step_leave_inv [OF assms(1) Body]
    by (cases p; cases "can_write (tx (threads s u)) \<and> \<not> hs_empty (ws (threads s u))")
      (auto simp: tstep_def Let_def intro: step_return_lock_inv step_return_empty_inv step_get_inv step_set_inv)
next
  case (Lock_Cas i x)
  then show ?thesis
    using assms step_lock_cas_inv [OF assms(1) Lock_Cas] step_lock_cas_fail_inv [OF assms(1) Lock_Cas]
    by (auto simp: tstep_def Let_def)
next
  case (Validate j)
  then show ?thesis
    using assms step_decide_inv [OF assms(1) Validate] step_validate_inv [OF assms(1) Validate]
    by (cases "pv_deref (read_set (td (threads s u))) j") (auto simp: tstep_def Let_def)
qed (use assms in \<open>auto simp: tstep_def Let_def intro: step_idle_inv step_get_clock_inv step_access_lock_inv
    step_get_fast_inv step_slow_get_inv step_get_slow_inv step_get_ro_inv step_set_slow_inv step_abort_inv step_unwind_inv
    step_lock_inv step_unlock_inv step_unlock_store_inv step_write_inv step_bump_inv step_publish_inv step_success_inv\<close>)

lemma tstep_inv: "stm_inv s \<Longrightarrow> tstep u s = Some s' \<Longrightarrow> stm_inv s'"
  using tstep_moves by (auto simp: moves_def)

lemma tstep_env: "stm_inv s \<Longrightarrow> tstep u s = Some s' \<Longrightarrow> env u s s'"
  using tstep_moves by (auto simp: moves_def)

lemma stm_inv_start: "stm_start s \<Longrightarrow> stm_inv s"
proof -
  assume "stm_start s"
  then obtain js st where s: "s = new_sys js st" by (auto simp: stm_start_def)
  have "ginv s"
    by (simp add: s ginv_def own_inv_def ver_inv_def sto_inv_def ser_inv_def live_inv_def log_inv_def new_sys_def
        new_thread_def new_domain_def phase_defs)
  moreover have "tinv s (threads s t)" for t
    by (simp add: s tinv_def own_data_def pc_inv_def jobs_inv_def new_sys_def new_thread_def new_thread_data_def
        phase_defs hs_new_refines pv_new_refines hs_dests_def)
  ultimately show ?thesis by (simp add: stm_inv_def)
qed

interpretation stm: invariant_system stm_start stm_step stm_inv
  by unfold_locales (auto simp: stm_inv_start stm_step_def intro: tstep_inv)

end
