(* ===== verification/Serializability.thy ===== *)
theory Serializability
  imports Stm_Steps
begin

text \<open>
  What the invariant of the concurrent machine says about a transaction: the committed transactions
  can be replayed one after the other in the order of their tickets, each between its start and its commit, a
  running transaction never sees values that did not exist together, and every lock has one owner.
\<close>

lemmas reachable_inv = stm.reachable_inv

lemma reachable_ginv: "reachable stm_start stm_step s \<Longrightarrow> ginv s"
  using reachable_inv [of s] by (simp add: stm_inv_def)

lemma reachable_tinv: "reachable stm_start stm_step s \<Longrightarrow> tinv s (threads s t)"
  using reachable_inv [of s] by (simp add: stm_inv_def)

lemma log_entry_ok: "reachable stm_start stm_step s \<Longrightarrow> log s n = Some e \<Longrightarrow> entry_ok s n e"
  using reachable_ginv [of s] by (simp add: ginv_def log_inv_def)

lemma entry_replay:
  assumes "log s n = Some e" and "entry_ok s n e"
  shows "p_exec (e_func e) (sig s n) = (Inr (e_result e), sig s (Suc n))"
proof -
  have "\<forall>v x. e_seen e v = Some x \<longrightarrow> sig s n v = x"
    using assms(2) by (simp add: entry_ok_def)
  then have "p_exec (e_func e) (sig s n) = (Inr (e_result e), overlay (sig s n) (e_writes e))"
    using assms(2) unfolding entry_ok_def by blast
  then show ?thesis using assms(1) by simp
qed

section \<open>A run of two threads\<close>

text \<open>Thread 0 writes 9 to a variable that is 5; thread 1 reads it in a read-only transaction.\<close>

definition setter :: "var_storage stm_prog" where
  "setter = P_Set 16 9 (P_Return 7)"

definition getter :: "var_storage stm_prog" where
  "getter = P_Get 16 P_Return"

definition demo_sys :: "var_storage sys" where
  "demo_sys = new_sys (\<lambda>t. if t = 0 then [(Read_write, setter)] else if t = 1 then [(Read_only, getter)] else []) (\<lambda>_. 5)"

lemma demo_reachable: "reachable stm_start stm_step (run_schedule ts demo_sys)"
proof (rule run_schedule_reachable, rule reach_start)
  show "stm_start demo_sys"
    unfolding stm_start_def demo_sys_def by (intro exI conjI) (auto simp: good_jobs_def)
qed

lemma fresh_sets: "\<not> hs_allocates_on_next_push hs_new" "hs_filter hs_new = 0" "\<not> pv_allocates_on_next_push pv_new" "pv_deref pv_new 0 = None" "pv_end pv_new = 0"
  by (simp_all add: hs_allocates_on_next_push_def hs_new_def pv_allocates_on_next_push_def pv_new_def pv_deref_def start_size_def)

definition one_write :: "var_storage \<Rightarrow> pod_hash_set" where
  "one_write x = hs_push_back 16 x (var_hash 16) hs_new"

lemma one_write: "hs_inv (one_write x)" "hs_items (one_write x) = [\<lparr> dest_var = 16, pending_write = x \<rparr>]"
  "hs_dests (one_write x) = [16]" "hs_end (one_write x) = Suc 0" "hs_view (one_write x) = [16 \<mapsto> x]" "\<not> hs_empty (one_write x)"
  "hs_unchecked_push_back 16 x (var_hash 16) hs_new = one_write x"
proof -
  have n: "hs_dests hs_new = []" by (simp add: hs_dests_def hs_new_refines)
  show "hs_inv (one_write x)" unfolding one_write_def by (rule hs_push_back_inv) (simp_all add: hs_new_refines n)
  show "hs_items (one_write x) = [\<lparr> dest_var = 16, pending_write = x \<rparr>]" by (simp add: one_write_def ws_simps hs_new_refines)
  then show "hs_dests (one_write x) = [16]" "hs_end (one_write x) = Suc 0" "\<not> hs_empty (one_write x)"
    by (simp_all add: hs_dests_def hs_end_length ws_simps)
  show "hs_view (one_write x) = [16 \<mapsto> x]" by (simp add: one_write_def ws_simps hs_new_refines n)
  show "hs_unchecked_push_back 16 x (var_hash 16) hs_new = one_write x"
    by (simp add: one_write_def hs_unchecked_push_back_eq hs_new_refines fresh_sets)
qed

lemma one_write_at: "hs_dest_at (one_write x) 0 = 16" "hs_pending_at (one_write x) 0 = x"
  by (simp_all add: hs_dest_at_nth hs_pending_at_items one_write)

lemmas run_defs = demo_sys_def new_sys_def new_thread_def new_thread_data_def setter_def getter_def tstep_def put_def
  step_idle_def step_get_clock_def step_access_lock_def step_get_def step_get_ro_def step_set_def step_return_def
  step_lock_def step_lock_cas_def step_validate_def step_write_def step_bump_def step_publish_def step_success_def
  get_clock_def transaction_def read_transaction_def can_write_def td_access_lock_def rw_valid_def new_domain_def
  add_write_set_unchecked_def remove_writes_from_reads_def log_commit_def Let_def fresh_sets one_write one_write_at
  fetch_and_bump_clock_def bump_assert_def max_version_val lock_bit_val bump_size_def


text \<open>The reader reads, the writer runs to its end, the reader returns.\<close>

definition demo_end :: "var_storage sys" where
  "demo_end = run_schedule ([1, 1, 1, 1, 1] @ [0, 0, 0, 0, 0, 0, 0, 0, 0, 0, 0, 0] @ [1, 1]) demo_sys"

lemma demo_end_log:
  "log demo_end 0 = Some \<lparr> e_func = getter, e_result = 5, e_seen = [16 \<mapsto> 5], e_writes = hs_view hs_new, e_start = 0, e_end = 3 \<rparr>"
  "log demo_end 2 = Some \<lparr> e_func = setter, e_result = 7, e_seen = Map.empty, e_writes = [16 \<mapsto> 9], e_start = 1, e_end = 3 \<rparr>"
  "tickets demo_end = 3" "version_of demo_end 16 = 1"
  "returned (threads demo_end 0) = [(Inr 7, 2)]" "pc (threads demo_end t) = Idle"
  by (simp_all add: demo_end_def run_defs)

text \<open>The reader has read, the writer holds its lock.\<close>

definition demo_mid :: "var_storage sys" where
  "demo_mid = run_schedule ([1, 1, 1, 1, 1] @ [0, 0, 0, 0, 0, 0, 0]) demo_sys"

lemma demo_mid_state:
  "pc (threads demo_mid (Suc 0)) = Body (P_Return 5)" "seen (threads demo_mid (Suc 0)) = [16 \<mapsto> 5]"
  "start (threads demo_mid (Suc 0)) = 0" "pc (threads demo_mid 0) = Validate 0" "write_set (td (threads demo_mid 0)) = one_write 9"
  by (simp_all add: demo_mid_def run_defs)

section \<open>Properties\<close>

text \<open>C1: Committed transactions are serializable: in every reachable state, each of them returned what its
  program computes when it is run alone on the store left by the committed transactions with smaller
  tickets, and left the store that run leaves. Its ticket lies between its start and its commit.\<close>

theorem committed_serializable:
  assumes "reachable stm_start stm_step s" and "log s n = Some e"
  shows "p_exec (e_func e) (sigma (log s) (initial s) n) = (Inr (e_result e), sigma (log s) (initial s) (Suc n))
    \<and> e_start e \<le> n \<and> n < e_end e \<and> e_end e \<le> tickets s"
proof -
  note ok = log_entry_ok [OF assms]
  have "e_start e \<le> n \<and> n < e_end e \<and> e_end e \<le> tickets s"
    using ok by (simp only: entry_ok_def simp_thms)
  then show ?thesis using entry_replay [OF assms(2) ok] by blast
qed

theorem committed_serializable_witness:
  "p_exec setter (sigma (log demo_end) (initial demo_end) 2) = (Inr 7, sigma (log demo_end) (initial demo_end) 3)"
  using committed_serializable [OF demo_reachable demo_end_log(2) [unfolded demo_end_def]]
  by (simp only: log_entry.simps demo_end_def eval_nat_numeral)

text \<open>C3: When no transaction is running, every storage word is the value the serial run of the log gives it,
  and no version is locked or newer than the clock.\<close>

theorem idle_storage_is_serial:
  assumes "reachable stm_start stm_step s" and "\<And>t. pc (threads s t) = Idle"
  shows "storage_of s v = sigma (log s) (initial s) (tickets s) v
    \<and> version_of s v \<le> clock (the_clock s) \<and> \<not> locked (version_of s v)"
proof -
  note g = reachable_ginv [OF assms(1)]
  have "held (threads s t) = {}" for t using assms(2) by (simp add: held_def)
  then have "owner s v = None" using owner_held [OF g] by (cases "owner s v") auto
  then show ?thesis
    using var_ok_at [OF g, of v] version_unlocked [OF g, of v] by (simp add: var_ok_def)
qed

theorem idle_storage_is_serial_witness:
  "storage_of demo_end 16 = sigma (log demo_end) (initial demo_end) 3 16 \<and> \<not> locked (version_of demo_end 16)"
proof -
  have "reachable stm_start stm_step demo_end" unfolding demo_end_def by (rule demo_reachable)
  from idle_storage_is_serial [OF this demo_end_log(6), of 16] show ?thesis by (simp add: demo_end_log(3))
qed

text \<open>What \<open>read_write\<close> or \<open>read_only\<close> returns is in the log: it is the result of the program, run alone on
  the store of the transactions before it.\<close>

theorem returned_values_are_serial:
  assumes "reachable stm_start stm_step s" and "(Inr r, n) \<in> set (returned (threads s t))"
  shows "\<exists>e. log s n = Some e \<and> e_result e = r
    \<and> p_exec (e_func e) (sigma (log s) (initial s) n) = (Inr r, sigma (log s) (initial s) (Suc n))"
proof -
  have "jobs_inv s (threads s t)" using reachable_tinv [OF assms(1)] by (simp add: tinv_def)
  then obtain e where e: "log s n = Some e" "e_result e = r" using assms(2) by (auto simp: jobs_inv_def)
  then show ?thesis using entry_replay [OF e(1) log_entry_ok [OF assms(1) e(1)]] by blast
qed

theorem returned_values_are_serial_witness:
  "\<exists>e. log demo_end 2 = Some e \<and> e_result e = 7
    \<and> p_exec (e_func e) (sigma (log demo_end) (initial demo_end) 2) = (Inr 7, sigma (log demo_end) (initial demo_end) 3)"
proof -
  have "reachable stm_start stm_step demo_end" unfolding demo_end_def by (rule demo_reachable)
  moreover have "(Inr 7, 2) \<in> set (returned (threads demo_end 0))" by (simp add: demo_end_log(5))
  moreover have "Suc 2 = 3" by simp
  ultimately show ?thesis using returned_values_are_serial by metis
qed

text \<open>C2: A transaction that is still running, committed later or not, is consistent: what it has read is what the
  store of the committed transactions held when it began, so the rest of its program continues a run on
  that one store.\<close>

theorem running_transaction_consistent:
  assumes "reachable stm_start stm_step s" and "pc (threads s t) = Body p"
  shows "seen (threads s t) v \<in> {None, Some (sigma (log s) (initial s) (start (threads s t)) v)}
    \<and> p_exec (func (threads s t)) (sigma (log s) (initial s) (start (threads s t))) =
      p_exec p (overlay (sigma (log s) (initial s) (start (threads s t))) (hs_view (write_set (td (threads s t)))))"
proof -
  let ?l = "threads s t"
  have "snap_inv s ?l" "own_data ?l" using reachable_tinv [OF assms(1), of t] assms(2) by (simp_all add: tinv_def active_t_def)
  then have seen: "\<forall>v x. seen ?l v = Some x \<longrightarrow> sig s (start ?l) v = x"
    and run: "(\<forall>v x. seen ?l v = Some x \<longrightarrow> st v = x) \<longrightarrow> p_exec (func ?l) st = p_exec p (overlay st (hs_view (ws ?l)))" for st
    using assms(2) by (auto simp: snap_inv_def own_data_def cont_def)
  show ?thesis using seen run [of "sig s (start ?l)"] by (cases "seen ?l v") auto
qed

theorem running_transaction_consistent_witness:
  "sigma (log demo_mid) (initial demo_mid) 0 16 = 5"
proof -
  have "reachable stm_start stm_step demo_mid" unfolding demo_mid_def by (rule demo_reachable)
  from running_transaction_consistent [OF this demo_mid_state(1), of 16]
  show ?thesis by (simp add: demo_mid_state)
qed

text \<open>A version is locked exactly while one thread is between taking that lock and giving it back, and no
  two threads hold the same lock.\<close>

theorem version_locks_exclude:
  assumes "reachable stm_start stm_step s" and "v \<in> held (threads s t)"
  shows "locked (version_of s v) \<and> {u. v \<in> held (threads s u)} = {t}"
proof -
  note g = reachable_ginv [OF assms(1)]
  have o: "owner s v = Some t" using owner_held [OF g] assms(2) by simp
  have "v \<in> held (threads s u) \<longleftrightarrow> u = t" for u using owner_held [OF g, of v u] o by auto
  then show ?thesis using var_ok_at [OF g, of v] o by (simp add: var_ok_def)
qed

theorem version_locks_exclude_witness:
  "locked (version_of demo_mid 16) \<and> {u. 16 \<in> held (threads demo_mid u)} = {0}"
proof (rule version_locks_exclude)
  show "reachable stm_start stm_step demo_mid" unfolding demo_mid_def by (rule demo_reachable)
  show "16 \<in> held (threads demo_mid 0)" by (simp add: held_def demo_mid_state one_write)
qed

end
