(* ===== verification/Fast_RW_Mutex.thy ===== *)
theory Fast_RW_Mutex
  imports Versions
begin

text \<open>
  The reader-writer mutex of \<^verbatim>\<open>detail/fast_rw_mutex.hpp\<close>, which protects the list of thread nodes.
  Its state is one word: the number of readers, and in the top bit whether a writer has asked for
  the lock. A step of a thread is one access to that word; \<open>compare_exchange_weak\<close> may fail without
  a reason, which is an argument of the step. Back-off between two steps has no effect here.

  The invariant counts the threads whose increment is in the word, and gives mutual exclusion.
\<close>

section \<open>The state word\<close>

definition write_bit :: uword where
  "write_bit = push_bit (8 * 8 - 1) 1"

definition read_mask :: uword where
  "read_mask = NOT write_bit"

definition write_locked :: "uword \<Rightarrow> bool" where
  "write_locked state \<longleftrightarrow> state AND write_bit \<noteq> 0"

definition read_locked :: "uword \<Rightarrow> bool" where
  "read_locked state \<longleftrightarrow> state AND read_mask \<noteq> 0"

definition mutex_unlocked :: "uword \<Rightarrow> bool" where
  "mutex_unlocked state \<longleftrightarrow> state = 0"

section \<open>The machine\<close>

text \<open>Where a thread is: outside, in \<open>lock_shared_slow_path\<close>, in \<open>request_write_lock\<close>, in
  \<open>wait_for_readers\<close>, or holding the lock.\<close>

datatype mutex_pc =
    Outside
  | Undo_Increment
  | Shared_Load
  | Shared_Cas uword
  | Shared_Held
  | Request_Load
  | Request_Cas uword
  | Wait_Readers
  | Held

datatype mutex_call = Lock_Shared | Lock_Exclusive

record mutex_sys =
  read_count :: uword
  mpc :: "nat \<Rightarrow> mutex_pc"

definition mput :: "nat \<Rightarrow> mutex_pc \<Rightarrow> uword \<Rightarrow> mutex_sys \<Rightarrow> mutex_sys" where
  "mput t p c s = s\<lparr> read_count := c, mpc := (mpc s)(t := p) \<rparr>"

definition step_lock_shared :: "nat \<Rightarrow> mutex_sys \<Rightarrow> mutex_sys" where
  "step_lock_shared t s =
     (let prev = read_count s
      in mput t (if write_locked prev then Undo_Increment else Shared_Held) (prev + 1) s)"

definition step_undo_increment :: "nat \<Rightarrow> mutex_sys \<Rightarrow> mutex_sys" where
  "step_undo_increment t s = mput t Shared_Load (read_count s - 1) s"

definition step_shared_load :: "nat \<Rightarrow> mutex_sys \<Rightarrow> mutex_sys" where
  "step_shared_load t s =
     (let read_state = read_count s
      in mput t (if write_locked read_state then Shared_Load else Shared_Cas read_state) (read_count s) s)"

definition step_shared_cas :: "nat \<Rightarrow> uword \<Rightarrow> bool \<Rightarrow> mutex_sys \<Rightarrow> mutex_sys" where
  "step_shared_cas t read_state spurious s =
     (if read_count s = read_state \<and> \<not> spurious then mput t Shared_Held (read_state + 1) s
      else mput t Shared_Load (read_count s) s)"

definition step_unlock_shared :: "nat \<Rightarrow> mutex_sys \<Rightarrow> mutex_sys" where
  "step_unlock_shared t s = mput t Outside (read_count s - 1) s"

definition step_lock_exclusive :: "nat \<Rightarrow> bool \<Rightarrow> mutex_sys \<Rightarrow> mutex_sys" where
  "step_lock_exclusive t spurious s =
     (if read_count s = 0 \<and> \<not> spurious then mput t Held write_bit s else mput t Request_Load (read_count s) s)"

definition step_request_load :: "nat \<Rightarrow> mutex_sys \<Rightarrow> mutex_sys" where
  "step_request_load t s =
     (let prev_read_count = read_count s
      in mput t (if write_locked prev_read_count then Request_Load else Request_Cas prev_read_count) (read_count s) s)"

definition step_request_cas :: "nat \<Rightarrow> uword \<Rightarrow> bool \<Rightarrow> mutex_sys \<Rightarrow> mutex_sys" where
  "step_request_cas t prev_read_count spurious s =
     (if read_count s = prev_read_count \<and> \<not> spurious
      then mput t (if read_locked prev_read_count then Wait_Readers else Held) (prev_read_count OR write_bit) s
      else mput t Request_Load (read_count s) s)"

definition step_wait_for_readers :: "nat \<Rightarrow> mutex_sys \<Rightarrow> mutex_sys" where
  "step_wait_for_readers t s = mput t (if read_locked (read_count s) then Wait_Readers else Held) (read_count s) s"

definition step_unlock_exclusive :: "nat \<Rightarrow> mutex_sys \<Rightarrow> mutex_sys" where
  "step_unlock_exclusive t s = mput t Outside (read_count s AND read_mask) s"

text \<open>One step of thread \<open>t\<close>; outside, it makes the given call.\<close>

definition mutex_tstep :: "nat \<Rightarrow> mutex_call \<Rightarrow> bool \<Rightarrow> mutex_sys \<Rightarrow> mutex_sys" where
  "mutex_tstep t call spurious s =
     (case mpc s t of
        Outside \<Rightarrow> (case call of Lock_Shared \<Rightarrow> step_lock_shared t s | Lock_Exclusive \<Rightarrow> step_lock_exclusive t spurious s)
      | Undo_Increment \<Rightarrow> step_undo_increment t s
      | Shared_Load \<Rightarrow> step_shared_load t s
      | Shared_Cas x \<Rightarrow> step_shared_cas t x spurious s
      | Shared_Held \<Rightarrow> step_unlock_shared t s
      | Request_Load \<Rightarrow> step_request_load t s
      | Request_Cas x \<Rightarrow> step_request_cas t x spurious s
      | Wait_Readers \<Rightarrow> step_wait_for_readers t s
      | Held \<Rightarrow> step_unlock_exclusive t s)"

text \<open>The number of threads \<open>N\<close> is bounded by the room for readers in the word.\<close>

definition new_mutex :: mutex_sys where
  "new_mutex = \<lparr> read_count = 0, mpc = (\<lambda>_. Outside) \<rparr>"

definition mutex_start :: "nat \<Rightarrow> mutex_sys \<Rightarrow> bool" where
  "mutex_start N s \<longleftrightarrow> N < 2 ^ 62 \<and> s = new_mutex"

definition mutex_step :: "nat \<Rightarrow> mutex_sys \<Rightarrow> mutex_sys \<Rightarrow> bool" where
  "mutex_step N s s' \<longleftrightarrow> (\<exists>t call spurious. t < N \<and> s' = mutex_tstep t call spurious s)"

section \<open>Arithmetic of the state word\<close>

lemma write_bit_lock_bit: "write_bit = lock_bit"
  by (simp add: write_bit_def lock_bit_def)

lemma write_bit_val: "write_bit = 2 ^ 63"
  by (simp add: write_bit_lock_bit lock_bit_val)

lemma write_locked_iff: "write_locked x \<longleftrightarrow> 2 ^ 63 \<le> unat x"
  using locked_iff_ge [of x]
  by (simp add: write_locked_def locked_def write_bit_lock_bit lock_bit_val word_le_nat_alt)

lemma read_mask_mask: "read_mask = mask 63"
  by (simp add: read_mask_def write_bit_def mask_eq_exp_minus_1 push_bit_eq_mult)

lemma unat_read_mask: "unat (x AND read_mask) = unat x mod 2 ^ 63"
  unfolding read_mask_mask by (simp only: flip: take_bit_eq_mask) (rule trans [OF unsigned_take_bit_eq take_bit_eq_mod])

lemma read_locked_iff: "read_locked x \<longleftrightarrow> unat x mod 2 ^ 63 \<noteq> 0"
  using unat_read_mask [of x] unsigned_0 unat_eq_zero [of "x AND read_mask"] by (simp add: read_locked_def)

lemma unat_or_write_bit: "unat x < 2 ^ 63 \<Longrightarrow> unat (x OR write_bit) = unat x + 2 ^ 63"
proof -
  assume x: "unat x < 2 ^ 63"
  then have "\<not> bit x 63" using write_locked_iff [of x] locked_iff_bit [of x]
    by (simp add: write_locked_def locked_def write_bit_lock_bit)
  then have "x OR write_bit = x + write_bit"
    by (intro disjunctive_add [symmetric]) (auto simp: write_bit_lock_bit bit_lock_bit)
  then show ?thesis using x by (simp add: write_bit_lock_bit lock_bit_val unat_word_ariths)
qed

lemma unat_inc: "unat (x :: uword) < 2 ^ 64 - 1 \<Longrightarrow> unat (x + 1) = unat x + 1"
  by (simp add: unat_word_ariths)

lemma unat_dec: "0 < unat (x :: uword) \<Longrightarrow> unat (x - 1) = unat x - 1"
  by (metis unat_minus_one unat_eq_zero less_irrefl)

section \<open>The invariant\<close>

text \<open>The threads whose increment is in the word, and those that have set the write bit.\<close>

definition counted :: "mutex_pc \<Rightarrow> bool" where
  "counted p \<longleftrightarrow> p = Undo_Increment \<or> p = Shared_Held"

definition writing :: "mutex_pc \<Rightarrow> bool" where
  "writing p \<longleftrightarrow> p = Wait_Readers \<or> p = Held"

definition readers :: "nat \<Rightarrow> (nat \<Rightarrow> mutex_pc) \<Rightarrow> nat" where
  "readers N f = card {t. t < N \<and> counted (f t)}"

definition writers :: "(nat \<Rightarrow> mutex_pc) \<Rightarrow> nat set" where
  "writers f = {t. writing (f t)}"

definition mutex_inv :: "nat \<Rightarrow> mutex_sys \<Rightarrow> bool" where
  "mutex_inv N s \<longleftrightarrow> N < 2 ^ 62
     \<and> (\<forall>t. N \<le> t \<longrightarrow> mpc s t = Outside)
     \<and> unat (read_count s) = readers N (mpc s) + (if writers (mpc s) = {} then 0 else 2 ^ 63)
     \<and> (\<forall>t u. writing (mpc s t) \<longrightarrow> writing (mpc s u) \<longrightarrow> t = u)
     \<and> (\<forall>t u. mpc s t = Held \<longrightarrow> mpc s u \<noteq> Shared_Held)
     \<and> (\<forall>t x. mpc s t = Shared_Cas x \<or> mpc s t = Request_Cas x \<longrightarrow> \<not> write_locked x)"

lemma readers_bound: "readers N f \<le> N"
proof -
  have "readers N f \<le> card {..<N}" unfolding readers_def by (intro card_mono) auto
  then show ?thesis by simp
qed

lemma readers_upd:
  assumes "t < N"
  shows "readers N (f(t := p)) + (if counted (f t) then 1 else 0) = readers N f + (if counted p then 1 else 0)"
proof -
  define R where "R = {u. u < N \<and> counted (f u)} - {t}"
  have "{u. u < N \<and> counted ((f(t := p)) u)} = (if counted p then insert t R else R)" using assms by (auto simp: R_def)
  moreover have "{u. u < N \<and> counted (f u)} = (if counted (f t) then insert t R else R)" using assms by (auto simp: R_def)
  moreover have "finite R" "t \<notin> R" by (auto simp: R_def)
  ultimately show ?thesis unfolding readers_def by simp
qed

lemma readers_pos: "t < N \<Longrightarrow> counted (f t) \<Longrightarrow> 0 < readers N f"
  by (auto simp: readers_def card_gt_0_iff)

lemma no_readers: "readers N f = 0 \<Longrightarrow> t < N \<Longrightarrow> \<not> counted (f t)"
  using readers_pos by fastforce

lemma writers_upd: "writers (f(t := p)) = (if writing p then insert t (writers f) else writers f - {t})"
  by (auto simp: writers_def)

lemma writers_quiet: "\<not> writing (f t) \<Longrightarrow> \<not> writing p \<Longrightarrow> writers (f(t := p)) = writers f"
  by (auto simp: writers_def)

lemma mutex_inv_start: "mutex_start N s \<Longrightarrow> mutex_inv N s"
  by (auto simp: mutex_start_def mutex_inv_def new_mutex_def readers_def writers_def counted_def writing_def)

lemma mutex_write_locked: "mutex_inv N s \<Longrightarrow> write_locked (read_count s) \<longleftrightarrow> writers (mpc s) \<noteq> {}"
  using readers_bound [of N "mpc s"] by (auto simp: mutex_inv_def write_locked_iff)

lemma mutex_read_locked: "mutex_inv N s \<Longrightarrow> read_locked (read_count s) \<longleftrightarrow> readers N (mpc s) \<noteq> 0"
  using readers_bound [of N "mpc s"] by (auto simp: mutex_inv_def read_locked_iff)

text \<open>What a step has to show: the count, and that the new place of the thread excludes no one wrongly.\<close>

lemma mutex_move:
  assumes i: "mutex_inv N s" and t: "t < N"
    and count: "unat c + (if counted (mpc s t) then 1 else 0) + (if writers (mpc s) = {} then 0 else 2 ^ 63) =
      unat (read_count s) + (if counted p then 1 else 0) + (if writers ((mpc s)(t := p)) = {} then 0 else 2 ^ 63)"
    and w: "writing p \<Longrightarrow> writers (mpc s) \<subseteq> {t}"
    and h: "p = Held \<Longrightarrow> readers N (mpc s) = 0" and r: "p = Shared_Held \<Longrightarrow> writers (mpc s) = {}"
    and x: "\<And>x. p = Shared_Cas x \<or> p = Request_Cas x \<Longrightarrow> \<not> write_locked x"
  shows "mutex_inv N (mput t p c s)"
proof -
  let ?f = "(mpc s)(t := p)"
  have out: "mpc s u = Outside" if "N \<le> u" for u using i that by (simp add: mutex_inv_def)
  have cnt: "unat c = readers N ?f + (if writers ?f = {} then 0 else 2 ^ 63)"
    using count readers_upd [OF t, of "mpc s" p] i unfolding mutex_inv_def by auto
  have one: "u = v" if "writing (?f u)" "writing (?f v)" for u v
    using that w i unfolding mutex_inv_def writers_def by (cases "u = t"; cases "v = t") auto
  have excl: "?f v \<noteq> Shared_Held" if "?f u = Held" for u v
  proof
    assume v: "?f v = Shared_Held"
    have "u \<noteq> v" using that v by auto
    have "v < N" using v t out [of v] by (cases "v = t") (auto simp: not_less [symmetric] intro: ccontr)
    consider "u = t" | "v = t" "u \<noteq> t" | "u \<noteq> t" "v \<noteq> t" by blast
    then show False
    proof cases
      case 1
      then show False
        using that v \<open>u \<noteq> v\<close> no_readers [OF h \<open>v < N\<close>] by (auto simp: counted_def)
    next
      case 2
      then show False using that v r by (auto simp: writers_def writing_def)
    next
      case 3
      then show False using that v i by (auto simp: mutex_inv_def)
    qed
  qed
  have cas: "\<not> write_locked x'" if "?f u = Shared_Cas x' \<or> ?f u = Request_Cas x'" for u x'
    using that x i by (cases "u = t") (auto simp: mutex_inv_def)
  have m: "mpc (mput t p c s) = ?f" "read_count (mput t p c s) = c" by (simp_all add: mput_def)
  show ?thesis
    unfolding mutex_inv_def m
  proof (intro conjI)
    show "N < 2 ^ 62" using i by (simp add: mutex_inv_def)
    show "\<forall>u. N \<le> u \<longrightarrow> ?f u = Outside" using t out by simp
    show "unat c = readers N ?f + (if writers ?f = {} then 0 else 2 ^ 63)" by (rule cnt)
    show "\<forall>u v. writing (?f u) \<longrightarrow> writing (?f v) \<longrightarrow> u = v" using one by blast
    show "\<forall>u v. ?f u = Held \<longrightarrow> ?f v \<noteq> Shared_Held" using excl by blast
    show "\<forall>u x. ?f u = Shared_Cas x \<or> ?f u = Request_Cas x \<longrightarrow> \<not> write_locked x" using cas by blast
  qed
qed

lemma not_held_by_others: "mutex_inv N s \<Longrightarrow> writing (mpc s t) \<Longrightarrow> writers (mpc s) = {t}"
  by (auto simp: mutex_inv_def writers_def)

lemma mutex_count_room: "mutex_inv N s \<Longrightarrow> unat (read_count s) < 2 ^ 64 - 1"
  using readers_bound [of N "mpc s"] by (auto simp: mutex_inv_def split: if_splits)

lemma mutex_step_inv:
  assumes i: "mutex_inv N s" and "mutex_step N s s'"
  shows "mutex_inv N s'"
proof -
  obtain t call spurious where t: "t < N" and s': "s' = mutex_tstep t call spurious s"
    using assms(2) by (auto simp: mutex_step_def)
  note wl = mutex_write_locked [OF i] and rl = mutex_read_locked [OF i]
  note room = unat_inc [OF mutex_count_room [OF i]]
  have rp: "0 < readers N (mpc s)" if "counted (mpc s t)" using that t readers_pos by blast
  then have dec: "unat (read_count s - 1) = unat (read_count s) - 1" "0 < unat (read_count s)" if "counted (mpc s t)"
    using that i unat_dec [of "read_count s"] by (auto simp: mutex_inv_def)
  have cas: "\<not> write_locked x" if "mpc s t = Shared_Cas x \<or> mpc s t = Request_Cas x" for x
    using i that by (auto simp: mutex_inv_def)
  note move = mutex_move [OF i t]
  show ?thesis
  proof (cases "mpc s t")
    case Outside
    show ?thesis
    proof (cases call)
      case Lock_Shared
      then show ?thesis
        using Outside wl room by (auto simp: s' mutex_tstep_def step_lock_shared_def Let_def counted_def writing_def writers_quiet intro!: move)
    next
      case Lock_Exclusive
      have "writers (mpc s) = {}" "readers N (mpc s) = 0" if "read_count s = 0"
        using that i by (auto simp: mutex_inv_def split: if_splits)
      then show ?thesis
        using Outside Lock_Exclusive
        by (cases "read_count s = 0 \<and> \<not> spurious")
          (auto simp: s' mutex_tstep_def step_lock_exclusive_def counted_def writing_def writers_quiet writers_upd [of _ _ Held]
            write_bit_val intro!: move)
    qed
  next
    case Undo_Increment
    then show ?thesis using dec by (auto simp: s' mutex_tstep_def step_undo_increment_def counted_def writing_def writers_quiet intro!: move)
  next
    case Shared_Load
    then show ?thesis by (auto simp: s' mutex_tstep_def step_shared_load_def Let_def counted_def writing_def writers_quiet intro!: move)
  next
    case (Shared_Cas x)
    then show ?thesis
      using cas wl room by (auto simp: s' mutex_tstep_def step_shared_cas_def Let_def counted_def writing_def writers_quiet intro!: move)
  next
    case Shared_Held
    then show ?thesis using dec by (auto simp: s' mutex_tstep_def step_unlock_shared_def counted_def writing_def writers_quiet intro!: move)
  next
    case Request_Load
    then show ?thesis by (auto simp: s' mutex_tstep_def step_request_load_def Let_def counted_def writing_def writers_quiet intro!: move)
  next
    case (Request_Cas x)
    have "writers (mpc s) = {}" "unat (x OR write_bit) = unat x + 2 ^ 63" if "read_count s = x"
      using that cas [of x] Request_Cas wl unat_or_write_bit write_locked_iff by auto
    then show ?thesis
      using Request_Cas rl
      by (cases "read_count s = x \<and> \<not> spurious")
        (auto simp: s' mutex_tstep_def step_request_cas_def counted_def writing_def writers_quiet [of _ _ Request_Load]
          writers_upd [of _ _ Held] writers_upd [of _ _ Wait_Readers] intro!: move)
  next
    case Wait_Readers
    then have "writers (mpc s) = {t}" using not_held_by_others [OF i] by (simp add: writing_def)
    then show ?thesis
      using Wait_Readers rl by (auto simp: s' mutex_tstep_def step_wait_for_readers_def counted_def writing_def writers_upd intro!: move)
  next
    case Held
    then have w: "writers (mpc s) = {t}" using not_held_by_others [OF i] by (simp add: writing_def)
    then have c: "unat (read_count s) = readers N (mpc s) + 2 ^ 63" using i by (simp add: mutex_inv_def)
    moreover have "unat (read_count s AND read_mask) = readers N (mpc s)"
      using c i readers_bound [of N "mpc s"] by (simp add: unat_read_mask mutex_inv_def)
    ultimately show ?thesis
      using Held w by (auto simp: s' mutex_tstep_def step_unlock_exclusive_def counted_def writing_def writers_upd intro!: move)
  qed
qed

text \<open>What the destructor asserts once every thread is outside.\<close>

lemma mutex_all_outside:
  assumes "mutex_inv N s" "\<And>u. mpc s u = Outside"
  shows "mutex_unlocked (read_count s)"
proof -
  have "readers N (mpc s) = 0" "writers (mpc s) = {}"
    by (simp_all add: assms(2) readers_def writers_def counted_def writing_def)
  then show ?thesis using assms(1) by (simp add: mutex_inv_def mutex_unlocked_def unat_eq_zero)
qed

interpretation fast_rw_mutex: invariant_system "mutex_start N" "mutex_step N" "mutex_inv N" for N
  by unfold_locales (auto simp: mutex_inv_start mutex_step_inv)

section \<open>Properties\<close>

text \<open>C18: Mutual exclusion: while a thread holds the mutex exclusively, no other thread holds it in either way.\<close>

theorem mutex_exclusion:
  assumes "reachable (mutex_start N) (mutex_step N) s" and "mpc s t = Held" and "u \<noteq> t"
  shows "mpc s u \<noteq> Held \<and> mpc s u \<noteq> Shared_Held"
proof -
  have i: "mutex_inv N s" using fast_rw_mutex.reachable_inv [OF assms(1)] .
  then have "writers (mpc s) = {t}" using not_held_by_others [OF i] assms(2) by (simp add: writing_def)
  then have "mpc s u \<noteq> Held" using assms(3) by (auto simp: writers_def writing_def)
  then show ?thesis using i assms(2) by (auto simp: mutex_inv_def)
qed

text \<open>The assertions of \<open>unlock_shared\<close>, \<open>unlock\<close> and \<open>lock_shared_slow_path\<close> hold: while a thread holds the
  mutex in shared mode the word says so, and while one holds it exclusively the write bit is set. When
  every thread is outside the word is 0, as the destructor asserts.\<close>

theorem mutex_assertions:
  assumes "reachable (mutex_start N) (mutex_step N) s"
  shows "(mpc s t \<noteq> Shared_Held \<or> read_locked (read_count s)) \<and> (mpc s t \<noteq> Held \<or> write_locked (read_count s))
    \<and> (range (mpc s) \<noteq> {Outside} \<or> mutex_unlocked (read_count s))"
proof -
  have i: "mutex_inv N s" using fast_rw_mutex.reachable_inv [OF assms] .
  have "read_locked (read_count s)" if "mpc s t = Shared_Held"
  proof -
    have "t < N" using i that by (auto simp: mutex_inv_def not_less [symmetric])
    then show ?thesis using readers_pos [of t N "mpc s"] that mutex_read_locked [OF i] by (simp add: counted_def)
  qed
  moreover have "write_locked (read_count s)" if "mpc s t = Held"
    using that mutex_write_locked [OF i] by (auto simp: writers_def writing_def)
  moreover have "mutex_unlocked (read_count s)" if "range (mpc s) = {Outside}"
    using mutex_all_outside [OF i] that by (metis rangeI singletonD)
  ultimately show ?thesis by blast
qed

text \<open>Thread 0 takes the lock exclusively; thread 1 wants to share it and has to undo its increment.\<close>

definition contended :: mutex_sys where
  "contended = mutex_tstep 1 Lock_Shared False (mutex_tstep 0 Lock_Exclusive False new_mutex)"

lemma contended_reachable: "reachable (mutex_start 2) (mutex_step 2) contended"
proof -
  have step: "mutex_step 2 s (mutex_tstep t call spurious s)" if "t < 2" for s t call spurious
    using that by (auto simp: mutex_step_def)
  have "reachable (mutex_start 2) (mutex_step 2) new_mutex" by (rule reach_start) (simp add: mutex_start_def)
  then show ?thesis
    unfolding contended_def by (meson reach_step step one_less_numeral_iff zero_less_numeral semiring_norm(76))
qed

lemma contended_state: "mpc contended 0 = Held" "mpc contended 1 = Undo_Increment"
  by (simp_all add: contended_def mutex_tstep_def new_mutex_def step_lock_shared_def step_lock_exclusive_def mput_def
      Let_def write_locked_iff write_bit_val)

theorem mutex_exclusion_witness: "mpc contended 1 \<noteq> Held \<and> mpc contended 1 \<noteq> Shared_Held"
  by (rule mutex_exclusion [OF contended_reachable contended_state(1)]) simp

theorem mutex_assertions_witness: "write_locked (read_count contended)"
  using mutex_assertions [OF contended_reachable, of 0] contended_state(1) by simp

end
