(* ===== verification/Memory_Alloc.thy ===== *)
theory Memory_Alloc
  imports Thread_Data
begin

text \<open>
  Allocation inside a transaction: the function templates of \<^verbatim>\<open>memory.hpp\<close> for one object. Each takes
  memory at once and registers what undoes it as a failure callback, or defers giving it back to a
  grace-period callback.

  The overloads for trivially and for non-trivially destructible types are chosen by the argument
  \<open>triv\<close>. Freeing the storage of a trivially destructible object ends its lifetime, which is the
  callback \<open>Destroy_Deallocate\<close> of the memory model. The overloads that take a \<open>count\<close> hand out and take back
  raw storage for that many objects; the objects in it are not modelled one by one.

  The value constructed is \<open>None\<close> when the constructor throws; the exception then leaves the function
  before any callback is registered.
\<close>

section \<open>With a thread\<close>

definition td_allocate :: "'v memory \<times> 'c thread_data \<Rightarrow> (cxx_error + uword) \<times> 'v memory \<times> 'c thread_data" where
  "td_allocate = (\<lambda>(m, tls_td).
     case mem_allocate m of
       None \<Rightarrow> (Inl Bad_alloc, m, tls_td)
     | Some (result, m') \<Rightarrow>
         (Inr result, m', if in_critical_section tls_td then td_after_fail (Deallocate result) tls_td else tls_td))"

definition td_allocate_n :: "uword \<Rightarrow> 'v memory \<times> 'c thread_data \<Rightarrow> (cxx_error + uword) \<times> 'v memory \<times> 'c thread_data" where
  "td_allocate_n cnt = (\<lambda>(m, tls_td).
     case mem_allocate_n cnt m of
       None \<Rightarrow> (Inl Bad_alloc, m, tls_td)
     | Some (result, m') \<Rightarrow>
         (Inr result, m', if in_critical_section tls_td then td_after_fail (Deallocate_N result cnt) tls_td else tls_td))"

definition td_construct ::
    "bool \<Rightarrow> uword \<Rightarrow> 'v option \<Rightarrow> 'v memory \<times> 'c thread_data \<Rightarrow> (cxx_error + unit) \<times> 'v memory \<times> 'c thread_data" where
  "td_construct triv t args = (\<lambda>(m, tls_td).
     case args of
       None \<Rightarrow> (Inl Ctor_exception, m, tls_td)
     | Some v \<Rightarrow>
         (case mem_construct t v m of
            None \<Rightarrow> (Inl Undefined_behaviour, m, tls_td)
          | Some m' \<Rightarrow>
              (Inr (), m', if \<not> triv \<and> in_critical_section tls_td then td_after_fail (Destroy t) tls_td else tls_td)))"

definition td_allocate_construct ::
    "'v option \<Rightarrow> 'v memory \<times> 'c thread_data \<Rightarrow> (cxx_error + uword) \<times> 'v memory \<times> 'c thread_data" where
  "td_allocate_construct args = (\<lambda>(m, tls_td).
     case mem_allocate m of
       None \<Rightarrow> (Inl Bad_alloc, m, tls_td)
     | Some (result, m1) \<Rightarrow>
         (case args of
            None \<Rightarrow> (Inl Ctor_exception, m1, tls_td)
          | Some v \<Rightarrow>
              (case mem_construct result v m1 of
                 None \<Rightarrow> (Inl Undefined_behaviour, m1, tls_td)
               | Some m2 \<Rightarrow>
                   (Inr result, m2,
                    if in_critical_section tls_td then td_after_fail (Destroy_Deallocate result) tls_td else tls_td))))"

section \<open>With a transaction\<close>

definition tx_allocate :: "'v memory \<times> 'c thread_data \<Rightarrow> (cxx_error + uword) \<times> 'v memory \<times> 'c thread_data" where
  "tx_allocate = (\<lambda>(m, td).
     case mem_allocate m of
       None \<Rightarrow> (Inl Bad_alloc, m, td)
     | Some (result, m') \<Rightarrow> (Inr result, m', td_after_fail (Deallocate result) td))"

definition tx_allocate_n :: "uword \<Rightarrow> 'v memory \<times> 'c thread_data \<Rightarrow> (cxx_error + uword) \<times> 'v memory \<times> 'c thread_data" where
  "tx_allocate_n cnt = (\<lambda>(m, td).
     case mem_allocate_n cnt m of
       None \<Rightarrow> (Inl Bad_alloc, m, td)
     | Some (result, m') \<Rightarrow> (Inr result, m', td_after_fail (Deallocate_N result cnt) td))"

definition tx_deallocate_n :: "uword \<Rightarrow> uword \<Rightarrow> 'c thread_data \<Rightarrow> 'c thread_data" where
  "tx_deallocate_n ptr cnt td = td_sometime_synchronized_after (Deallocate_N ptr cnt) td"

definition tx_deallocate :: "uword \<Rightarrow> 'c thread_data \<Rightarrow> 'c thread_data" where
  "tx_deallocate ptr td = td_sometime_synchronized_after (Deallocate ptr) td"

definition tx_construct ::
    "bool \<Rightarrow> uword \<Rightarrow> 'v option \<Rightarrow> 'v memory \<times> 'c thread_data \<Rightarrow> (cxx_error + unit) \<times> 'v memory \<times> 'c thread_data" where
  "tx_construct triv t args = (\<lambda>(m, td).
     case args of
       None \<Rightarrow> (Inl Ctor_exception, m, td)
     | Some v \<Rightarrow>
         (case mem_construct t v m of
            None \<Rightarrow> (Inl Undefined_behaviour, m, td)
          | Some m' \<Rightarrow> (Inr (), m', if triv then td else td_after_fail (Destroy t) td)))"

definition tx_destroy :: "bool \<Rightarrow> uword \<Rightarrow> 'c thread_data \<Rightarrow> 'c thread_data" where
  "tx_destroy triv t td = (if triv then td else td_sometime_synchronized_after (Destroy t) td)"

definition tx_allocate_construct ::
    "'v option \<Rightarrow> 'v memory \<times> 'c thread_data \<Rightarrow> (cxx_error + uword) \<times> 'v memory \<times> 'c thread_data" where
  "tx_allocate_construct args = (\<lambda>(m, td).
     case mem_allocate m of
       None \<Rightarrow> (Inl Bad_alloc, m, td)
     | Some (result, m1) \<Rightarrow>
         (case args of
            None \<Rightarrow> (Inl Ctor_exception, m1, td)
          | Some v \<Rightarrow>
              (case mem_construct result v m1 of
                 None \<Rightarrow> (Inl Undefined_behaviour, m1, td)
               | Some m2 \<Rightarrow> (Inr result, m2, td_after_fail (Destroy_Deallocate result) td))))"

definition tx_destroy_deallocate :: "uword \<Rightarrow> 'c thread_data \<Rightarrow> 'c thread_data" where
  "tx_destroy_deallocate ptr td = td_sometime_synchronized_after (Destroy_Deallocate ptr) td"

section \<open>Sequences of calls\<close>

text \<open>The calls a transaction makes for a type with a destructor; \<open>None\<close> when one of them fails.\<close>

datatype 'v mem_op =
    Do_Allocate
  | Do_Allocate_N uword
  | Do_Construct uword 'v
  | Do_Allocate_Construct 'v
  | Do_Deallocate uword
  | Do_Deallocate_N uword uword
  | Do_Destroy uword
  | Do_Destroy_Deallocate uword

definition succeeded :: "(cxx_error + 'a) \<times> 's \<Rightarrow> 's option" where
  "succeeded = (\<lambda>(r, s). case r of Inl _ \<Rightarrow> None | Inr _ \<Rightarrow> Some s)"

primrec run_op :: "'v mem_op \<Rightarrow> 'v memory \<times> 'c thread_data \<Rightarrow> ('v memory \<times> 'c thread_data) option" where
  "run_op Do_Allocate s = succeeded (tx_allocate s)"
| "run_op (Do_Allocate_N cnt) s = succeeded (tx_allocate_n cnt s)"
| "run_op (Do_Construct t v) s = succeeded (tx_construct False t (Some v) s)"
| "run_op (Do_Allocate_Construct v) s = succeeded (tx_allocate_construct (Some v) s)"
| "run_op (Do_Deallocate p) s = Some (fst s, tx_deallocate p (snd s))"
| "run_op (Do_Deallocate_N p cnt) s = Some (fst s, tx_deallocate_n p cnt (snd s))"
| "run_op (Do_Destroy p) s = Some (fst s, tx_destroy False p (snd s))"
| "run_op (Do_Destroy_Deallocate p) s = Some (fst s, tx_destroy_deallocate p (snd s))"

primrec run_ops :: "'v mem_op list \<Rightarrow> 'v memory \<times> 'c thread_data \<Rightarrow> ('v memory \<times> 'c thread_data) option" where
  "run_ops [] s = Some s"
| "run_ops (op # ops) s = Option.bind (run_op op s) (run_ops ops)"

section \<open>Undoing\<close>

lemma td_after_fail_items [vec_simps]:
  "pv_items (fail_callbacks (td_after_fail cb td)) = pv_items (fail_callbacks td) @ [cb]"
  by (simp add: td_after_fail_def vec_simps)

lemma td_after_fail_inv: "pv_inv (fail_callbacks td) \<Longrightarrow> pv_inv (fail_callbacks (td_after_fail cb td))"
  by (simp add: td_after_fail_def emplace_back_inv)

lemma deferred_fails [simp]: "fail_callbacks (td_sometime_synchronized_after cb td) = fail_callbacks td"
  by (simp add: td_sometime_synchronized_after_def)

lemma allocate_undone:
  assumes "mem_inv m" and "mem_allocate m = Some (p, m')"
  shows "mem_inv m'" and "mem_deallocate p m' = Some m"
proof -
  note a = mem_allocate_Some [OF assms]
  show "mem_inv m'" by (rule a(1))
  have "mem_deallocate p m' = Some (m'\<lparr> mem_blocks := (mem_blocks m')(p := None), mem_free := p # mem_free m' \<rparr>)"
    using a(3) by (simp add: mem_deallocate_def)
  then show "mem_deallocate p m' = Some m" using a(2-4) by (simp add: fun_upd_idem)
qed

lemma allocate_n_undone:
  assumes "mem_inv m" and "mem_allocate_n n m = Some (p, m')"
  shows "mem_inv m'" and "mem_deallocate_n p n m' = Some m"
  using assms by (auto simp: mem_allocate_n_def mem_deallocate_n_def mem_inv_def fun_upd_idem split: list.splits)

lemma construct_undone:
  assumes "mem_inv m" and "mem_construct p v m = Some m'"
  shows "mem_inv m'" and "mem_destroy p m' = Some m" and "mem_blocks m p = Some Raw"
proof -
  have raw: "mem_blocks m p = Some Raw" and m': "m' = m\<lparr> mem_blocks := (mem_blocks m)(p := Some (Object v)) \<rparr>"
    using assms(2) by (auto simp: mem_construct_def split: if_splits)
  show "mem_blocks m p = Some Raw" by (rule raw)
  have "p \<notin> set (mem_free m)" using assms(1) raw by (auto simp: mem_inv_def)
  then show "mem_inv m'" using assms(1) by (auto simp: mem_inv_def m')
  show "mem_destroy p m' = Some m" using raw by (simp add: mem_destroy_def m' fun_upd_idem)
qed

text \<open>The failure callbacks of a thread as they would run now, last one first.\<close>

definition undo :: "'v memory \<times> 'c thread_data \<Rightarrow> 'c list \<Rightarrow> ('v memory \<times> 'c list) option" where
  "undo = (\<lambda>(m, td) log. run_gp_callbacks (fst (do_fail_callbacks td)) (m, log))"

lemma undo_after_fail:
  assumes "pv_inv (fail_callbacks td)" and "run_gp_callback cb (m', log) = Some (m, log)"
  shows "undo (m', td_after_fail cb td) log = undo (m, td) log"
  using assms do_fail_callbacks_reverse(1) [OF assms(1)] do_fail_callbacks_reverse(1) [OF td_after_fail_inv [OF assms(1)]]
  by (simp add: undo_def vec_simps)

lemma run_op_undone:
  assumes "mem_inv m" and "pv_inv (fail_callbacks td)" and "run_op op (m, td) = Some (m', td')"
  shows "mem_inv m' \<and> pv_inv (fail_callbacks td') \<and> undo (m', td') log = undo (m, td) log"
proof (cases op)
  case Do_Allocate
  then obtain p where "mem_allocate m = Some (p, m')" "td' = td_after_fail (Deallocate p) td"
    using assms(3) by (auto simp: tx_allocate_def succeeded_def split: option.splits)
  then show ?thesis
    using allocate_undone [OF assms(1)] undo_after_fail [OF assms(2), of "Deallocate p" m' log m] td_after_fail_inv [OF assms(2)]
    by (simp add: run_gp_callback_def)
next
  case (Do_Allocate_N n)
  then obtain p where "mem_allocate_n n m = Some (p, m')" "td' = td_after_fail (Deallocate_N p n) td"
    using assms(3) by (auto simp: tx_allocate_n_def succeeded_def split: option.splits)
  then show ?thesis
    using allocate_n_undone [OF assms(1)] undo_after_fail [OF assms(2), of "Deallocate_N p n" m' log m] td_after_fail_inv [OF assms(2)]
    by (simp add: run_gp_callback_def)
next
  case (Do_Construct p v)
  then have "mem_construct p v m = Some m'" "td' = td_after_fail (Destroy p) td"
    using assms(3) by (auto simp: tx_construct_def succeeded_def split: option.splits)
  then show ?thesis
    using construct_undone [OF assms(1)] undo_after_fail [OF assms(2), of "Destroy p" m' log m] td_after_fail_inv [OF assms(2)]
    by (simp add: run_gp_callback_def)
next
  case (Do_Allocate_Construct v)
  then obtain p m1 where a: "mem_allocate m = Some (p, m1)" and c: "mem_construct p v m1 = Some m'"
    and td': "td' = td_after_fail (Destroy_Deallocate p) td"
    using assms(3) by (auto simp: tx_allocate_construct_def succeeded_def split: option.splits)
  note a = allocate_undone [OF assms(1) a]
  note c = construct_undone [OF a(1) c]
  have "destroy_deallocate p m' = Some m" using a(2) c(2) by (simp add: destroy_deallocate_def)
  then show ?thesis
    using c(1) td' undo_after_fail [OF assms(2), of "Destroy_Deallocate p" m' log m] td_after_fail_inv [OF assms(2)] by (simp add: run_gp_callback_def)
next
  case (Do_Destroy p)
  then show ?thesis using assms by (auto simp: tx_destroy_def undo_def do_fail_callbacks_def)
next
  case (Do_Deallocate p)
  then show ?thesis using assms by (auto simp: tx_deallocate_def undo_def do_fail_callbacks_def)
next
  case (Do_Deallocate_N p n)
  then show ?thesis using assms by (auto simp: tx_deallocate_n_def undo_def do_fail_callbacks_def)
next
  case (Do_Destroy_Deallocate p)
  then show ?thesis using assms by (auto simp: tx_destroy_deallocate_def undo_def do_fail_callbacks_def)
qed

lemma run_ops_undone:
  "mem_inv m \<Longrightarrow> pv_inv (fail_callbacks td) \<Longrightarrow> run_ops ops (m, td) = Some (m', td') \<Longrightarrow>
   mem_inv m' \<and> undo (m', td') log = undo (m, td) log"
proof (induction ops arbitrary: m td)
  case (Cons op ops)
  then obtain m1 td1 where "run_op op (m, td) = Some (m1, td1)" "run_ops ops (m1, td1) = Some (m', td')"
    by (auto simp: bind_eq_Some_conv)
  then show ?case using Cons.IH [of m1 td1] run_op_undone [OF Cons.prems(1,2), of op m1 td1 log] by simp
qed simp
section \<open>Properties\<close>

text \<open>C31: However a transaction mixes allocations, constructions and deferred releases, when it fails its
  failure callbacks, run last one first, restore the memory exactly: every block it took is free again
  and no other block is touched.\<close>

theorem failed_transaction_restores_memory:
  assumes "mem_inv m" and "pv_inv (fail_callbacks td)" and "pv_items (fail_callbacks td) = []"
    and "run_ops ops (m, td) = Some (m', td')"
  shows "run_gp_callbacks (fst (do_fail_callbacks td')) (m', log) = Some (m, log)"
proof -
  have "undo (m', td') log = undo (m, td) log" using run_ops_undone [OF assms(1,2,4)] by simp
  moreover have "undo (m, td) log = Some (m, log)"
    using do_fail_callbacks_reverse(1) [OF assms(2)] assms(3) by (simp add: undo_def)
  ultimately show ?thesis by (simp add: undo_def)
qed

definition alloc_memory :: "nat memory" where
  "alloc_memory = \<lparr> mem_blocks = [16 \<mapsto> Object 1], mem_free = [64, 128] \<rparr>"

lemma alloc_ops_run:
  "\<exists>m' td'. run_ops [Do_Allocate, Do_Construct 64 7, Do_Allocate_Construct 8, Do_Destroy_Deallocate 16]
     (alloc_memory, new_thread_data :: char thread_data) = Some (m', td') \<and> mem_free m' = []"
  by (simp add: alloc_memory_def tx_allocate_def tx_construct_def tx_allocate_construct_def mem_allocate_def
      mem_construct_def succeeded_def tx_destroy_deallocate_def)

theorem failed_transaction_restores_memory_witness:
  "\<exists>m' td'. mem_free m' = [] \<and> run_gp_callbacks (fst (do_fail_callbacks td')) (m', ''log'') = Some (alloc_memory, ''log'')"
proof -
  obtain m' and td' :: "char thread_data" where "run_ops [Do_Allocate, Do_Construct 64 7, Do_Allocate_Construct 8, Do_Destroy_Deallocate 16]
     (alloc_memory, new_thread_data) = Some (m', td')" and free: "mem_free m' = []"
    using alloc_ops_run by blast
  moreover have "mem_inv alloc_memory" "pv_inv (fail_callbacks (new_thread_data :: char thread_data))"
    "pv_items (fail_callbacks (new_thread_data :: char thread_data)) = []"
    by (simp_all add: alloc_memory_def mem_inv_def new_thread_data_def pv_new_refines)
  ultimately show ?thesis using failed_transaction_restores_memory by blast
qed

text \<open>When the constructor throws, \<open>allocate_construct\<close> leaves the block it took allocated with no
  callback to free it: it leaks whatever the transaction does.\<close>

theorem allocate_construct_throw_leaks:
  assumes "mem_inv m" and "mem_free m = p # ps"
  shows "tx_allocate_construct None (m, td) =
    (Inl Ctor_exception, m\<lparr> mem_blocks := (mem_blocks m)(p := Some Raw), mem_free := ps \<rparr>, td)"
  using assms(2) by (simp add: tx_allocate_construct_def mem_allocate_def)

theorem allocate_construct_throw_leaks_witness:
  "\<exists>m'. tx_allocate_construct None (alloc_memory, new_thread_data :: char thread_data) = (Inl Ctor_exception, m', new_thread_data)
    \<and> mem_blocks m' 64 = Some Raw"
proof -
  have "mem_inv alloc_memory" "mem_free alloc_memory = 64 # [128]" by (simp_all add: alloc_memory_def mem_inv_def)
  from allocate_construct_throw_leaks [OF this, of "new_thread_data :: char thread_data"] show ?thesis by simp
qed

text \<open>Inside \<open>lstm::relative\<close>, a critical section without a transaction, \<open>allocate\<close> still registers a
  failure callback. It is there when the section is over, so the next transaction of the thread that
  fails frees the block, which is still in use.\<close>

theorem allocate_in_relative_freed_later:
  assumes "pv_inv (fail_callbacks td)" and "pv_items (fail_callbacks td) = []" and "tx_state td = None_kind"
    and "mem_inv m" and "mem_free m = p # ps" and "\<not> locked c"
    and "td_allocate (m, td_access_lock c td) = (r, m', td1)" and "td2 = td_access_unlock td1"
  shows "r = Inr p \<and> tx_state td2 = None_kind \<and> fst (do_fail_callbacks td2) = [Deallocate p]
    \<and> run_gp_callbacks (fst (do_fail_callbacks td2)) (m', log) = Some (m, log)"
proof -
  let ?td = "td_access_lock c td"
  have "c \<noteq> off_state" using assms(6) by auto
  then have cs: "in_critical_section ?td"
    by (simp add: in_critical_section_def node_in_critical_section_def td_access_lock_def access_lock_def)
  obtain m0 where a: "mem_allocate m = Some (p, m0)" using assms(5) by (simp add: mem_allocate_def)
  then have r: "r = Inr p" "m' = m0" "td1 = td_after_fail (Deallocate p) ?td"
    using assms(7) cs by (simp_all add: td_allocate_def)
  have f: "fail_callbacks td2 = emplace_back (Deallocate p) (fail_callbacks td)" "tx_state td2 = None_kind"
    using assms(3,8) r by (simp_all add: td_access_unlock_def td_after_fail_def td_access_lock_def)
  then have "fst (do_fail_callbacks td2) = [Deallocate p]"
    using do_fail_callbacks_reverse(1) [of td2] assms(1,2) emplace_back_inv [OF assms(1), of "Deallocate p"] by (simp add: vec_simps)
  then show ?thesis
    using r f(2) allocate_undone(2) [OF assms(4) a] by (simp add: run_gp_callback_def)
qed

theorem allocate_in_relative_freed_later_witness:
  "\<exists>m' td1. td_allocate (alloc_memory, td_access_lock 3 (new_thread_data :: char thread_data)) = (Inr 64, m', td1)
    \<and> run_gp_callbacks (fst (do_fail_callbacks (td_access_unlock td1))) (m', '''') = Some (alloc_memory, '''')"
proof -
  obtain r m' td1 where a: "td_allocate (alloc_memory, td_access_lock 3 (new_thread_data :: char thread_data)) = (r, m', td1)"
    by (cases "td_allocate (alloc_memory, td_access_lock 3 (new_thread_data :: char thread_data))") auto
  have "pv_inv (fail_callbacks (new_thread_data :: char thread_data))" "pv_items (fail_callbacks (new_thread_data :: char thread_data)) = []"
    "tx_state (new_thread_data :: char thread_data) = None_kind" "mem_inv alloc_memory" "mem_free alloc_memory = 64 # [128]" "\<not> locked 3"
    by (simp_all add: alloc_memory_def mem_inv_def new_thread_data_def pv_new_refines locked_iff_ge lock_bit_val)
  from allocate_in_relative_freed_later [OF this a refl, of "''''"] a show ?thesis by blast
qed

end
