(* ===== verification/RBTree.thy ===== *)
theory RBTree
  imports Prelude "HOL-Library.Monad_Syntax"
begin

text \<open>
  The red-black tree of \<^verbatim>\<open>containers/rbtree.hpp\<close> as a structure of nodes with parent pointers.

  Every field of a node is a transactional variable. The functions here run on the store the calling
  transaction sees, which \<^verbatim>\<open>Transaction_Base\<close> and \<^verbatim>\<open>Serializability\<close> show to be a plain store: a
  \<open>get\<close> reads it and a \<open>set\<close> updates it. A node is found under its address and address 0 is the null
  pointer; reading or writing through a pointer that is no node is the result \<open>None\<close>, as is a loop
  that does not end. Untracked reads return the same values as tracked ones. Nodes handed to
  \<open>destroy_deallocate\<close> are collected in \<open>rb_deferred\<close> and stay readable.
\<close>

section \<open>State\<close>

datatype color = Red | Black

record ('k, 'v) rb_node =
  rb_key :: 'k
  rb_value :: 'v
  rb_parent :: uword
  rb_left :: uword
  rb_right :: uword
  rb_color :: color

definition new_rb_node :: "'k \<Rightarrow> 'v \<Rightarrow> ('k, 'v) rb_node" where
  "new_rb_node t u = \<lparr> rb_key = t, rb_value = u, rb_parent = 0, rb_left = 0, rb_right = 0, rb_color = Red \<rparr>"

record ('k, 'v) rbt =
  rb_root :: uword
  rb_nodes :: "uword \<Rightarrow> ('k, 'v) rb_node option"
  rb_free :: "uword list"
  rb_deferred :: "uword list"

definition rb_get :: "(('k, 'v) rb_node \<Rightarrow> 'a) \<Rightarrow> uword \<Rightarrow> ('k, 'v) rbt \<Rightarrow> 'a option" where
  "rb_get f n s = map_option f (rb_nodes s n)"

definition rb_set :: "(('k, 'v) rb_node \<Rightarrow> ('k, 'v) rb_node) \<Rightarrow> uword \<Rightarrow> ('k, 'v) rbt \<Rightarrow> ('k, 'v) rbt option" where
  "rb_set g n s =
     (case rb_nodes s n of None \<Rightarrow> None | Some d \<Rightarrow> Some (s\<lparr> rb_nodes := (rb_nodes s)(n \<mapsto> g d) \<rparr>))"

abbreviation set_parent :: "uword \<Rightarrow> uword \<Rightarrow> ('k, 'v) rbt \<Rightarrow> ('k, 'v) rbt option" where
  "set_parent n x \<equiv> rb_set (rb_parent_update (\<lambda>_. x)) n"

abbreviation set_left :: "uword \<Rightarrow> uword \<Rightarrow> ('k, 'v) rbt \<Rightarrow> ('k, 'v) rbt option" where
  "set_left n x \<equiv> rb_set (rb_left_update (\<lambda>_. x)) n"

abbreviation set_right :: "uword \<Rightarrow> uword \<Rightarrow> ('k, 'v) rbt \<Rightarrow> ('k, 'v) rbt option" where
  "set_right n x \<equiv> rb_set (rb_right_update (\<lambda>_. x)) n"

abbreviation set_color :: "uword \<Rightarrow> color \<Rightarrow> ('k, 'v) rbt \<Rightarrow> ('k, 'v) rbt option" where
  "set_color n c \<equiv> rb_set (rb_color_update (\<lambda>_. c)) n"

text \<open>\<open>if (n) n->parent_.set(tx, x)\<close>.\<close>

abbreviation set_parent_if :: "uword \<Rightarrow> uword \<Rightarrow> ('k, 'v) rbt \<Rightarrow> ('k, 'v) rbt option" where
  "set_parent_if n x s \<equiv> (if n \<noteq> 0 then set_parent n x s else Some s)"

section \<open>Relatives\<close>

definition grandparent :: "uword \<Rightarrow> ('k, 'v) rbt \<Rightarrow> uword option" where
  "grandparent n s =
     (if n = 0 then Some 0
      else do {
        parent \<leftarrow> rb_get rb_parent n s;
        if parent = 0 then Some 0 else rb_get rb_parent parent s
      })"

definition uncle :: "uword \<Rightarrow> ('k, 'v) rbt \<Rightarrow> uword option" where
  "uncle n s = do {
     g \<leftarrow> grandparent n s;
     if g = 0 then Some 0
     else do {
       left \<leftarrow> rb_get rb_left g s;
       parent \<leftarrow> rb_get rb_parent n s;
       if parent = left then rb_get rb_right g s else Some left
     }
   }"

definition sibling :: "uword \<Rightarrow> uword \<Rightarrow> ('k, 'v) rbt \<Rightarrow> uword option" where
  "sibling parent n s =
     (if parent = 0 then Some 0
      else do {
        p_left \<leftarrow> rb_get rb_left parent s;
        if n = p_left then rb_get rb_right parent s else Some p_left
      })"

definition color_of :: "uword \<Rightarrow> ('k, 'v) rbt \<Rightarrow> color option" where
  "color_of n s = (if n \<noteq> 0 then rb_get rb_color n s else Some Black)"

section \<open>Rotations\<close>

text \<open>Putting \<open>p\<close> in the place of \<open>n\<close> under \<open>n_parent\<close>.\<close>

definition relink :: "uword \<Rightarrow> bool \<Rightarrow> uword \<Rightarrow> ('k, 'v) rbt \<Rightarrow> ('k, 'v) rbt option" where
  "relink n_parent left p s =
     (if n_parent = 0 then Some (s\<lparr> rb_root := p \<rparr>)
      else if left then set_left n_parent p s else set_right n_parent p s)"

definition rotate_left :: "uword \<Rightarrow> ('k, 'v) rbt \<Rightarrow> ('k, 'v) rbt option" where
  "rotate_left n s = do {
     p \<leftarrow> rb_get rb_right n s;
     p_left \<leftarrow> rb_get rb_left p s;
     n_parent \<leftarrow> rb_get rb_parent n s;
     left \<leftarrow> (if n_parent = 0 then Some False else map_option (\<lambda>x. x = n) (rb_get rb_left n_parent s));
     s \<leftarrow> set_right n p_left s;
     s \<leftarrow> set_parent_if p_left n s;
     s \<leftarrow> set_left p n s;
     s \<leftarrow> set_parent n p s;
     s \<leftarrow> set_parent p n_parent s;
     relink n_parent left p s
   }"

definition rotate_right :: "uword \<Rightarrow> ('k, 'v) rbt \<Rightarrow> ('k, 'v) rbt option" where
  "rotate_right n s = do {
     p \<leftarrow> rb_get rb_left n s;
     p_right \<leftarrow> rb_get rb_right p s;
     n_parent \<leftarrow> rb_get rb_parent n s;
     left \<leftarrow> (if n_parent = 0 then Some False else map_option (\<lambda>x. x = n) (rb_get rb_left n_parent s));
     s \<leftarrow> set_left n p_right s;
     s \<leftarrow> set_parent_if p_right n s;
     s \<leftarrow> set_right p n s;
     s \<leftarrow> set_parent n p s;
     s \<leftarrow> set_parent p n_parent s;
     relink n_parent left p s
   }"

section \<open>Insertion\<close>

definition insert_case5 :: "uword \<Rightarrow> ('k, 'v) rbt \<Rightarrow> ('k, 'v) rbt option" where
  "insert_case5 n s = do {
     g \<leftarrow> grandparent n s;
     parent \<leftarrow> rb_get rb_parent n s;
     s \<leftarrow> set_color parent Black s;
     s \<leftarrow> set_color g Red s;
     parent \<leftarrow> rb_get rb_parent n s;
     p_left \<leftarrow> rb_get rb_left parent s;
     if n = p_left then rotate_right g s else rotate_left g s
   }"

text \<open>The condition of the first branch is evaluated with \<open>&&\<close>, so \<open>g\<close> is only read when it matters.\<close>

definition insert_case4 :: "uword \<Rightarrow> ('k, 'v) rbt \<Rightarrow> ('k, 'v) rbt option" where
  "insert_case4 n s = do {
     g \<leftarrow> grandparent n s;
     parent \<leftarrow> rb_get rb_parent n s;
     p_right \<leftarrow> rb_get rb_right parent s;
     inner_right \<leftarrow> (if n = p_right then map_option (\<lambda>x. parent = x) (rb_get rb_left g s) else Some False);
     if inner_right then do {
       saved_p \<leftarrow> rb_get rb_left g s;
       saved_left_n \<leftarrow> rb_get rb_left n s;
       s \<leftarrow> set_left g n s;
       s \<leftarrow> set_parent n g s;
       s \<leftarrow> set_left n saved_p s;
       s \<leftarrow> set_parent saved_p n s;
       s \<leftarrow> set_right saved_p saved_left_n s;
       s \<leftarrow> set_parent_if saved_left_n saved_p s;
       insert_case5 saved_p s
     }
     else do {
       p_left \<leftarrow> rb_get rb_left parent s;
       inner_left \<leftarrow> (if n = p_left then map_option (\<lambda>x. parent = x) (rb_get rb_right g s) else Some False);
       if inner_left then do {
         saved_p \<leftarrow> rb_get rb_right g s;
         saved_right_n \<leftarrow> rb_get rb_right n s;
         s \<leftarrow> set_right g n s;
         s \<leftarrow> set_parent n g s;
         s \<leftarrow> set_right n saved_p s;
         s \<leftarrow> set_parent saved_p n s;
         s \<leftarrow> set_left saved_p saved_right_n s;
         s \<leftarrow> set_parent_if saved_right_n saved_p s;
         insert_case5 saved_p s
       }
       else insert_case5 n s
     }
   }"

text \<open>\<open>insert_case1\<close>, \<open>insert_case2\<close> and \<open>insert_case3\<close> call each other; the recursion goes through the first.\<close>

partial_function (option) insert_case1 :: "uword \<Rightarrow> ('k, 'v) rbt \<Rightarrow> ('k, 'v) rbt option" where
  "insert_case1 n s = do {
     parent \<leftarrow> rb_get rb_parent n s;
     if parent = 0 then set_color n Black s
     else do {
       parent_color \<leftarrow> rb_get rb_color parent s;
       if parent_color = Red then do {
         u \<leftarrow> uncle n s;
         uncle_red \<leftarrow> (if u \<noteq> 0 then map_option (\<lambda>c. c = Red) (rb_get rb_color u s) else Some False);
         if uncle_red then do {
           s \<leftarrow> set_color parent Black s;
           s \<leftarrow> set_color u Black s;
           g \<leftarrow> grandparent n s;
           s \<leftarrow> set_color g Red s;
           insert_case1 g s
         }
         else insert_case4 n s
       }
       else Some s
     }
   }"

definition insert_case3 :: "uword \<Rightarrow> ('k, 'v) rbt \<Rightarrow> ('k, 'v) rbt option" where
  "insert_case3 n s = do {
     u \<leftarrow> uncle n s;
     uncle_red \<leftarrow> (if u \<noteq> 0 then map_option (\<lambda>c. c = Red) (rb_get rb_color u s) else Some False);
     if uncle_red then do {
       parent \<leftarrow> rb_get rb_parent n s;
       s \<leftarrow> set_color parent Black s;
       s \<leftarrow> set_color u Black s;
       g \<leftarrow> grandparent n s;
       s \<leftarrow> set_color g Red s;
       insert_case1 g s
     }
     else insert_case4 n s
   }"

definition insert_case2 :: "uword \<Rightarrow> ('k, 'v) rbt \<Rightarrow> ('k, 'v) rbt option" where
  "insert_case2 n s = do {
     parent \<leftarrow> rb_get rb_parent n s;
     parent_color \<leftarrow> rb_get rb_color parent s;
     if parent_color = Red then insert_case3 n s else Some s
   }"

text \<open>The slot \<open>cur\<close> points to: the root or a child field.\<close>

datatype slot = Root_Slot | Left_Slot uword | Right_Slot uword

primrec slot_get :: "slot \<Rightarrow> ('k, 'v) rbt \<Rightarrow> uword option" where
  "slot_get Root_Slot s = Some (rb_root s)"
| "slot_get (Left_Slot n) s = rb_get rb_left n s"
| "slot_get (Right_Slot n) s = rb_get rb_right n s"

primrec slot_set :: "slot \<Rightarrow> uword \<Rightarrow> ('k, 'v) rbt \<Rightarrow> ('k, 'v) rbt option" where
  "slot_set Root_Slot x s = Some (s\<lparr> rb_root := x \<rparr>)"
| "slot_set (Left_Slot n) x s = set_left n x s"
| "slot_set (Right_Slot n) x s = set_right n x s"

partial_function (option) push_descend ::
    "('k \<Rightarrow> 'k \<Rightarrow> bool) \<Rightarrow> 'k \<Rightarrow> ('k, 'v) rbt \<Rightarrow> slot \<Rightarrow> uword \<Rightarrow> (slot \<times> uword) option" where
  "push_descend compare key s cur parent = do {
     next_parent \<leftarrow> slot_get cur s;
     if next_parent = 0 then Some (cur, parent)
     else do {
       k \<leftarrow> rb_get rb_key next_parent s;
       push_descend compare key s (if compare key k then Left_Slot next_parent else Right_Slot next_parent) next_parent
     }
   }"

text \<open>The reads that only put the neighbourhood of the new node into the read set.\<close>

definition touch_neighbours :: "uword \<Rightarrow> ('k, 'v) rbt \<Rightarrow> unit option" where
  "touch_neighbours parent s =
     (if parent \<noteq> 0 \<and> parent \<noteq> rb_root s then do {
        pp \<leftarrow> rb_get rb_parent parent s;
        if pp \<noteq> 0 \<and> pp \<noteq> rb_root s then map_option (\<lambda>_. ()) (rb_get rb_left pp s) else Some ()
      }
      else Some ())"

definition push_impl :: "('k \<Rightarrow> 'k \<Rightarrow> bool) \<Rightarrow> uword \<Rightarrow> ('k, 'v) rbt \<Rightarrow> ('k, 'v) rbt option" where
  "push_impl compare new_node s = do {
     key \<leftarrow> rb_get rb_key new_node s;
     (cur, parent) \<leftarrow> push_descend compare key s Root_Slot 0;
     _ \<leftarrow> touch_neighbours parent s;
     s \<leftarrow> set_parent new_node parent s;
     s \<leftarrow> slot_set cur new_node s;
     insert_case1 new_node s
   }"

section \<open>Deletion\<close>

definition replace_node :: "uword \<Rightarrow> uword \<Rightarrow> ('k, 'v) rbt \<Rightarrow> ('k, 'v) rbt option" where
  "replace_node n child s = do {
     parent \<leftarrow> rb_get rb_parent n s;
     s \<leftarrow> (if parent \<noteq> 0 then do {
             p_left \<leftarrow> rb_get rb_left parent s;
             if p_left = n then set_left parent child s else set_right parent child s
           }
           else Some (s\<lparr> rb_root := child \<rparr>));
     set_parent_if child parent s
   }"

definition delete_case6 :: "uword \<Rightarrow> uword \<Rightarrow> ('k, 'v) rbt \<Rightarrow> ('k, 'v) rbt option" where
  "delete_case6 parent n s = do {
     sib \<leftarrow> sibling parent n s;
     parent_color \<leftarrow> rb_get rb_color parent s;
     s \<leftarrow> set_color sib parent_color s;
     s \<leftarrow> set_color parent Black s;
     p_left \<leftarrow> rb_get rb_left parent s;
     if n = p_left then do {
       r \<leftarrow> rb_get rb_right sib s;
       s \<leftarrow> set_color r Black s;
       rotate_left parent s
     }
     else do {
       l \<leftarrow> rb_get rb_left sib s;
       s \<leftarrow> set_color l Black s;
       rotate_right parent s
     }
   }"

definition delete_case5 :: "uword \<Rightarrow> uword \<Rightarrow> ('k, 'v) rbt \<Rightarrow> ('k, 'v) rbt option" where
  "delete_case5 parent n s = do {
     sib \<leftarrow> sibling parent n s;
     sib_color \<leftarrow> rb_get rb_color sib s;
     s \<leftarrow> (if sib_color = Black then do {
             s_left \<leftarrow> rb_get rb_left sib s;
             s_right \<leftarrow> rb_get rb_right sib s;
             p_left \<leftarrow> rb_get rb_left parent s;
             p_right \<leftarrow> rb_get rb_right parent s;
             c_left \<leftarrow> color_of s_left s;
             c_right \<leftarrow> color_of s_right s;
             if n = p_left \<and> c_right = Black \<and> c_left = Red then do {
               s \<leftarrow> set_color sib Red s;
               s \<leftarrow> set_color s_left Black s;
               rotate_right sib s
             }
             else if n = p_right \<and> c_left = Black \<and> c_right = Red then do {
               s \<leftarrow> set_color sib Red s;
               s \<leftarrow> set_color s_right Black s;
               rotate_left sib s
             }
             else Some s
           }
           else Some s);
     delete_case6 parent n s
   }"

text \<open>\<open>color\<close> of a child of a node.\<close>

definition child_color :: "(('k, 'v) rb_node \<Rightarrow> uword) \<Rightarrow> uword \<Rightarrow> ('k, 'v) rbt \<Rightarrow> color option" where
  "child_color f n s = do { x \<leftarrow> rb_get f n s; color_of x s }"

definition delete_case4 :: "uword \<Rightarrow> uword \<Rightarrow> ('k, 'v) rbt \<Rightarrow> ('k, 'v) rbt option" where
  "delete_case4 parent n s = do {
     sib \<leftarrow> sibling parent n s;
     parent_color \<leftarrow> rb_get rb_color parent s;
     redden \<leftarrow> (if parent_color = Red then do {
         sib_color \<leftarrow> rb_get rb_color sib s;
         if sib_color = Black then do {
           l \<leftarrow> child_color rb_left sib s;
           r \<leftarrow> child_color rb_right sib s;
           Some (l = Black \<and> r = Black)
         }
         else Some False
       }
       else Some False);
     if redden then do {
       s \<leftarrow> set_color sib Red s;
       set_color parent Black s
     }
     else delete_case5 parent n s
   }"

text \<open>The condition of \<open>delete_case3\<close>.\<close>

definition all_black :: "uword \<Rightarrow> uword \<Rightarrow> ('k, 'v) rbt \<Rightarrow> bool option" where
  "all_black parent sib s = do {
     parent_color \<leftarrow> rb_get rb_color parent s;
     sib_color \<leftarrow> color_of sib s;
     if parent_color = Black \<and> sib_color = Black then
       if sib = 0 then Some True
       else do {
         l \<leftarrow> child_color rb_left sib s;
         r \<leftarrow> child_color rb_right sib s;
         Some (l = Black \<and> r = Black)
       }
     else Some False
   }"

text \<open>The first half of \<open>delete_case2\<close>, before it calls \<open>delete_case3\<close>.\<close>

definition delete_case2_rotate :: "uword \<Rightarrow> uword \<Rightarrow> ('k, 'v) rbt \<Rightarrow> ('k, 'v) rbt option" where
  "delete_case2_rotate parent n s = do {
     sib \<leftarrow> sibling parent n s;
     sib_color \<leftarrow> color_of sib s;
     if sib_color = Red then do {
       s \<leftarrow> set_color parent Red s;
       s \<leftarrow> set_color sib Black s;
       p_left \<leftarrow> rb_get rb_left parent s;
       if n = p_left then rotate_left parent s else rotate_right parent s
     }
     else Some s
   }"

text \<open>\<open>delete_case1\<close>, \<open>delete_case2\<close> and \<open>delete_case3\<close> call each other; the recursion goes through the first.\<close>

partial_function (option) delete_case1 :: "uword \<Rightarrow> uword \<Rightarrow> ('k, 'v) rbt \<Rightarrow> ('k, 'v) rbt option" where
  "delete_case1 parent n s =
     (if parent \<noteq> 0 then do {
        s \<leftarrow> delete_case2_rotate parent n s;
        sib \<leftarrow> sibling parent n s;
        blacks \<leftarrow> all_black parent sib s;
        if blacks then do {
          s \<leftarrow> set_color sib Red s;
          pp \<leftarrow> rb_get rb_parent parent s;
          delete_case1 pp parent s
        }
        else delete_case4 parent n s
      }
      else Some s)"

definition delete_case3 :: "uword \<Rightarrow> uword \<Rightarrow> ('k, 'v) rbt \<Rightarrow> ('k, 'v) rbt option" where
  "delete_case3 parent n s = do {
     sib \<leftarrow> sibling parent n s;
     blacks \<leftarrow> all_black parent sib s;
     if blacks then do {
       s \<leftarrow> set_color sib Red s;
       pp \<leftarrow> rb_get rb_parent parent s;
       delete_case1 pp parent s
     }
     else delete_case4 parent n s
   }"

definition delete_case2 :: "uword \<Rightarrow> uword \<Rightarrow> ('k, 'v) rbt \<Rightarrow> ('k, 'v) rbt option" where
  "delete_case2 parent n s = do {
     s \<leftarrow> delete_case2_rotate parent n s;
     delete_case3 parent n s
   }"

definition delete_one_child :: "uword \<Rightarrow> ('k, 'v) rbt \<Rightarrow> ('k, 'v) rbt option" where
  "delete_one_child n s = do {
     right \<leftarrow> rb_get rb_right n s;
     child \<leftarrow> (if right = 0 then rb_get rb_left n s else Some right);
     s \<leftarrow> replace_node n child s;
     n_color \<leftarrow> rb_get rb_color n s;
     s \<leftarrow> (if n_color = Black then do {
             c \<leftarrow> color_of child s;
             if c = Red then set_color child Black s
             else do {
               parent \<leftarrow> rb_get rb_parent n s;
               delete_case1 parent child s
             }
           }
           else Some s);
     Some (s\<lparr> rb_deferred := rb_deferred s @ [n] \<rparr>)
   }"

partial_function (option) min_node :: "uword \<Rightarrow> ('k, 'v) rbt \<Rightarrow> uword option" where
  "min_node current s = do {
     next \<leftarrow> rb_get rb_left current s;
     if next \<noteq> 0 then min_node next s else Some current
   }"

definition erase_impl :: "uword \<Rightarrow> ('k, 'v) rbt \<Rightarrow> ('k, 'v) rbt option" where
  "erase_impl to_erase s = do {
     left \<leftarrow> rb_get rb_left to_erase s;
     right \<leftarrow> rb_get rb_right to_erase s;
     if left \<noteq> 0 \<and> right \<noteq> 0 then do {
       temp \<leftarrow> min_node right s;
       k \<leftarrow> rb_get rb_key temp s;
       s \<leftarrow> rb_set (rb_key_update (\<lambda>_. k)) to_erase s;
       v \<leftarrow> rb_get rb_value temp s;
       s \<leftarrow> rb_set (rb_value_update (\<lambda>_. v)) to_erase s;
       delete_one_child temp s
     }
     else delete_one_child to_erase s
   }"

section \<open>Checking\<close>

record height_info =
  min_height :: nat
  max_height :: nat
  black_height :: nat

text \<open>An assertion that fails is the result \<open>None\<close>.\<close>

definition rb_assert :: "bool \<Rightarrow> unit option" where
  "rb_assert b = (if b then Some () else None)"

partial_function (option) minmax_height :: "('k \<Rightarrow> 'k \<Rightarrow> bool) \<Rightarrow> uword \<Rightarrow> ('k, 'v) rbt \<Rightarrow> height_info option" where
  "minmax_height compare node s =
     (if node = 0 then Some \<lparr> min_height = 0, max_height = 0, black_height = 0 \<rparr>
      else do {
        left \<leftarrow> rb_get rb_left node s;
        right \<leftarrow> rb_get rb_right node s;
        height_l \<leftarrow> minmax_height compare left s;
        height_r \<leftarrow> minmax_height compare right s;
        _ \<leftarrow> rb_assert (black_height height_l = black_height height_r);
        k \<leftarrow> rb_get rb_key node s;
        c \<leftarrow> rb_get rb_color node s;
        _ \<leftarrow> (if left = 0 then Some () else do {
               p \<leftarrow> rb_get rb_parent left s; kl \<leftarrow> rb_get rb_key left s; cl \<leftarrow> rb_get rb_color left s;
               rb_assert (p = node \<and> \<not> compare k kl \<and> (c \<noteq> Red \<or> cl = Black))
             });
        _ \<leftarrow> (if right = 0 then Some () else do {
               p \<leftarrow> rb_get rb_parent right s; kr \<leftarrow> rb_get rb_key right s; cr \<leftarrow> rb_get rb_color right s;
               rb_assert (p = node \<and> \<not> compare kr k \<and> (c \<noteq> Red \<or> cr = Black))
             });
        Some \<lparr> min_height = min (min_height height_l) (min_height height_r) + 1,
               max_height = max (max_height height_l) (max_height height_r) + 1,
               black_height = black_height height_l + (if c = Black then 1 else 0) \<rparr>
      })"

definition verify :: "('k \<Rightarrow> 'k \<Rightarrow> bool) \<Rightarrow> ('k, 'v) rbt \<Rightarrow> unit option" where
  "verify compare s = do {
     _ \<leftarrow> (if rb_root s \<noteq> 0 then do { c \<leftarrow> rb_get rb_color (rb_root s) s; rb_assert (c = Black) } else Some ());
     heights \<leftarrow> minmax_height compare (rb_root s) s;
     rb_assert (min_height heights * 2 \<ge> max_height heights)
   }"

section \<open>Destroying a subtree\<close>

text \<open>The inner loop finds the leftmost node below \<open>leaf\<close> and its parent; freeing a node removes it.\<close>

partial_function (option) leftmost_leaf :: "uword \<Rightarrow> uword \<Rightarrow> ('k, 'v) rbt \<Rightarrow> (uword \<times> uword) option" where
  "leftmost_leaf parent leaf s = do {
     l \<leftarrow> rb_get rb_left leaf s;
     if l \<noteq> 0 then leftmost_leaf leaf l s else Some (parent, leaf)
   }"

definition rb_release :: "uword \<Rightarrow> ('k, 'v) rbt \<Rightarrow> ('k, 'v) rbt option" where
  "rb_release n s =
     (case rb_nodes s n of
        None \<Rightarrow> None
      | Some _ \<Rightarrow> Some (s\<lparr> rb_nodes := (rb_nodes s)(n := None), rb_free := n # rb_free s \<rparr>))"

partial_function (option) destroy_deallocate_subtree :: "uword \<Rightarrow> ('k, 'v) rbt \<Rightarrow> ('k, 'v) rbt option" where
  "destroy_deallocate_subtree node s = do {
     left \<leftarrow> rb_get rb_left node s;
     if left \<noteq> 0 then do {
       (parent, leaf) \<leftarrow> leftmost_leaf node left s;
       r \<leftarrow> rb_get rb_right parent s;
       s \<leftarrow> set_left parent r s;
       s \<leftarrow> set_right parent 0 s;
       s \<leftarrow> rb_release leaf s;
       destroy_deallocate_subtree node s
     }
     else rb_release node s
   }"

section \<open>The public operations\<close>

definition rbtree_new :: "uword list \<Rightarrow> ('k, 'v) rbt" where
  "rbtree_new free = \<lparr> rb_root = 0, rb_nodes = Map.empty, rb_free = free, rb_deferred = [] \<rparr>"

definition rbtree_destruct :: "('k, 'v) rbt \<Rightarrow> ('k, 'v) rbt option" where
  "rbtree_destruct s = (if rb_root s \<noteq> 0 then destroy_deallocate_subtree (rb_root s) s else Some s)"

text \<open>\<open>clear\<close> returns the root it hands to the grace-period callback, if any.\<close>

definition rbtree_clear :: "('k, 'v) rbt \<Rightarrow> uword option \<times> ('k, 'v) rbt" where
  "rbtree_clear s = (if rb_root s \<noteq> 0 then (Some (rb_root s), s\<lparr> rb_root := 0 \<rparr>) else (None, s))"

partial_function (option) find_from_node :: "('k \<Rightarrow> 'k \<Rightarrow> bool) \<Rightarrow> 'k \<Rightarrow> ('k, 'v) rbt \<Rightarrow> uword \<Rightarrow> uword option" where
  "find_from_node compare u s cur =
     (if cur = 0 then Some cur
      else do {
        key \<leftarrow> rb_get rb_key cur s;
        if compare u key then do { l \<leftarrow> rb_get rb_left cur s; find_from_node compare u s l }
        else if compare key u then do { r \<leftarrow> rb_get rb_right cur s; find_from_node compare u s r }
        else Some cur
      })"

definition rbtree_find :: "('k \<Rightarrow> 'k \<Rightarrow> bool) \<Rightarrow> 'k \<Rightarrow> ('k, 'v) rbt \<Rightarrow> uword option" where
  "rbtree_find compare u s = find_from_node compare u s (rb_root s)"

text \<open>\<open>None\<close> also stands for the allocation that fails.\<close>

definition emplace :: "('k \<Rightarrow> 'k \<Rightarrow> bool) \<Rightarrow> 'k \<Rightarrow> 'v \<Rightarrow> ('k, 'v) rbt \<Rightarrow> ('k, 'v) rbt option" where
  "emplace compare t u s =
     (case rb_free s of
        [] \<Rightarrow> None
      | n # ns \<Rightarrow> push_impl compare n (s\<lparr> rb_nodes := (rb_nodes s)(n \<mapsto> new_rb_node t u), rb_free := ns \<rparr>))"

definition erase_one :: "('k \<Rightarrow> 'k \<Rightarrow> bool) \<Rightarrow> 'k \<Rightarrow> ('k, 'v) rbt \<Rightarrow> (bool \<times> ('k, 'v) rbt) option" where
  "erase_one compare key s = do {
     to_erase \<leftarrow> rbtree_find compare key s;
     if to_erase \<noteq> 0 then map_option (Pair True) (erase_impl to_erase s) else Some (False, s)
   }"

text \<open>The loops are executable.\<close>

declare insert_case1.simps [code] push_descend.simps [code] delete_case1.simps [code] min_node.simps [code]
  minmax_height.simps [code] leftmost_leaf.simps [code] destroy_deallocate_subtree.simps [code] find_from_node.simps [code]

end
