(* ===== verification/RBTree_Rep.thy ===== *)
theory RBTree_Rep
  imports RBTree "HOL-Library.Multiset"
begin

text \<open>
  Trees and contexts as values, and what it means that the nodes of a \<open>rbt\<close> represent them. A context
  is a tree with a hole, the path from the hole to the root first. \<open>focus s x t\<close> says that the state
  holds the tree \<open>plug x t\<close>, with every parent pointer right and no node used twice; the lemmas say
  what the accesses and the rotations do to a focused state.
\<close>

section \<open>Trees and contexts\<close>

datatype ('k, 'v) ptree =
    PLeaf
  | PNode uword color "('k, 'v) ptree" 'k 'v "('k, 'v) ptree"

datatype ('k, 'v) ctx =
    Top
  | InL uword color 'k 'v "('k, 'v) ptree" "('k, 'v) ctx"
  | InR uword color "('k, 'v) ptree" 'k 'v "('k, 'v) ctx"

primrec addr :: "('k, 'v) ptree \<Rightarrow> uword" where
  "addr PLeaf = 0"
| "addr (PNode n c l k v r) = n"

primrec addrs :: "('k, 'v) ptree \<Rightarrow> uword list" where
  "addrs PLeaf = []"
| "addrs (PNode n c l k v r) = n # addrs l @ addrs r"

primrec col :: "('k, 'v) ptree \<Rightarrow> color" where
  "col PLeaf = Black"
| "col (PNode n c l k v r) = c"

primrec entries :: "('k, 'v) ptree \<Rightarrow> ('k \<times> 'v) list" where
  "entries PLeaf = []"
| "entries (PNode n c l k v r) = entries l @ (k, v) # entries r"

primrec plug :: "('k, 'v) ctx \<Rightarrow> ('k, 'v) ptree \<Rightarrow> ('k, 'v) ptree" where
  "plug Top t = t"
| "plug (InL n c k v r x) t = plug x (PNode n c t k v r)"
| "plug (InR n c l k v x) t = plug x (PNode n c l k v t)"

primrec cparent :: "('k, 'v) ctx \<Rightarrow> uword" where
  "cparent Top = 0"
| "cparent (InL n c k v r x) = n"
| "cparent (InR n c l k v x) = n"

primrec caddrs :: "('k, 'v) ctx \<Rightarrow> uword list" where
  "caddrs Top = []"
| "caddrs (InL n c k v r x) = n # addrs r @ caddrs x"
| "caddrs (InR n c l k v x) = n # addrs l @ caddrs x"

primrec croot :: "('k, 'v) ctx \<Rightarrow> uword \<Rightarrow> uword" where
  "croot Top a = a"
| "croot (InL n c k v r x) a = croot x n"
| "croot (InR n c l k v x) a = croot x n"

text \<open>What lies to the left and to the right of the hole.\<close>

primrec lefts :: "('k, 'v) ctx \<Rightarrow> ('k \<times> 'v) list" where
  "lefts Top = []"
| "lefts (InL n c k v r x) = lefts x"
| "lefts (InR n c l k v x) = lefts x @ entries l @ [(k, v)]"

primrec rights :: "('k, 'v) ctx \<Rightarrow> ('k \<times> 'v) list" where
  "rights Top = []"
| "rights (InL n c k v r x) = (k, v) # entries r @ rights x"
| "rights (InR n c l k v x) = rights x"

lemma entries_plug: "entries (plug x t) = lefts x @ entries t @ rights x"
  by (induction x arbitrary: t) auto

lemma mset_addrs_plug: "mset (addrs (plug x t)) = mset (caddrs x) + mset (addrs t)"
  by (induction x arbitrary: t) auto

lemma distinct_addrs_plug: "distinct (addrs (plug x t)) \<longleftrightarrow> distinct (caddrs x @ addrs t)"
  using mset_addrs_plug [of x t] by (metis mset_append mset_eq_imp_distinct_iff)

lemma set_addrs_plug: "set (addrs (plug x t)) = set (caddrs x) \<union> set (addrs t)"
  using arg_cong [OF mset_addrs_plug [of x t], of set_mset] by simp

section \<open>Representation\<close>

primrec rep :: "(uword \<Rightarrow> ('k, 'v) rb_node option) \<Rightarrow> uword \<Rightarrow> ('k, 'v) ptree \<Rightarrow> bool" where
  "rep h p PLeaf \<longleftrightarrow> True"
| "rep h p (PNode n c l k v r) \<longleftrightarrow> n \<noteq> 0
     \<and> h n = Some \<lparr> rb_key = k, rb_value = v, rb_parent = p, rb_left = addr l, rb_right = addr r, rb_color = c \<rparr>
     \<and> rep h n l \<and> rep h n r"

primrec crep :: "(uword \<Rightarrow> ('k, 'v) rb_node option) \<Rightarrow> ('k, 'v) ctx \<Rightarrow> uword \<Rightarrow> bool" where
  "crep h Top a \<longleftrightarrow> True"
| "crep h (InL n c k v r x) a \<longleftrightarrow> n \<noteq> 0
     \<and> h n = Some \<lparr> rb_key = k, rb_value = v, rb_parent = cparent x, rb_left = a, rb_right = addr r, rb_color = c \<rparr>
     \<and> rep h n r \<and> crep h x n"
| "crep h (InR n c l k v x) a \<longleftrightarrow> n \<noteq> 0
     \<and> h n = Some \<lparr> rb_key = k, rb_value = v, rb_parent = cparent x, rb_left = addr l, rb_right = a, rb_color = c \<rparr>
     \<and> rep h n l \<and> crep h x n"

definition focus :: "('k, 'v) rbt \<Rightarrow> ('k, 'v) ctx \<Rightarrow> ('k, 'v) ptree \<Rightarrow> bool" where
  "focus s x t \<longleftrightarrow> rb_root s = croot x (addr t) \<and> crep (rb_nodes s) x (addr t) \<and> rep (rb_nodes s) (cparent x) t
     \<and> distinct (caddrs x @ addrs t)"

definition tree_rep :: "('k, 'v) rbt \<Rightarrow> ('k, 'v) ptree \<Rightarrow> bool" where
  "tree_rep s t \<longleftrightarrow> focus s Top t"

lemma focus_InL: "focus s (InL n c k v r x) t \<longleftrightarrow> focus s x (PNode n c t k v r)"
  by (auto simp: focus_def)

lemma focus_InR: "focus s (InR n c l k v x) t \<longleftrightarrow> focus s x (PNode n c l k v t)"
  by (auto simp: focus_def)

lemma focus_plug: "focus s Top (plug x t) \<longleftrightarrow> focus s x t"
proof (induction x arbitrary: t)
  case (InL n c k v r x)
  then show ?case by (simp add: focus_InL)
next
  case (InR n c l k v x)
  then show ?case by (simp add: focus_InR)
qed simp

lemma rep_upd [simp]: "n \<notin> set (addrs t) \<Longrightarrow> rep (h(n \<mapsto> d)) p t = rep h p t"
  by (induction t arbitrary: p) auto

lemma crep_upd [simp]: "n \<notin> set (caddrs x) \<Longrightarrow> crep (h(n \<mapsto> d)) x a = crep h x a"
  by (induction x arbitrary: a) auto

lemma rep_nonzero: "rep h p t \<Longrightarrow> 0 \<notin> set (addrs t)"
  by (induction t arbitrary: p) auto

lemma crep_nonzero: "crep h x a \<Longrightarrow> 0 \<notin> set (caddrs x)"
  by (induction x arbitrary: a) (auto dest: rep_nonzero)

lemma addr_in: "t \<noteq> PLeaf \<Longrightarrow> addr t \<in> set (addrs t)"
  by (cases t) auto

lemma addr_zero: "rep h p t \<Longrightarrow> addr t = 0 \<longleftrightarrow> t = PLeaf"
  by (cases t) auto

lemma addr_other: "rep h p t \<Longrightarrow> n \<noteq> 0 \<Longrightarrow> n \<notin> set (addrs t) \<Longrightarrow> addr t \<noteq> n"
  by (cases t) auto

text \<open>Rewriting with the heap as it is after a series of updates.\<close>

lemmas rb_access = rb_get_def rb_set_def

lemmas focus_simps = focus_def rb_access relink_def Int_Un_distrib Int_Un_distrib2 Int_commute

section \<open>Outcomes\<close>

text \<open>An operation ends, leaves the tree \<open>t\<close> under the context \<open>x\<close> and keeps the allocator's part of the state.\<close>

definition becomes :: "('k, 'v) rbt \<Rightarrow> ('k, 'v) rbt option \<Rightarrow> ('k, 'v) ctx \<Rightarrow> ('k, 'v) ptree \<Rightarrow> bool" where
  "becomes s r x t \<longleftrightarrow> (\<exists>s'. r = Some s' \<and> focus s' x t \<and> rb_free s' = rb_free s \<and> rb_deferred s' = rb_deferred s)"

lemma becomes_refl: "focus s x t \<Longrightarrow> becomes s (Some s) x t"
  by (simp add: becomes_def)

lemma becomes_bind:
  assumes "becomes s r y u" and "\<And>s'. focus s' y u \<Longrightarrow> becomes s' (f s') x t"
  shows "becomes s (r \<bind> f) x t"
  using assms unfolding becomes_def by (metis Option.bind_lunit)

lemma becomes_move:
  assumes "becomes s r y u" and "\<And>s'. focus s' y u \<Longrightarrow> focus s' x t"
  shows "becomes s r x t"
  using assms unfolding becomes_def by metis

lemma set_color_focus:
  "focus s x (PNode n c' l k v r) \<Longrightarrow> becomes s (set_color n c s) x (PNode n c l k v r)"
  by (simp add: becomes_def focus_simps)

section \<open>Rotations\<close>

lemma rotate_left_focus:
  assumes "focus s x (PNode n cn A kn vn (PNode p cp B kp vp C))"
  shows "becomes s (rotate_left n s) x (PNode p cp (PNode n cn A kn vn B) kp vp C)"
proof (cases x)
  case Top
  then show ?thesis
    using assms by (cases B) (simp_all add: rotate_left_def becomes_def focus_simps, (blast+)?)
next
  case (InL m cm km vm r y)
  then show ?thesis
    using assms by (cases B) (simp_all add: rotate_left_def becomes_def focus_simps, (blast+)?)
next
  case (InR m cm l km vm y)
  then have "addr l \<noteq> n"
    using assms addr_other [of "rb_nodes s" m l n] by (simp add: focus_def)
  then show ?thesis
    using InR assms by (cases B) (simp_all add: rotate_left_def becomes_def focus_simps, (blast+)?)
qed

lemma rotate_right_focus:
  assumes "focus s x (PNode n cn (PNode p cp A kp vp B) kn vn C)"
  shows "becomes s (rotate_right n s) x (PNode p cp A kp vp (PNode n cn B kn vn C))"
proof (cases x)
  case Top
  then show ?thesis
    using assms by (cases B) (simp_all add: rotate_right_def becomes_def focus_simps, (blast+)?)
next
  case (InL m cm km vm r y)
  then show ?thesis
    using assms by (cases B) (simp_all add: rotate_right_def becomes_def focus_simps, (blast+)?)
next
  case (InR m cm l km vm y)
  then have "addr l \<noteq> n"
    using assms addr_other [of "rb_nodes s" m l n] by (simp add: focus_def)
  then show ?thesis
    using InR assms by (cases B) (simp_all add: rotate_right_def becomes_def focus_simps, (blast+)?)
qed

end
