(* ===== verification/RBTree_Insert.thy ===== *)
theory RBTree_Insert
  imports RBTree_Rep
begin

text \<open>
  Insertion into the red-black tree: the descent finds the leaf the key belongs to, the repair of
  \<open>insert_case1\<close> to \<open>insert_case5\<close> restores the colour invariant on the way up, and the in-order
  contents are those of an insertion into a sorted list.
\<close>

section \<open>The colour invariant\<close>

primrec bh :: "('k, 'v) ptree \<Rightarrow> nat" where
  "bh PLeaf = 0"
| "bh (PNode n c l k v r) = bh l + (if c = Black then 1 else 0)"

primrec rb :: "('k, 'v) ptree \<Rightarrow> bool" where
  "rb PLeaf \<longleftrightarrow> True"
| "rb (PNode n c l k v r) \<longleftrightarrow> rb l \<and> rb r \<and> bh l = bh r \<and> (c = Red \<longrightarrow> col l = Black \<and> col r = Black)"

text \<open>The colour of the node above the hole; above the root it counts as red, so the root is black.\<close>

primrec ccol :: "('k, 'v) ctx \<Rightarrow> color" where
  "ccol Top = Red"
| "ccol (InL n c k v r x) = c"
| "ccol (InR n c l k v x) = c"

text \<open>A context that is well coloured around a hole of black height \<open>h\<close>.\<close>

primrec crb :: "('k, 'v) ctx \<Rightarrow> nat \<Rightarrow> bool" where
  "crb Top h \<longleftrightarrow> True"
| "crb (InL n c k v r x) h \<longleftrightarrow> rb r \<and> bh r = h \<and> (c = Red \<longrightarrow> col r = Black \<and> ccol x = Black)
     \<and> crb x (h + (if c = Black then 1 else 0))"
| "crb (InR n c l k v x) h \<longleftrightarrow> rb l \<and> bh l = h \<and> (c = Red \<longrightarrow> col l = Black \<and> ccol x = Black)
     \<and> crb x (h + (if c = Black then 1 else 0))"

definition rb_tree :: "('k, 'v) ptree \<Rightarrow> bool" where
  "rb_tree t \<longleftrightarrow> rb t \<and> col t = Black"

lemma not_red [simp]: "c \<noteq> Red \<longleftrightarrow> c = Black"
  by (cases c) auto

lemma not_black [simp]: "c \<noteq> Black \<longleftrightarrow> c = Red"
  by (cases c) auto

lemma red_or_black: "P Red \<Longrightarrow> P Black \<Longrightarrow> P c"
  by (cases c) auto

lemma rb_tree_plug: "rb_tree (plug x t) \<longleftrightarrow> rb t \<and> crb x (bh t) \<and> (col t = Red \<longrightarrow> ccol x = Black)"
proof (induction x arbitrary: t)
  case Top
  then show ?case by (cases "col t") (auto simp: rb_tree_def)
next
  case (InL n c k v r x)
  then show ?case by (cases c; cases "col t"; cases "bh t = bh r") (simp_all add: conj_ac)
next
  case (InR n c l k v x)
  then show ?case by (cases c; cases "col t"; cases "bh l = bh t") (simp_all add: conj_ac)
qed

section \<open>The repair\<close>

text \<open>The source writes the first three cases as functions that call each other.\<close>

lemma insert_case1_calls:
  "insert_case1 n s = do {
     parent \<leftarrow> rb_get rb_parent n s;
     if parent = 0 then set_color n Black s else insert_case2 n s
   }"
  by (subst insert_case1.simps) (auto simp: insert_case2_def insert_case3_def Let_def split: bind_splits)

lemma insert_case5_left:
  assumes "focus s x (PNode g cg (PNode p cp (PNode n cn a kn vn b) kp vp c) kg vg u)"
  shows "becomes s (insert_case5 n s) x (PNode p Black (PNode n cn a kn vn b) kp vp (PNode g Red c kg vg u))"
proof -
  define s' where "s' = s\<lparr> rb_nodes := (rb_nodes s)
     (p \<mapsto> \<lparr> rb_key = kp, rb_value = vp, rb_parent = g, rb_left = n, rb_right = addr c, rb_color = Black \<rparr>,
      g \<mapsto> \<lparr> rb_key = kg, rb_value = vg, rb_parent = cparent x, rb_left = p, rb_right = addr u, rb_color = Red \<rparr>) \<rparr>"
  have f: "focus s' x (PNode g Red (PNode p Black (PNode n cn a kn vn b) kp vp c) kg vg u)"
    using assms by (simp add: focus_simps, elim conjE, simp add: s'_def)
  have e: "insert_case5 n s = rotate_right g s'"
    using assms by (simp add: focus_simps, elim conjE, simp add: s'_def insert_case5_def grandparent_def rb_access)
  show ?thesis
    using rotate_right_focus [OF f] by (simp add: e becomes_def s'_def)
qed

lemma insert_case5_right:
  assumes "focus s x (PNode g cg u kg vg (PNode p cp c kp vp (PNode n cn a kn vn b)))"
  shows "becomes s (insert_case5 n s) x (PNode p Black (PNode g Red u kg vg c) kp vp (PNode n cn a kn vn b))"
proof -
  define s' where "s' = s\<lparr> rb_nodes := (rb_nodes s)
     (p \<mapsto> \<lparr> rb_key = kp, rb_value = vp, rb_parent = g, rb_left = addr c, rb_right = n, rb_color = Black \<rparr>,
      g \<mapsto> \<lparr> rb_key = kg, rb_value = vg, rb_parent = cparent x, rb_left = addr u, rb_right = p, rb_color = Red \<rparr>) \<rparr>"
  have f: "focus s' x (PNode g Red u kg vg (PNode p Black c kp vp (PNode n cn a kn vn b)))"
    using assms by (simp add: focus_simps, elim conjE, simp add: s'_def)
  have "addr c \<noteq> n"
    using assms addr_other [of "rb_nodes s" p c n] by (simp add: focus_def)
  then have e: "insert_case5 n s = rotate_left g s'"
    using assms by (simp add: focus_simps, elim conjE, simp add: s'_def insert_case5_def grandparent_def rb_access)
  show ?thesis
    using rotate_left_focus [OF f] by (simp add: e becomes_def s'_def)
qed

lemma insert_case4_inner_left:
  assumes "focus s x (PNode g cg (PNode p cp c kp vp (PNode n cn a kn vn b)) kg vg u)"
  shows "becomes s (insert_case4 n s) x (PNode n Black (PNode p cp c kp vp a) kn vn (PNode g Red b kg vg u))"
proof -
  obtain s' where e: "insert_case4 n s = insert_case5 p s'" "rb_free s' = rb_free s" "rb_deferred s' = rb_deferred s"
    and f: "focus s' x (PNode g cg (PNode n cn (PNode p cp c kp vp a) kn vn b) kg vg u)"
    using assms by (cases a) (simp_all add: focus_simps, (elim conjE, simp add: insert_case4_def grandparent_def rb_access)+)
  show ?thesis
    using insert_case5_left [OF f] by (simp add: e becomes_def)
qed

lemma insert_case4_inner_right:
  assumes "focus s x (PNode g cg u kg vg (PNode p cp (PNode n cn a kn vn b) kp vp c))"
  shows "becomes s (insert_case4 n s) x (PNode n Black (PNode g Red u kg vg a) kn vn (PNode p cp b kp vp c))"
proof -
  have ne: "addr c \<noteq> n" "addr u \<noteq> p"
    using assms addr_other [of "rb_nodes s" p c n] addr_other [of "rb_nodes s" g u p] by (simp_all add: focus_def)
  obtain s' where e: "insert_case4 n s = insert_case5 p s'" "rb_free s' = rb_free s" "rb_deferred s' = rb_deferred s"
    and f: "focus s' x (PNode g cg u kg vg (PNode n cn a kn vn (PNode p cp b kp vp c)))"
    using assms ne by (cases b) (simp_all add: focus_simps, (elim conjE, simp add: insert_case4_def grandparent_def rb_access)+)
  show ?thesis
    using insert_case5_right [OF f] by (simp add: e becomes_def)
qed

lemma insert_case4_left:
  assumes "focus s x (PNode g cg (PNode p cp (PNode n cn a kn vn b) kp vp c) kg vg u)"
  shows "becomes s (insert_case4 n s) x (PNode p Black (PNode n cn a kn vn b) kp vp (PNode g Red c kg vg u))"
proof -
  have ne: "addr c \<noteq> n" "addr u \<noteq> p"
    using assms addr_other [of "rb_nodes s" p c n] addr_other [of "rb_nodes s" g u p] by (simp_all add: focus_def)
  then have "insert_case4 n s = insert_case5 n s"
    using assms by (simp add: focus_simps, elim conjE, simp add: insert_case4_def grandparent_def rb_access)
  then show ?thesis
    using insert_case5_left [OF assms] by simp
qed

lemma insert_case4_right:
  assumes "focus s x (PNode g cg u kg vg (PNode p cp c kp vp (PNode n cn a kn vn b)))"
  shows "becomes s (insert_case4 n s) x (PNode p Black (PNode g Red u kg vg c) kp vp (PNode n cn a kn vn b))"
proof -
  have ne: "addr c \<noteq> n" "addr u \<noteq> p"
    using assms addr_other [of "rb_nodes s" p c n] addr_other [of "rb_nodes s" g u p] by (simp_all add: focus_def)
  then have "insert_case4 n s = insert_case5 n s"
    using assms by (simp add: focus_simps, elim conjE, simp add: insert_case4_def grandparent_def rb_access)
  then show ?thesis
    using insert_case5_right [OF assms] by simp
qed

text \<open>A node with the child of interest on the left or on the right.\<close>

definition knot :: "bool \<Rightarrow> uword \<Rightarrow> color \<Rightarrow> ('k, 'v) ptree \<Rightarrow> 'k \<Rightarrow> 'v \<Rightarrow> ('k, 'v) ptree \<Rightarrow> ('k, 'v) ptree" where
  "knot d n c t k v u = (if d then PNode n c t k v u else PNode n c u k v t)"

definition hole :: "bool \<Rightarrow> uword \<Rightarrow> color \<Rightarrow> 'k \<Rightarrow> 'v \<Rightarrow> ('k, 'v) ptree \<Rightarrow> ('k, 'v) ctx \<Rightarrow> ('k, 'v) ctx" where
  "hole d n c k v u x = (if d then InL n c k v u x else InR n c u k v x)"

lemma ctx_hole: "x = Top \<or> (\<exists>d n c k v u y. x = hole d n c k v u y)"
proof (cases x)
  case (InL n c k v r y)
  then have "x = hole True n c k v r y" by (simp add: hole_def)
  then show ?thesis by blast
next
  case (InR n c l k v y)
  then have "x = hole False n c k v l y" by (simp add: hole_def)
  then show ?thesis by blast
qed simp

lemma focus_hole: "focus s (hole d n c k v u x) t \<longleftrightarrow> focus s x (knot d n c t k v u)"
  by (simp add: hole_def knot_def focus_InL focus_InR)

lemma crb_hole:
  "crb (hole d n c k v u x) h \<longleftrightarrow> rb u \<and> bh u = h \<and> (c = Red \<longrightarrow> col u = Black \<and> ccol x = Black)
     \<and> crb x (h + (if c = Black then 1 else 0))"
  by (simp add: hole_def)

lemma plug_hole: "plug (hole d n c k v u x) t = plug x (knot d n c t k v u)"
  by (simp add: hole_def knot_def)

lemma ccol_hole: "ccol (hole d n c k v u x) = c"
  by (simp add: hole_def)

lemma size_hole: "size (hole d n c k v u x) > size x"
  by (simp add: hole_def)

lemma rb_knot: "rb (knot d n c t k v u) \<longleftrightarrow> rb t \<and> rb u \<and> bh t = bh u \<and> (c = Red \<longrightarrow> col t = Black \<and> col u = Black)"
  by (auto simp: knot_def)

lemma insert_case1_root:
  "focus s Top (PNode n c a k v b) \<Longrightarrow> becomes s (insert_case1 n s) Top (PNode n Black a k v b)"
  by (subst insert_case1.simps) (simp add: becomes_def focus_simps)

lemma insert_case1_black_parent:
  "focus s (hole d p Black kp vp u x) (PNode n c a k v b)
     \<Longrightarrow> becomes s (insert_case1 n s) (hole d p Black kp vp u x) (PNode n c a k v b)"
  by (subst insert_case1.simps) (cases d; simp add: hole_def becomes_def focus_simps)

lemma insert_case1_red_uncle:
  assumes "focus s x (knot d g cg (knot e p Red (PNode n cn a kn vn b) kp vp c) kg vg (PNode u Red l ku vu r))"
  shows "\<exists>s'. insert_case1 n s = insert_case1 g s' \<and> rb_free s' = rb_free s \<and> rb_deferred s' = rb_deferred s
     \<and> focus s' x (knot d g Red (knot e p Black (PNode n cn a kn vn b) kp vp c) kg vg (PNode u Black l ku vu r))"
  using assms by (subst insert_case1.simps, cases d; cases e)
    (simp_all add: knot_def focus_simps,
     (elim conjE, rule exI, rule conjI, simp add: uncle_def grandparent_def rb_access, simp)+)

lemma insert_case1_black_uncle:
  assumes "focus s x (knot d g cg (knot e p Red (PNode n cn a kn vn b) kp vp c) kg vg u)" and "col u = Black"
  shows "insert_case1 n s = insert_case4 n s"
  using assms by (subst insert_case1.simps, cases d; cases e; cases u)
    (simp_all add: knot_def focus_simps, (elim conjE, simp add: uncle_def grandparent_def rb_access)+)

text \<open>A repaired tree has the contents and the nodes of the original.\<close>

definition same_contents :: "('k, 'v) ptree \<Rightarrow> ('k, 'v) ptree \<Rightarrow> bool" where
  "same_contents t u \<longleftrightarrow> entries t = entries u \<and> mset (addrs t) = mset (addrs u)"

lemma same_contents_refl [simp]: "same_contents t t"
  by (simp add: same_contents_def)

lemma same_contents_trans: "same_contents t u \<Longrightarrow> same_contents u w \<Longrightarrow> same_contents t w"
  by (simp add: same_contents_def)

lemma same_contents_plug: "same_contents t u \<Longrightarrow> same_contents (plug x t) (plug x u)"
  by (simp add: same_contents_def entries_plug mset_addrs_plug)

lemma insert_case4_knot:
  assumes f: "focus s x (knot d g Black (knot e p Red (PNode n Red a kn vn b) kp vp c) kg vg u)" (is "focus s x ?t")
    and r: "rb (PNode n Red a kn vn b)" "rb c" "bh c = bh a" "col c = Black" "rb u" "bh u = bh a" "col u = Black"
  shows "\<exists>t'. becomes s (insert_case4 n s) x t' \<and> rb t' \<and> col t' = Black \<and> bh t' = Suc (bh a) \<and> same_contents t' ?t"
proof (cases d; cases e)
  assume "d" "e"
  then show ?thesis
    using insert_case4_left [of s x g Black p Red n Red a kn vn b kp vp c kg vg u] f r
    by (intro exI conjI, simp add: knot_def) (simp_all add: knot_def same_contents_def)
next
  assume "d" "\<not> e"
  then show ?thesis
    using insert_case4_inner_left [of s x g Black p Red c kp vp n Red a kn vn b kg vg u] f r
    by (intro exI conjI, simp add: knot_def) (simp_all add: knot_def same_contents_def)
next
  assume "\<not> d" "e"
  then show ?thesis
    using insert_case4_inner_right [of s x g Black u kg vg p Red n Red a kn vn b kp vp c] f r
    by (intro exI conjI, simp add: knot_def) (simp_all add: knot_def same_contents_def)
next
  assume "\<not> d" "\<not> e"
  then show ?thesis
    using insert_case4_right [of s x g Black u kg vg p Red c kp vp n Red a kn vn b] f r
    by (intro exI conjI, simp add: knot_def) (simp_all add: knot_def same_contents_def)
qed

lemma recolour_knot:
  assumes "rb (PNode n Red a kn vn b)" "rb c" "bh c = bh a" "col c = Black"
    and "rb (PNode q Red l kw vw h)" "bh (PNode q Red l kw vw h) = bh a" "crb z (Suc (bh a))"
  shows "\<exists>A K V B. knot e g Red (knot d p Black (PNode n Red a kn vn b) kp vp c) kg vg (PNode q Black l kw vw h) = PNode g Red A K V B
     \<and> rb (PNode g Red A K V B) \<and> crb z (bh A)
     \<and> same_contents (PNode g Red A K V B)
         (knot e g Black (knot d p Red (PNode n Red a kn vn b) kp vp c) kg vg (PNode q Red l kw vw h))"
  using assms by (cases e; cases d) (auto simp: knot_def same_contents_def)

lemma insert_repair:
  assumes "focus s x (PNode n Red a kn vn b)" "rb (PNode n Red a kn vn b)" "crb x (bh a)"
  shows "\<exists>t. becomes s (insert_case1 n s) Top t \<and> rb_tree t \<and> same_contents t (plug x (PNode n Red a kn vn b))"
  using assms
proof (induction "size x" arbitrary: s x n a kn vn b rule: less_induct)
  case (less x s n a kn vn b)
  let ?t = "PNode n Red a kn vn b"
  note f = less.prems(1) and r = less.prems(2) and c = less.prems(3)
  consider (root) "x = Top" | (black) d p kp vp u y where "x = hole d p Black kp vp u y"
    | (red) d p kp vp u y where "x = hole d p Red kp vp u y"
    using ctx_hole [of x] by (metis not_red)
  then show ?case
  proof cases
    case root
    then show ?thesis
      using insert_case1_root [of s n Red a kn vn b] f r
      by (intro exI conjI, simp) (simp_all add: rb_tree_def same_contents_def)
  next
    case black
    have "becomes s (insert_case1 n s) Top (plug x ?t)"
      using insert_case1_black_parent f unfolding black by (metis becomes_move focus_plug)
    moreover have "rb_tree (plug x ?t)"
      using r c by (simp add: rb_tree_plug black ccol_hole)
    ultimately show ?thesis by auto
  next
    case red
    then have "ccol y = Black" using c by (simp add: crb_hole)
    then obtain e g kg vg w z where y: "y = hole e g Black kg vg w z"
      using ctx_hole [of y] by (metis ccol.simps(1) ccol_hole color.distinct(1))
    have f': "focus s z (knot e g Black (knot d p Red ?t kp vp u) kg vg w)"
      using f by (simp add: red y focus_hole)
    have r': "rb u" "bh u = bh a" "col u = Black" "rb w" "bh w = bh a" "crb z (Suc (bh a))"
      using c by (simp_all add: red y crb_hole)
    show ?thesis
    proof (cases "col w")
      case Red
      then obtain q l kw vw h where w: "w = PNode q Red l kw vw h"
        by (cases w) auto
      obtain s' where s': "insert_case1 n s = insert_case1 g s'" "rb_free s' = rb_free s" "rb_deferred s' = rb_deferred s"
        "focus s' z (knot e g Red (knot d p Black ?t kp vp u) kg vg (PNode q Black l kw vw h))"
        using insert_case1_red_uncle [OF f' [unfolded w]] by metis
      obtain A K V B where k: "knot e g Red (knot d p Black ?t kp vp u) kg vg (PNode q Black l kw vw h) = PNode g Red A K V B"
        and r'': "rb (PNode g Red A K V B)" "crb z (bh A)"
        and sc: "same_contents (PNode g Red A K V B) (knot e g Black (knot d p Red ?t kp vp u) kg vg w)"
        using recolour_knot [OF r r'(1-3) r'(4-6) [unfolded w]] unfolding w by metis
      then obtain t where t: "becomes s' (insert_case1 g s') Top t" "rb_tree t" "same_contents t (plug z (PNode g Red A K V B))"
        using less.hyps [of z s' g A K V B] s'(4) size_hole by (metis less_trans red y)
      have "becomes s (insert_case1 n s) Top t"
        using t(1) s' by (simp add: becomes_def)
      then show ?thesis
        using t(2) same_contents_trans [OF t(3) same_contents_plug [OF sc]] by (auto simp: red y plug_hole)
    next
      case Black
      then obtain t where t: "becomes s (insert_case1 n s) z t" "rb t" "col t = Black" "bh t = Suc (bh a)"
        "same_contents t (knot e g Black (knot d p Red ?t kp vp u) kg vg w)"
        using insert_case4_knot [OF f' r r'(1-3) r'(4,5)] insert_case1_black_uncle [OF f'] by auto
      then have "becomes s (insert_case1 n s) Top (plug z t)" "rb_tree (plug z t)"
        using r' by (auto simp: rb_tree_plug focus_plug elim: becomes_move)
      then show ?thesis
        using same_contents_plug [OF t(5)] by (auto simp: red y plug_hole)
    qed
  qed
qed

section \<open>The descent\<close>

primrec cslot :: "('k, 'v) ctx \<Rightarrow> slot" where
  "cslot Top = Root_Slot"
| "cslot (InL n c k v r x) = Left_Slot n"
| "cslot (InR n c l k v x) = Right_Slot n"

primrec descend :: "('k \<Rightarrow> 'k \<Rightarrow> bool) \<Rightarrow> 'k \<Rightarrow> ('k, 'v) ptree \<Rightarrow> ('k, 'v) ctx \<Rightarrow> ('k, 'v) ctx" where
  "descend compare key PLeaf x = x"
| "descend compare key (PNode n c l k v r) x =
     (if compare key k then descend compare key l (InL n c k v r x) else descend compare key r (InR n c l k v x))"

lemma plug_descend: "plug (descend compare key t x) PLeaf = plug x t"
  by (induction t arbitrary: x) auto

lemma slot_get_focus: "focus s x t \<Longrightarrow> slot_get (cslot x) s = Some (addr t)"
  by (cases x) (simp_all add: focus_simps)

lemma push_descend_focus:
  "focus s x t \<Longrightarrow> push_descend compare key s (cslot x) (cparent x)
     = Some (cslot (descend compare key t x), cparent (descend compare key t x))"
proof (induction t arbitrary: x)
  case PLeaf
  then show ?case
    using slot_get_focus [OF PLeaf] by (subst push_descend.simps) simp
next
  case (PNode n c l k v r)
  have n: "n \<noteq> 0" "rb_get rb_key n s = Some k"
    using PNode.prems by (simp_all add: focus_def rb_get_def)
  have l: "compare key k \<Longrightarrow> focus s (InL n c k v r x) l" and r: "\<not> compare key k \<Longrightarrow> focus s (InR n c l k v x) r"
    using PNode.prems by (simp_all add: focus_InL focus_InR)
  show ?case
    using slot_get_focus [OF PNode.prems] n PNode.IH(1) [OF l] PNode.IH(2) [OF r]
    by (subst push_descend.simps) simp
qed

lemma touch_neighbours_focus: "focus s x t \<Longrightarrow> touch_neighbours (cparent x) s = Some ()"
proof (cases x)
  case (InL n c k v r y)
  then show "focus s x t \<Longrightarrow> ?thesis"
    by (cases y) (auto simp: focus_def touch_neighbours_def rb_get_def)
next
  case (InR n c l k v y)
  then show "focus s x t \<Longrightarrow> ?thesis"
    by (cases y) (auto simp: focus_def touch_neighbours_def rb_get_def)
qed (simp add: touch_neighbours_def)

text \<open>Hanging a new node into the slot the descent found.\<close>

lemma attach_focus:
  assumes "focus s x PLeaf" "rb_nodes s n = Some (new_rb_node k v)" "n \<noteq> 0" "n \<notin> set (caddrs x)"
  shows "becomes s (set_parent n (cparent x) s \<bind> slot_set (cslot x) n) x (PNode n Red PLeaf k v PLeaf)"
  using assms by (cases x) (simp_all add: becomes_def focus_simps new_rb_node_def, (elim conjE, simp)+)

lemma push_impl_focus:
  assumes "focus s Top t" "rb_tree t" "rb_nodes s n = Some (new_rb_node k v)" "n \<noteq> 0" "n \<notin> set (addrs t)"
  shows "\<exists>t'. becomes s (push_impl compare n s) Top t' \<and> rb_tree t'
     \<and> same_contents t' (plug (descend compare k t Top) (PNode n Red PLeaf k v PLeaf))"
proof -
  define x where "x = descend compare k t Top"
  have p: "plug x PLeaf = t"
    by (simp add: x_def plug_descend)
  then have f: "focus s x PLeaf"
    using assms(1) focus_plug by metis
  have "n \<notin> set (caddrs x)"
    using assms(5) set_addrs_plug [of x PLeaf] p by simp
  then obtain s1 where a: "set_parent n (cparent x) s \<bind> slot_set (cslot x) n = Some s1"
    and f1: "focus s1 x (PNode n Red PLeaf k v PLeaf)"
    and e: "rb_free s1 = rb_free s" "rb_deferred s1 = rb_deferred s"
    using attach_focus [OF f assms(3,4)] by (auto simp: becomes_def)
  have "crb x 0"
    using assms(2) rb_tree_plug [of x PLeaf] p by simp
  then obtain t' where t: "becomes s1 (insert_case1 n s1) Top t'" "rb_tree t'"
    "same_contents t' (plug x (PNode n Red PLeaf k v PLeaf))"
    using insert_repair [OF f1] by auto
  have "rb_get rb_key n s = Some k" "push_descend compare k s Root_Slot 0 = Some (cslot x, cparent x)"
    using push_descend_focus [OF assms(1), of compare k] assms(3) by (simp_all add: rb_get_def new_rb_node_def x_def)
  then have "push_impl compare n s = (set_parent n (cparent x) s \<bind> slot_set (cslot x) n) \<bind> insert_case1 n"
    using touch_neighbours_focus [OF f] by (simp add: push_impl_def)
  then have "push_impl compare n s = insert_case1 n s1"
    by (simp add: a)
  then show ?thesis
    using t e by (auto simp: becomes_def x_def)
qed

end
