(* ===== verification/RBTree_Map.thy ===== *)
theory RBTree_Map
  imports RBTree_Insert
begin

text \<open>
  The red-black tree as an ordered map with repeated keys: the comparator is a strict weak order, the
  entries in key order are the abstract value, and the public operations are operations on that list.
\<close>

section \<open>The comparator\<close>

text \<open>What \<open>Compare\<close> has to be: a strict weak order. \<open>std::less\<close>, the default, is one on a linear order.\<close>

locale strict_weak_order =
  fixes lt :: "'k \<Rightarrow> 'k \<Rightarrow> bool"
  assumes asym: "lt a b \<Longrightarrow> \<not> lt b a"
    and cotrans: "lt a c \<Longrightarrow> lt a b \<or> lt b c"

definition sorted_by :: "('k \<Rightarrow> 'k \<Rightarrow> bool) \<Rightarrow> ('k \<times> 'v) list \<Rightarrow> bool" where
  "sorted_by lt es \<longleftrightarrow> sorted_wrt (\<lambda>a b. \<not> lt (fst b) (fst a)) es"

text \<open>A new entry goes behind the entries with an equivalent key.\<close>

definition insert_entry :: "('k \<Rightarrow> 'k \<Rightarrow> bool) \<Rightarrow> 'k \<Rightarrow> 'v \<Rightarrow> ('k \<times> 'v) list \<Rightarrow> ('k \<times> 'v) list" where
  "insert_entry lt k v es =
     takeWhile (\<lambda>e. \<not> lt k (fst e)) es @ (k, v) # dropWhile (\<lambda>e. \<not> lt k (fst e)) es"

lemma sorted_by_append:
  "sorted_by lt (xs @ ys) \<longleftrightarrow> sorted_by lt xs \<and> sorted_by lt ys
     \<and> (\<forall>a \<in> set xs. \<forall>b \<in> set ys. \<not> lt (fst b) (fst a))"
  by (simp add: sorted_by_def sorted_wrt_append)

lemma sorted_by_Cons: "sorted_by lt (e # es) \<longleftrightarrow> (\<forall>b \<in> set es. \<not> lt (fst b) (fst e)) \<and> sorted_by lt es"
  by (simp add: sorted_by_def)

lemma insert_entry_split:
  assumes "\<forall>e \<in> set xs. \<not> lt k (fst e)" "\<forall>e \<in> set ys. lt k (fst e)"
  shows "insert_entry lt k v (xs @ ys) = xs @ (k, v) # ys"
  using assms by (cases ys) (simp_all add: insert_entry_def takeWhile_append2 dropWhile_append2)

lemma mset_insert_entry: "mset (insert_entry lt k v es) = add_mset (k, v) (mset es)"
  by (simp add: insert_entry_def) (metis mset_append takeWhile_dropWhile_id)

lemma sorted_split:
  assumes "sorted_by lt (entries (plug x (PNode n c l k v r)))"
  shows "\<forall>e \<in> set (entries l). \<not> lt k (fst e)" "\<forall>e \<in> set (entries r). \<not> lt (fst e) k"
  using assms by (auto simp: entries_plug sorted_by_append sorted_by_Cons)

context strict_weak_order begin

lemma irrefl: "\<not> lt a a"
  using asym by blast

lemma less_le_trans: "lt a b \<Longrightarrow> \<not> lt c b \<Longrightarrow> lt a c"
  using cotrans by blast

lemma le_less_trans: "\<not> lt b a \<Longrightarrow> lt b c \<Longrightarrow> lt a c"
  using cotrans by blast

lemma descend_bounds:
  assumes "sorted_by lt (entries (plug x t))"
    and "\<forall>e \<in> set (lefts x). \<not> lt key (fst e)" "\<forall>e \<in> set (rights x). lt key (fst e)"
  shows "(\<forall>e \<in> set (lefts (descend lt key t x)). \<not> lt key (fst e))
     \<and> (\<forall>e \<in> set (rights (descend lt key t x)). lt key (fst e))"
  using assms
proof (induction t arbitrary: x)
  case (PNode n c l k v r)
  note s = sorted_split [OF PNode.prems(1)]
  show ?case
  proof (cases "lt key k")
    case True
    then have "\<forall>e \<in> set (entries r). lt key (fst e)"
      using s(2) less_le_trans by blast
    then have "\<forall>e \<in> set (rights (InL n c k v r x)). lt key (fst e)"
      using True PNode.prems(3) by (simp add: ball_Un)
    then show ?thesis
      using PNode.IH(1) [of "InL n c k v r x"] PNode.prems(1,2) True by fastforce
  next
    case False
    then have "\<forall>e \<in> set (entries l). \<not> lt key (fst e)"
      using s(1) cotrans by blast
    then have "\<forall>e \<in> set (lefts (InR n c l k v x)). \<not> lt key (fst e)"
      using False PNode.prems(2) by (simp add: ball_Un)
    then show ?thesis
      using PNode.IH(2) [of "InR n c l k v x"] PNode.prems(1,3) False by fastforce
  qed
qed simp

lemma entries_descend:
  assumes "sorted_by lt (entries t)"
  shows "entries (plug (descend lt k t Top) (PNode n c PLeaf k v PLeaf)) = insert_entry lt k v (entries t)"
proof -
  let ?x = "descend lt k t Top"
  have "entries t = lefts ?x @ rights ?x"
    using entries_plug [of ?x PLeaf] plug_descend [of lt k t Top] by simp
  then show ?thesis
    using descend_bounds [of Top t k] assms by (simp add: entries_plug insert_entry_split)
qed

lemma sorted_insert_entry:
  assumes "sorted_by lt es"
  shows "sorted_by lt (insert_entry lt k v es)"
proof -
  let ?P = "\<lambda>e. \<not> lt k (fst e)"
  have s: "sorted_by lt (takeWhile ?P es @ dropWhile ?P es)"
    using assms by simp
  have t: "\<forall>e \<in> set (takeWhile ?P es). \<not> lt k (fst e)"
    by (auto dest: set_takeWhileD)
  have "\<forall>e \<in> set (dropWhile ?P es). lt k (fst e)"
  proof (cases "dropWhile ?P es")
    case (Cons e zs)
    then have "lt k (fst e)"
      using hd_dropWhile [of ?P es] by simp
    moreover have "\<forall>b \<in> set zs. \<not> lt (fst b) (fst e)"
      using s Cons by (simp add: sorted_by_append sorted_by_Cons)
    ultimately show ?thesis
      using Cons by (auto intro: less_le_trans)
  next
    case Nil
    then show ?thesis by (simp only: list.set ball_empty)
  qed
  then have "\<forall>e \<in> set (dropWhile ?P es). \<not> lt (fst e) k"
    using asym by blast
  then show ?thesis
    using s t unfolding insert_entry_def sorted_by_append sorted_by_Cons by auto
qed

end

interpretation std_less: strict_weak_order "(<) :: 'k::linorder \<Rightarrow> 'k \<Rightarrow> bool"
  by unfold_locales auto

section \<open>The state of a tree\<close>

text \<open>
  The tree in the state \<open>s\<close> has the entries \<open>es\<close> in order: the nodes form a search tree whose colours are
  right, and no free or freed node is part of it.
\<close>

definition rbt_ok :: "('k \<Rightarrow> 'k \<Rightarrow> bool) \<Rightarrow> ('k, 'v) rbt \<Rightarrow> ('k \<times> 'v) list \<Rightarrow> bool" where
  "rbt_ok lt s es \<longleftrightarrow> (\<exists>t. focus s Top t \<and> rb_tree t \<and> entries t = es \<and> sorted_by lt es
     \<and> distinct (addrs t @ rb_deferred s @ rb_free s) \<and> 0 \<notin> set (rb_free s))"

lemma rbt_ok_new: "distinct free \<Longrightarrow> 0 \<notin> set free \<Longrightarrow> rbt_ok lt (rbtree_new free) []"
  unfolding rbt_ok_def by (intro exI [of _ PLeaf]) (simp add: rbtree_new_def focus_def rb_tree_def sorted_by_def)

lemma focus_alloc: "n \<notin> set (addrs t) \<Longrightarrow>
    focus (s\<lparr> rb_nodes := (rb_nodes s)(n \<mapsto> d), rb_free := f \<rparr>) Top t = focus s Top t"
  by (simp add: focus_def)

context strict_weak_order begin

lemma emplace_ok:
  assumes "rbt_ok lt s es" "rb_free s = n # ns"
  shows "\<exists>s'. emplace lt k v s = Some s' \<and> rbt_ok lt s' (insert_entry lt k v es) \<and> rb_free s' = ns"
proof -
  obtain t where t: "focus s Top t" "rb_tree t" "entries t = es" "sorted_by lt es"
    "distinct (addrs t @ rb_deferred s @ rb_free s)" "0 \<notin> set (rb_free s)"
    using assms(1) by (auto simp: rbt_ok_def)
  define s1 where "s1 = s\<lparr> rb_nodes := (rb_nodes s)(n \<mapsto> new_rb_node k v), rb_free := ns \<rparr>"
  have n: "n \<noteq> 0" "n \<notin> set (addrs t)"
    using t(5,6) assms(2) by auto
  then have "focus s1 Top t" "rb_nodes s1 n = Some (new_rb_node k v)"
    using t(1) by (simp_all add: s1_def focus_alloc)
  then obtain t' s' where r: "push_impl lt n s1 = Some s'" "focus s' Top t'" "rb_free s' = ns" "rb_deferred s' = rb_deferred s"
      "rb_tree t'" "same_contents t' (plug (descend lt k t Top) (PNode n Red PLeaf k v PLeaf))"
    using push_impl_focus [OF _ t(2) _ n, of s1 k v lt] by (auto simp: becomes_def s1_def)
  have e: "entries t' = insert_entry lt k v es"
    using r(6) entries_descend [of t k n Red v] t(3,4) by (simp add: same_contents_def)
  have "mset (addrs t') = add_mset n (mset (addrs t))"
    using r(6) mset_addrs_plug [of "descend lt k t Top" PLeaf] plug_descend [of lt k t Top]
    by (simp add: same_contents_def mset_addrs_plug)
  then have "mset (addrs t' @ rb_deferred s' @ rb_free s') = mset (addrs t @ rb_deferred s @ rb_free s)"
    by (simp add: r assms(2))
  then have "distinct (addrs t' @ rb_deferred s' @ rb_free s')"
    using t(5) mset_eq_imp_distinct_iff by blast
  moreover have "emplace lt k v s = Some s'"
    using r(1) by (simp add: emplace_def assms(2) s1_def)
  ultimately show ?thesis
    using r e t(4,6) assms(2) sorted_insert_entry [of es k v] unfolding rbt_ok_def by (intro exI conjI) auto
qed

end

section \<open>Checking a tree\<close>

primrec min_path :: "('k, 'v) ptree \<Rightarrow> nat" where
  "min_path PLeaf = 0"
| "min_path (PNode n c l k v r) = min (min_path l) (min_path r) + 1"

primrec max_path :: "('k, 'v) ptree \<Rightarrow> nat" where
  "max_path PLeaf = 0"
| "max_path (PNode n c l k v r) = max (max_path l) (max_path r) + 1"

lemma bh_le_min_path: "rb t \<Longrightarrow> bh t \<le> min_path t"
  by (induction t) auto

lemma max_path_le: "rb t \<Longrightarrow> max_path t \<le> 2 * bh t + (if col t = Red then 1 else 0)"
  by (induction t) (auto split: if_splits)

lemma bh_le_entries: "rb t \<Longrightarrow> 2 ^ bh t \<le> Suc (length (entries t))"
  by (induction t) auto

text \<open>What \<open>minmax_height\<close> asserts of a node and one of its children.\<close>

lemma minmax_height_rep:
  assumes "rep (rb_nodes s) p t" "rb t" "sorted_by lt (entries t)"
  shows "minmax_height lt (addr t) s = Some \<lparr> min_height = min_path t, max_height = max_path t, black_height = bh t \<rparr>"
  using assms
proof (induction t arbitrary: p)
  case PLeaf
  then show ?case by (subst minmax_height.simps) simp
next
  case (PNode n c l k v r)
  have n: "n \<noteq> 0" "rb_nodes s n = Some \<lparr> rb_key = k, rb_value = v, rb_parent = p, rb_left = addr l, rb_right = addr r, rb_color = c \<rparr>"
    "rep (rb_nodes s) n l" "rep (rb_nodes s) n r"
    using PNode.prems(1) by simp_all
  have s: "sorted_by lt (entries l)" "sorted_by lt (entries r)"
    "\<forall>e \<in> set (entries l). \<not> lt k (fst e)" "\<forall>e \<in> set (entries r). \<not> lt (fst e) k"
    using PNode.prems(3) by (simp_all add: sorted_by_append sorted_by_Cons)
  have b: "rb l" "rb r" "bh l = bh r" "c = Red \<Longrightarrow> col l = Black" "c = Red \<Longrightarrow> col r = Black"
    using PNode.prems(2) by simp_all
  have l: "addr l = 0 \<or> (\<exists>d. rb_nodes s (addr l) = Some d \<and> rb_parent d = n \<and> \<not> lt k (rb_key d) \<and> (c = Red \<longrightarrow> rb_color d = Black))"
    using n(3) s(3) b(4) by (cases l) auto
  have r: "addr r = 0 \<or> (\<exists>d. rb_nodes s (addr r) = Some d \<and> rb_parent d = n \<and> \<not> lt (rb_key d) k \<and> (c = Red \<longrightarrow> rb_color d = Black))"
    using n(4) s(4) b(5) by (cases r) auto
  show ?case
    using l r n PNode.IH(1) [OF n(3) b(1) s(1)] PNode.IH(2) [OF n(4) b(2) s(2)] b(3)
    by (subst minmax_height.simps) (auto simp: rb_get_def rb_assert_def)
qed

lemma verify_ok:
  assumes "rbt_ok lt s es"
  shows "verify lt s = Some ()"
proof -
  obtain t where t: "focus s Top t" "rb_tree t" "sorted_by lt (entries t)"
    using assms by (auto simp: rbt_ok_def)
  have h: "minmax_height lt (rb_root s) s = Some \<lparr> min_height = min_path t, max_height = max_path t, black_height = bh t \<rparr>"
    using minmax_height_rep [of s 0 t lt] t by (simp add: focus_def rb_tree_def)
  have "max_path t \<le> 2 * min_path t"
    using max_path_le [of t] bh_le_min_path [of t] t(2) by (simp add: rb_tree_def)
  then show ?thesis
    using h t by (cases t) (simp_all add: verify_def focus_def rb_get_def rb_assert_def rb_tree_def)
qed

section \<open>Paths\<close>

text \<open>The addresses on a path of child pointers from a node down to a null pointer, and the nodes on the paths from the root.\<close>

fun rb_path :: "('k, 'v) rbt \<Rightarrow> uword \<Rightarrow> uword list \<Rightarrow> bool" where
  "rb_path s n [] \<longleftrightarrow> n = 0"
| "rb_path s n (m # ns) \<longleftrightarrow> n = m \<and> n \<noteq> 0
     \<and> (case rb_nodes s n of None \<Rightarrow> False | Some d \<Rightarrow> rb_path s (rb_left d) ns \<or> rb_path s (rb_right d) ns)"

definition tree_nodes :: "('k, 'v) rbt \<Rightarrow> uword set" where
  "tree_nodes s = {n. \<exists>ns. rb_path s (rb_root s) ns \<and> n \<in> set ns}"

primrec tree_paths :: "('k, 'v) ptree \<Rightarrow> uword list set" where
  "tree_paths PLeaf = {[]}"
| "tree_paths (PNode n c l k v r) = Cons n ` (tree_paths l \<union> tree_paths r)"

lemma rb_path_rep: "rep (rb_nodes s) p t \<Longrightarrow> rb_path s (addr t) ns \<longleftrightarrow> ns \<in> tree_paths t"
proof (induction t arbitrary: p ns)
  case PLeaf
  then show ?case by (cases ns) simp_all
next
  case (PNode n c l k v r)
  then show ?case by (cases ns) auto
qed

lemma tree_paths_nonempty: "tree_paths t \<noteq> {}"
  by (induction t) auto

lemma tree_paths_nodes: "(\<Union>ns \<in> tree_paths t. set ns) = set (addrs t)"
proof (induction t)
  case (PNode n c l k v r)
  have "tree_paths l \<union> tree_paths r \<noteq> {}" using tree_paths_nonempty by blast
  then have "(\<Union>ns \<in> tree_paths (PNode n c l k v r). set ns) = insert n ((\<Union>ns \<in> tree_paths l. set ns) \<union> (\<Union>ns \<in> tree_paths r. set ns))"
    by auto
  then show ?case using PNode.IH by simp
qed simp

lemma tree_paths_length: "ns \<in> tree_paths t \<Longrightarrow> min_path t \<le> length ns \<and> length ns \<le> max_path t"
  by (induction t arbitrary: ns) (fastforce simp: min_def max_def)+

lemma tree_paths_ends:
  "\<exists>ns \<in> tree_paths t. length ns = min_path t" "\<exists>ns \<in> tree_paths t. length ns = max_path t"
  by (induction t) (fastforce simp: min_def max_def)+

lemma tree_nodes_rep: "focus s Top t \<Longrightarrow> tree_nodes s = set (addrs t)"
  using rb_path_rep [of s 0 t] tree_paths_nodes [of t] by (auto simp: tree_nodes_def focus_def)

lemma length_addrs: "length (addrs t) = length (entries t)"
  by (induction t) auto

text \<open>What \<open>minmax_height\<close> returns are the lengths of the shortest and of the longest path.\<close>

lemma height_ok:
  assumes "rbt_ok lt s es"
  shows "\<exists>h. minmax_height lt (rb_root s) s = Some h \<and> card (tree_nodes s) = length es
     \<and> (\<exists>ns. rb_path s (rb_root s) ns \<and> length ns = min_height h) \<and> (\<exists>ns. rb_path s (rb_root s) ns \<and> length ns = max_height h)
     \<and> (\<forall>ns. rb_path s (rb_root s) ns \<longrightarrow> min_height h \<le> length ns \<and> length ns \<le> max_height h)
     \<and> max_height h \<le> 2 * min_height h \<and> 2 ^ max_height h \<le> (Suc (length es))\<^sup>2"
proof -
  obtain t where t: "focus s Top t" "rb_tree t" "sorted_by lt (entries t)" "entries t = es"
    using assms by (auto simp: rbt_ok_def)
  have r: "rep (rb_nodes s) 0 t" "rb_root s = addr t" "distinct (addrs t)" using t(1) by (simp_all add: focus_def)
  have b: "rb t" "max_path t \<le> 2 * bh t" using max_path_le [of t] t(2) by (simp_all add: rb_tree_def)
  have h: "minmax_height lt (rb_root s) s = Some \<lparr> min_height = min_path t, max_height = max_path t, black_height = bh t \<rparr>"
    using minmax_height_rep [OF r(1) b(1) t(3)] r(2) by simp
  have "2 ^ max_path t \<le> (2 :: nat) ^ (2 * bh t)" by (rule power_increasing [OF b(2)]) simp
  also have "\<dots> = (2 ^ bh t)\<^sup>2" by (simp add: power_mult [symmetric] mult.commute)
  also have "\<dots> \<le> (Suc (length es))\<^sup>2" by (rule power_mono) (use bh_le_entries [OF b(1)] t(4) in simp_all)
  finally have "2 ^ max_path t \<le> (Suc (length es))\<^sup>2" .
  moreover have "card (tree_nodes s) = length es"
    using tree_nodes_rep [OF t(1)] distinct_card [OF r(3)] length_addrs [of t] t(4) by simp
  ultimately show ?thesis
    using h tree_paths_length [of _ t] tree_paths_ends [of t] b(2) bh_le_min_path [OF b(1)] rb_path_rep [OF r(1)]
    by (intro exI [of _ "\<lparr> min_height = min_path t, max_height = max_path t, black_height = bh t \<rparr>"]) (auto simp: r(2))
qed

section \<open>Lookup\<close>

context strict_weak_order begin

lemma find_descend:
  assumes "focus s x t" "sorted_by lt (entries (plug x t))" and es: "entries (plug x t) = es"
    and "\<forall>e \<in> set (lefts x). lt (fst e) key" "\<forall>e \<in> set (rights x). lt key (fst e)"
  shows "\<exists>y u. find_from_node lt key s (addr t) = Some (addr u) \<and> plug y u = plug x t
     \<and> (case u of PLeaf \<Rightarrow> \<forall>e \<in> set es. lt key (fst e) \<or> lt (fst e) key
        | PNode n c l k v r \<Rightarrow> \<not> lt key k \<and> \<not> lt k key)"
  using assms
proof (induction t arbitrary: x)
  case PLeaf
  then have "\<forall>e \<in> set es. lt key (fst e) \<or> lt (fst e) key"
    by (fastforce simp: entries_plug)
  then show ?case
    by (subst find_from_node.simps) (intro exI [of _ x] exI [of _ PLeaf], simp)
next
  case (PNode n c l k v r)
  note s = sorted_split [OF PNode.prems(2)]
  have n: "n \<noteq> 0" "rb_nodes s n = Some \<lparr> rb_key = k, rb_value = v, rb_parent = cparent x, rb_left = addr l, rb_right = addr r, rb_color = c \<rparr>"
    using PNode.prems(1) by (simp_all add: focus_def)
  consider (left) "lt key k" | (right) "\<not> lt key k" "lt k key" | (here) "\<not> lt key k" "\<not> lt k key"
    by blast
  then show ?case
  proof cases
    case left
    then have "\<forall>e \<in> set (entries r). lt key (fst e)"
      using s(2) less_le_trans by blast
    then have "\<forall>e \<in> set (rights (InL n c k v r x)). lt key (fst e)"
      using left PNode.prems(5) by (simp add: ball_Un)
    moreover have "find_from_node lt key s n = find_from_node lt key s (addr l)"
      using n left by (subst find_from_node.simps) (simp add: rb_get_def)
    ultimately show ?thesis
      using PNode.IH(1) [of "InL n c k v r x"] PNode.prems(1,2,3,4) by (simp add: focus_InL)
  next
    case right
    then have "\<forall>e \<in> set (entries l). lt (fst e) key"
      using s(1) le_less_trans by blast
    then have "\<forall>e \<in> set (lefts (InR n c l k v x)). lt (fst e) key"
      using right PNode.prems(4) by (simp add: ball_Un)
    moreover have "find_from_node lt key s n = find_from_node lt key s (addr r)"
      using n right by (subst find_from_node.simps) (simp add: rb_get_def)
    ultimately show ?thesis
      using PNode.IH(2) [of "InR n c l k v x"] PNode.prems(1,2,3,5) by (simp add: focus_InR)
  next
    case here
    then have "find_from_node lt key s n = Some n"
      using n by (subst find_from_node.simps) (simp add: rb_get_def)
    then show ?thesis
      using here by (intro exI [of _ x] exI [of _ "PNode n c l k v r"]) simp
  qed
qed

lemma find_ok:
  assumes "rbt_ok lt s es"
  shows "\<exists>n. rbtree_find lt key s = Some n
     \<and> (if n = 0 then \<forall>e \<in> set es. lt key (fst e) \<or> lt (fst e) key
        else \<exists>d. rb_nodes s n = Some d \<and> (rb_key d, rb_value d) \<in> set es \<and> \<not> lt key (rb_key d) \<and> \<not> lt (rb_key d) key)"
proof -
  obtain t where t: "focus s Top t" "sorted_by lt (entries t)" "entries t = es"
    using assms by (auto simp: rbt_ok_def)
  then have r: "rb_root s = addr t"
    by (simp add: focus_def)
  obtain y u where u: "find_from_node lt key s (addr t) = Some (addr u)" "plug y u = t"
     "case u of PLeaf \<Rightarrow> \<forall>e \<in> set es. lt key (fst e) \<or> lt (fst e) key | PNode n c l k v r \<Rightarrow> \<not> lt key k \<and> \<not> lt k key"
    using find_descend [of s Top t es key, unfolded plug.simps, OF t] by auto
  then have "focus s y u"
    using t(1) focus_plug by metis
  then show ?thesis
    using u t(3) r by (cases u) (auto simp: rbtree_find_def focus_def entries_plug)
qed

end

end
