(* ===== verification/RBTree_Delete.thy ===== *)
theory RBTree_Delete
  imports RBTree_Map
begin

text \<open>
  Deletion from the red-black tree: a node with at most one child is unlinked, the repair of
  \<open>delete_case1\<close> to \<open>delete_case6\<close> makes up for the black node that is missing above the hole, and the
  in-order contents lose exactly the entry that was found.
\<close>

section \<open>The calls between the cases\<close>

lemma delete_case1_calls:
  "delete_case1 parent n s = (if parent \<noteq> 0 then delete_case2 parent n s else Some s)"
  by (subst delete_case1.simps) (simp add: delete_case2_def delete_case3_def)

section \<open>The relatives of the hole\<close>

lemma addr_knot [simp]: "addr (knot d n c t k v u) = n"
  by (simp add: knot_def)

lemma knot_node:
  assumes "focus s x (knot d p c t k v u)"
  shows "p \<noteq> 0" "rb_nodes s p = Some \<lparr> rb_key = k, rb_value = v, rb_parent = cparent x,
     rb_left = (if d then addr t else addr u), rb_right = (if d then addr u else addr t), rb_color = c \<rparr>"
  using assms by (simp_all add: knot_def focus_def split: if_splits)

lemma knot_addrs:
  assumes "focus s x (knot d p c t k v u)" "u \<noteq> PLeaf"
  shows "addr u \<noteq> 0" "addr t \<noteq> addr u"
proof -
  have r: "rep (rb_nodes s) p t" "rep (rb_nodes s) p u" "set (addrs t) \<inter> set (addrs u) = {}"
    using assms(1) by (auto simp: knot_def focus_def split: if_splits)
  show u: "addr u \<noteq> 0"
    using addr_zero [OF r(2)] assms(2) by simp
  show "addr t \<noteq> addr u"
    using u r(3) addr_in [OF assms(2)] by (cases t) auto
qed

lemma sibling_knot:
  "focus s x (knot d p c t k v u) \<Longrightarrow> u \<noteq> PLeaf \<Longrightarrow> sibling p (addr t) s = Some (addr u)"
  using knot_node [of s x d p c t k v u] knot_addrs [of s x d p c t k v u]
  by (simp add: sibling_def rb_get_def)

lemma color_of_rep: "rep (rb_nodes s) p t \<Longrightarrow> color_of (addr t) s = Some (col t)"
  by (cases t) (simp_all add: color_of_def rb_get_def)

section \<open>The cases\<close>

definition rotate :: "bool \<Rightarrow> uword \<Rightarrow> ('k, 'v) rbt \<Rightarrow> ('k, 'v) rbt option" where
  "rotate d n s = (if d then rotate_left n s else rotate_right n s)"

lemma rotate_knot:
  "focus s x (knot d p cp t kp vp (knot d q cq b kq vq f))
     \<Longrightarrow> becomes s (rotate d p s) x (knot d q cq (knot d p cp t kp vp b) kq vq f)"
  by (cases d) (simp_all add: rotate_def knot_def rotate_left_focus rotate_right_focus)

lemma rotate_knot_away:
  "focus s x (knot d p cp t kp vp (knot d q cq (knot d w cw e kw vw f) kq vq g))
     \<Longrightarrow> becomes s (rotate (\<not> d) q s) x (knot d p cp t kp vp (knot d w cw e kw vw (knot d q cq f kq vq g)))"
proof -
  assume "focus s x (knot d p cp t kp vp (knot d q cq (knot d w cw e kw vw f) kq vq g))"
  then have "focus s (hole (\<not> d) p cp kp vp t x) (knot (\<not> d) q cq g kq vq (knot (\<not> d) w cw f kw vw e))"
    by (cases d) (simp_all add: focus_hole knot_def)
  then have "becomes s (rotate (\<not> d) q s) (hole (\<not> d) p cp kp vp t x) (knot (\<not> d) w cw (knot (\<not> d) q cq g kq vq f) kw vw e)"
    by (rule rotate_knot)
  then show ?thesis
    by (rule becomes_move) (cases d; simp add: focus_hole knot_def)
qed

lemma delete_case6_knot:
  assumes f: "focus s x (knot d p cp t kp vp (knot d q cq b kq vq (PNode w cw e kw vw f)))"
  shows "becomes s (delete_case6 p (addr t) s) x (knot d q cp (knot d p Black t kp vp b) kq vq (PNode w Black e kw vw f))"
proof -
  define s' where "s' = s\<lparr> rb_nodes := (rb_nodes s)
     (q \<mapsto> \<lparr> rb_key = kq, rb_value = vq, rb_parent = p, rb_left = if d then addr b else w, rb_right = if d then w else addr b, rb_color = cp \<rparr>,
      p \<mapsto> \<lparr> rb_key = kp, rb_value = vp, rb_parent = cparent x, rb_left = if d then addr t else q, rb_right = if d then q else addr t, rb_color = Black \<rparr>,
      w \<mapsto> \<lparr> rb_key = kw, rb_value = vw, rb_parent = q, rb_left = addr e, rb_right = addr f, rb_color = Black \<rparr>) \<rparr>"
  have f': "focus s' x (knot d p Black t kp vp (knot d q cp b kq vq (PNode w Black e kw vw f)))"
    using f by (cases d) (simp_all add: knot_def focus_simps, (elim conjE, simp add: s'_def)+)
  have "knot d q cq b kq vq (PNode w cw e kw vw f) \<noteq> PLeaf"
    by (simp add: knot_def)
  note sib = sibling_knot [OF f this] knot_addrs [OF f this]
  have e: "delete_case6 p (addr t) s = rotate d p s'"
    using sib f by (cases d) (simp_all add: knot_def focus_simps, (elim conjE, simp add: s'_def delete_case6_def rotate_def rb_access)+)
  show ?thesis
    using rotate_knot [OF f'] by (simp add: e becomes_def s'_def)
qed

text \<open>Colours and links of the sibling.\<close>

lemma sibling_node:
  assumes "focus s x (knot d p c t k v (knot e q cq b kq vq g))"
  shows "rb_get rb_left q s = Some (if e then addr b else addr g)" "rb_get rb_right q s = Some (if e then addr g else addr b)"
    "rb_get rb_color q s = Some cq" "color_of (addr b) s = Some (col b)" "color_of (addr g) s = Some (col g)"
    "color_of q s = Some cq"
proof -
  have r: "rep (rb_nodes s) p (knot e q cq b kq vq g)"
    using assms by (simp add: knot_def [of d] focus_def split: if_splits)
  then have "rep (rb_nodes s) q b" "rep (rb_nodes s) q g"
    by (simp_all add: knot_def split: if_splits)
  then show "color_of (addr b) s = Some (col b)" "color_of (addr g) s = Some (col g)"
    by (simp_all add: color_of_rep)
  show "rb_get rb_left q s = Some (if e then addr b else addr g)" "rb_get rb_right q s = Some (if e then addr g else addr b)"
    "rb_get rb_color q s = Some cq" "color_of q s = Some cq"
    using r by (simp_all add: knot_def rb_get_def color_of_def split: if_splits)
qed

lemma color_knot: "focus s x (knot d p c t k v u) \<Longrightarrow> rb_get rb_color p s = Some c"
  using knot_node by (fastforce simp: rb_get_def)

lemma knot_not_leaf [simp]: "knot d n c t k v u \<noteq> PLeaf"
  by (simp add: knot_def)

lemma parent_links:
  assumes "focus s x (knot d p c t k v u)" "u \<noteq> PLeaf"
  shows "\<exists>a b. rb_get rb_left p s = Some a \<and> rb_get rb_right p s = Some b \<and> (addr t = a \<longleftrightarrow> d) \<and> (addr t = b \<longleftrightarrow> \<not> d)"
  using knot_node [OF assms(1)] knot_addrs [OF assms] by (auto simp: rb_get_def)

lemma delete_case5_near:
  assumes f: "focus s x (knot d p cp t kp vp (knot d q Black (knot d w Red e kw vw f) kq vq g))" and g: "col g = Black"
  shows "becomes s (delete_case5 p (addr t) s) x
     (knot d w cp (knot d p Black t kp vp e) kw vw (knot d q Black f kq vq g))"
proof -
  define s' where "s' = s\<lparr> rb_nodes := (rb_nodes s)
     (q \<mapsto> \<lparr> rb_key = kq, rb_value = vq, rb_parent = p, rb_left = if d then w else addr g, rb_right = if d then addr g else w, rb_color = Red \<rparr>,
      w \<mapsto> \<lparr> rb_key = kw, rb_value = vw, rb_parent = q, rb_left = if d then addr e else addr f, rb_right = if d then addr f else addr e, rb_color = Black \<rparr>) \<rparr>"
  have f': "focus s' x (knot d p cp t kp vp (knot d q Red (knot d w Black e kw vw f) kq vq g))"
    using f by (cases d) (simp_all add: knot_def focus_simps, (elim conjE, simp add: s'_def)+)
  obtain s1 where "set_color q Red s = Some s1" "set_color w Black s1 = Some s'"
    using f by (cases d) (simp_all add: knot_def focus_simps, (elim conjE, simp add: s'_def)+)
  then have "delete_case5 p (addr t) s = rotate (\<not> d) q s' \<bind> delete_case6 p (addr t)"
    using parent_links [OF f] sibling_knot [OF f] sibling_node [OF f] g
    by (cases d) (auto simp: delete_case5_def rotate_def knot_def [of _ w])
  moreover obtain s'' where r: "rotate (\<not> d) q s' = Some s''" "rb_free s'' = rb_free s" "rb_deferred s'' = rb_deferred s"
    "focus s'' x (knot d p cp t kp vp (knot d w Black e kw vw (knot d q Red f kq vq g)))"
    using rotate_knot_away [OF f'] by (auto simp: becomes_def s'_def)
  moreover have "becomes s'' (delete_case6 p (addr t) s'') x (knot d w cp (knot d p Black t kp vp e) kw vw (knot d q Black f kq vq g))"
    using delete_case6_knot [of s'' x d p cp t kp vp w Black e kw vw q Red "if d then f else g" kq vq "if d then g else f"] r(4)
    by (cases d) (simp_all add: knot_def)
  ultimately show ?thesis
    by (simp add: becomes_def)
qed

lemma delete_case5_far:
  assumes f: "focus s x (knot d p cp t kp vp (knot d q Black b kq vq (PNode w Red e kw vw f)))"
  shows "becomes s (delete_case5 p (addr t) s) x
     (knot d q cp (knot d p Black t kp vp b) kq vq (PNode w Black e kw vw f))"
proof -
  have "delete_case5 p (addr t) s = delete_case6 p (addr t) s"
    using parent_links [OF f] sibling_knot [OF f] sibling_node [OF f]
    by (cases d) (auto simp: delete_case5_def)
  then show ?thesis
    using delete_case6_knot [OF f] by simp
qed

lemma delete_case4_red:
  assumes f: "focus s x (knot d p Red t kp vp (knot e q Black b kq vq g))" and "col b = Black" "col g = Black"
  shows "becomes s (delete_case4 p (addr t) s) x (knot d p Black t kp vp (knot e q Red b kq vq g))"
proof -
  have "delete_case4 p (addr t) s = set_color q Red s \<bind> set_color p Black"
    using sibling_knot [OF f] sibling_node [OF f] color_knot [OF f] assms(2,3)
    by (simp add: delete_case4_def child_color_def)
  then show ?thesis
    using f by (cases d; cases e) (simp_all add: knot_def focus_simps becomes_def, (elim conjE, simp)+)
qed

lemma delete_case4_other:
  assumes f: "focus s x (knot d p cp t kp vp (knot e q Black b kq vq g))" and "cp = Black \<or> col b = Red \<or> col g = Red"
  shows "delete_case4 p (addr t) s = delete_case5 p (addr t) s"
  using sibling_knot [OF f] sibling_node [OF f] color_knot [OF f] assms(2)
  by (cases e; cases cp) (auto simp: delete_case4_def child_color_def)

text \<open>The last three cases together: the sibling is black and something red is near.\<close>

lemma bh_knot [simp]: "bh (knot d n c t k v u) = (if d then bh t else bh u) + (if c = Black then 1 else 0)"
  by (simp add: knot_def)

lemma col_knot [simp]: "col (knot d n c t k v u) = c"
  by (simp add: knot_def)

lemma red_node: "col t = Red \<Longrightarrow> \<exists>n l k v r. t = knot d n Red l k v r"
  by (cases t; cases d) (auto simp: knot_def)

lemma delete_case4_knot:
  assumes f: "focus s x (knot d p c t kp vp (knot d q Black b kq vq g))" (is "focus s x ?t")
    and r: "rb t" "rb b" "rb g" "bh b = bh t" "bh g = bh t" and near: "c = Red \<or> col b = Red \<or> col g = Red"
    and t: "col t = Black"
  shows "\<exists>t'. becomes s (delete_case4 p (addr t) s) x t' \<and> rb t' \<and> bh t' = Suc (bh t) + (if c = Black then 1 else 0)
     \<and> (col t' = Red \<longrightarrow> c = Red) \<and> same_contents t' ?t"
proof -
  consider (red) "c = Red" "col b = Black" "col g = Black" | (far) "col g = Red" | (inner) "col g = Black" "col b = Red"
    using near by (cases "col g"; cases "col b") auto
  then show ?thesis
  proof cases
    case red
    then show ?thesis
      using delete_case4_red [of s x d p t kp vp d q b kq vq g] f r
      by (intro exI conjI, simp) (cases d; simp add: knot_def same_contents_def)+
  next
    case far
    then obtain w l k v h where g: "g = PNode w Red l k v h"
      by (cases g) auto
    then show ?thesis
      using delete_case5_far [of s x d p c t kp vp q b kq vq w l k v h] delete_case4_other [OF f] f r t
      by (intro exI conjI, simp) (cases d; simp add: knot_def same_contents_def)+
  next
    case inner
    then obtain w l k v h where b: "b = knot d w Red l k v h"
      using red_node by blast
    then show ?thesis
      using delete_case5_near [of s x d p c t kp vp q w l k v h kq vq g] delete_case4_other [OF f] f r inner t
      by (intro exI conjI, simp) (cases d; simp add: knot_def same_contents_def)+
  qed
qed

lemma delete_case2_rotate_red:
  assumes f: "focus s x (knot d p c t kp vp (knot d q Red b kq vq g))"
  shows "becomes s (delete_case2_rotate p (addr t) s) x (knot d q Black (knot d p Red t kp vp b) kq vq g)"
proof -
  obtain s1 s' where s: "set_color p Red s = Some s1" "set_color q Black s1 = Some s'" "rb_free s' = rb_free s" "rb_deferred s' = rb_deferred s"
    and f': "focus s' x (knot d p Red t kp vp (knot d q Black b kq vq g))"
    using f by (cases d) (simp_all add: knot_def focus_simps, (elim conjE, simp)+)
  have "delete_case2_rotate p (addr t) s = rotate d p s'"
    using sibling_knot [OF f] sibling_node [OF f] parent_links [OF f'] s
    by (auto simp: delete_case2_rotate_def rotate_def)
  then show ?thesis
    using rotate_knot [OF f'] s by (simp add: becomes_def)
qed

lemma delete_case2_rotate_black:
  assumes f: "focus s x (knot d p c t kp vp (knot e q Black b kq vq g))"
  shows "delete_case2_rotate p (addr t) s = Some s"
  using sibling_knot [OF f] sibling_node [OF f] by (simp add: delete_case2_rotate_def)

lemma all_black_knot:
  assumes f: "focus s x (knot d p c t kp vp (knot e q cq b kq vq g))"
  shows "all_black p q s = Some (c = Black \<and> cq = Black \<and> col b = Black \<and> col g = Black)"
  using sibling_knot [OF f] sibling_node [OF f] color_knot [OF f] knot_addrs [OF f]
  by (cases e; cases c; cases cq) (auto simp: all_black_def child_color_def)

text \<open>Case 3: everything is black, the sibling turns red and the hole moves up.\<close>

lemma delete_case1_all_black:
  assumes f: "focus s x (knot d p Black t kp vp (knot e q Black b kq vq g))" and "col b = Black" "col g = Black"
  shows "\<exists>s'. delete_case1 p (addr t) s = delete_case1 (cparent x) p s' \<and> rb_free s' = rb_free s \<and> rb_deferred s' = rb_deferred s
     \<and> focus s' x (knot d p Black t kp vp (knot e q Red b kq vq g))"
proof -
  obtain s' where s: "set_color q Red s = Some s'" "rb_free s' = rb_free s" "rb_deferred s' = rb_deferred s"
    and f': "focus s' x (knot d p Black t kp vp (knot e q Red b kq vq g))"
    using f by (cases d; cases e) (simp_all add: knot_def focus_simps)
  have "delete_case1 p (addr t) s = delete_case1 (cparent x) p s'"
    using sibling_knot [OF f] delete_case2_rotate_black [OF f] all_black_knot [OF f] knot_node [OF f'] s assms(2,3)
    by (subst delete_case1.simps) (simp add: rb_get_def)
  then show ?thesis
    using s f' by blast
qed

lemma delete_case1_black_sibling:
  assumes f: "focus s x (knot d p c t kp vp (knot e q Black b kq vq g))" and "c = Red \<or> col b = Red \<or> col g = Red"
  shows "delete_case1 p (addr t) s = delete_case4 p (addr t) s"
  using sibling_knot [OF f] delete_case2_rotate_black [OF f] all_black_knot [OF f] knot_node [OF f] assms(2)
  by (subst delete_case1.simps) auto

lemma node_knot: "bh t = Suc h \<Longrightarrow> \<exists>n l k v r. t = knot d n (col t) l k v r"
  by (cases t; cases d) (auto simp: knot_def)

lemma delete_case1_red_sibling:
  assumes f: "focus s x (knot d p Black t kp vp (knot d q Red b kq vq g))" (is "focus s x ?t")
    and r: "rb t" "col t = Black" "rb b" "rb g" "bh b = Suc (bh t)" "bh g = Suc (bh t)" "col b = Black" "col g = Black"
  shows "\<exists>t'. becomes s (delete_case1 p (addr t) s) x t' \<and> rb t' \<and> bh t' = Suc (Suc (bh t)) \<and> col t' = Black \<and> same_contents t' ?t"
proof -
  obtain s1 where s1: "delete_case2_rotate p (addr t) s = Some s1" "rb_free s1 = rb_free s" "rb_deferred s1 = rb_deferred s"
    "focus s1 (hole d q Black kq vq g x) (knot d p Red t kp vp b)"
    using delete_case2_rotate_red [OF f] by (auto simp: becomes_def focus_hole)
  obtain w e kw vw h where b: "b = knot d w Black e kw vw h"
    using node_knot [OF r(5)] r(7) by metis
  note f1 = s1(4) [unfolded b]
  have n: "rb e" "rb h" "bh e = bh t" "bh h = bh t"
    using r(3,5) by (simp_all add: b rb_knot split: if_splits)
  obtain t' where t': "becomes s1 (delete_case4 p (addr t) s1) (hole d q Black kq vq g x) t'" "rb t'" "bh t' = Suc (bh t)"
    "same_contents t' (knot d p Red t kp vp b)"
    using delete_case4_knot [OF f1 r(1) n] r(2) b by auto
  have "delete_case1 p (addr t) s = delete_case4 p (addr t) s1"
    using s1(1) sibling_knot [OF f1] all_black_knot [OF f1] knot_node [OF f]
    by (subst delete_case1.simps) simp
  moreover have "becomes s1 (delete_case4 p (addr t) s1) x (knot d q Black t' kq vq g)"
    using t'(1) by (simp add: becomes_def focus_hole)
  ultimately have "becomes s (delete_case1 p (addr t) s) x (knot d q Black t' kq vq g)"
    using s1 by (simp add: becomes_def)
  moreover have "rb (knot d q Black t' kq vq g)" "bh (knot d q Black t' kq vq g) = Suc (Suc (bh t))"
    using t' r by (simp_all add: rb_knot)
  moreover have "same_contents (knot d q Black t' kq vq g) ?t"
    using t'(4) by (cases d) (simp_all add: same_contents_def knot_def)
  ultimately show ?thesis
    by (intro exI conjI) (assumption, simp_all)
qed

lemma becomes_plug: "becomes s r x t \<Longrightarrow> becomes s r Top (plug x t)"
  by (simp add: becomes_def focus_plug)

text \<open>One step: the missing black node is made up for below \<open>y\<close>, or the hole moves up to \<open>y\<close>.\<close>

lemma delete_step:
  assumes f: "focus s y (knot d p cp t kp vp u)"
    and r: "rb t" "col t = Black" "rb u" "bh u = Suc (bh t)" "cp = Red \<longrightarrow> col u = Black"
  shows "(\<exists>t'. becomes s (delete_case1 p (addr t) s) y t' \<and> rb t' \<and> bh t' = Suc (bh t) + (if cp = Black then 1 else 0)
        \<and> (col t' = Red \<longrightarrow> cp = Red) \<and> same_contents t' (knot d p cp t kp vp u))
     \<or> (\<exists>s' u'. delete_case1 p (addr t) s = delete_case1 (cparent y) (addr u') s' \<and> rb_free s' = rb_free s
        \<and> rb_deferred s' = rb_deferred s \<and> focus s' y u' \<and> rb u' \<and> col u' = Black \<and> cp = Black \<and> bh u' = Suc (bh t)
        \<and> same_contents u' (knot d p cp t kp vp u))"
proof -
  obtain q cq b kq vq g where q: "u = knot d q cq b kq vq g"
    using node_knot [OF r(4)] by metis
  have kids: "rb b" "rb g" "bh b = bh g" "cq = Red \<longrightarrow> col b = Black \<and> col g = Black"
    using r(3) by (auto simp: q rb_knot)
  consider (rotated) "cq = Red" | (moved) "cq = Black" "cp = Black" "col b = Black" "col g = Black"
    | (last) "cq = Black" "cp = Red \<or> col b = Red \<or> col g = Red"
    by (metis not_red)
  then show ?thesis
  proof cases
    case rotated
    then have cp: "cp = Black" and h: "bh b = Suc (bh t)" "bh g = Suc (bh t)"
      using r kids by (auto simp: q split: if_splits)
    then show ?thesis
      using delete_case1_red_sibling [OF f [unfolded q rotated cp] r(1,2) kids(1,2) h] kids(4) rotated by (intro disjI1) (simp add: q)
  next
    case moved
    then have h: "bh b = bh t" "bh g = bh t"
      using r kids by (auto simp: q split: if_splits)
    obtain s' where s': "delete_case1 p (addr t) s = delete_case1 (cparent y) p s'" "rb_free s' = rb_free s"
      "rb_deferred s' = rb_deferred s" "focus s' y (knot d p Black t kp vp (knot d q Red b kq vq g))" (is "focus s' y ?t'")
      using delete_case1_all_black [OF f [unfolded q moved(1,2)] moved(3,4)] by blast
    have "rb ?t'" "bh ?t' = Suc (bh t)" "same_contents ?t' (knot d p cp t kp vp u)"
      using r kids h moved by (simp_all add: rb_knot) (cases d; simp add: same_contents_def knot_def q)
    then show ?thesis
      using s' moved by (intro disjI2 exI [of _ s'] exI [of _ ?t']) simp
  next
    case last
    then have h: "bh b = bh t" "bh g = bh t"
      using r kids by (auto simp: q split: if_splits)
    then show ?thesis
      using delete_case4_knot [OF f [unfolded q last(1)] r(1) kids(1,2) h last(2) r(2)]
        delete_case1_black_sibling [OF f [unfolded q last(1)] last(2)] last(1) by (intro disjI1) (simp add: q)
  qed
qed

text \<open>The repair makes up for a subtree that has lost a black node.\<close>

lemma delete_repair:
  assumes "focus s x t" "rb t" "col t = Black" "crb x (Suc (bh t))"
  shows "\<exists>t'. becomes s (delete_case1 (cparent x) (addr t) s) Top t' \<and> rb_tree t' \<and> same_contents t' (plug x t)"
  using assms
proof (induction "size x" arbitrary: s x t rule: less_induct)
  case (less x s t)
  note f = less.prems(1) and r = less.prems(2,3) and c = less.prems(4)
  show ?case
  proof (cases "x = Top")
    case True
    then show ?thesis
      using f r by (intro exI [of _ t]) (subst delete_case1.simps, simp add: becomes_def rb_tree_def)
  next
    case False
    then obtain d p cp kp vp u y where x: "x = hole d p cp kp vp u y"
      using ctx_hole by metis
    have u: "rb u" "bh u = Suc (bh t)" "cp = Red \<longrightarrow> col u = Black" "cp = Red \<longrightarrow> ccol y = Black"
      "crb y (Suc (bh t) + (if cp = Black then 1 else 0))"
      using c by (simp_all add: x crb_hole)
    have f': "focus s y (knot d p cp t kp vp u)" and p: "cparent x = p" and px: "plug x t = plug y (knot d p cp t kp vp u)"
      using f by (simp_all add: x focus_hole plug_hole) (simp add: hole_def)
    from delete_step [OF f' r u(1-3)] show ?thesis
    proof (elim disjE exE conjE)
      fix t'
      assume "becomes s (delete_case1 p (addr t) s) y t'" "rb t'" "bh t' = Suc (bh t) + (if cp = Black then 1 else 0)"
        "col t' = Red \<longrightarrow> cp = Red" "same_contents t' (knot d p cp t kp vp u)"
      then show ?thesis
        using u(4,5) unfolding p px by (intro exI [of _ "plug y t'"]) (simp add: becomes_plug rb_tree_plug same_contents_plug)
    next
      fix s' u'
      assume s': "delete_case1 p (addr t) s = delete_case1 (cparent y) (addr u') s'" "rb_free s' = rb_free s"
        "rb_deferred s' = rb_deferred s" "focus s' y u'" "rb u'" "col u' = Black" "cp = Black" "bh u' = Suc (bh t)"
        "same_contents u' (knot d p cp t kp vp u)"
      have "size y < size x" "crb y (Suc (bh u'))"
        using u(5) s'(7,8) size_hole by (simp_all add: x)
      then obtain t' where t': "becomes s' (delete_case1 (cparent y) (addr u') s') Top t'" "rb_tree t'" "same_contents t' (plug y u')"
        using less.hyps [of y s' u'] s'(4-6) by blast
      then have "becomes s (delete_case1 p (addr t) s) Top t'"
        using s'(1-3) by (simp add: becomes_def)
      then show ?thesis
        using t'(2) same_contents_trans [OF t'(3) same_contents_plug [OF s'(9)]] unfolding p px by blast
    qed
  qed
qed

section \<open>Unlinking a node\<close>

lemma replace_node_focus:
  assumes "focus s x (PNode n c l k v r)" and "l = PLeaf \<and> t = r \<or> r = PLeaf \<and> t = l"
  shows "\<exists>s'. replace_node n (addr t) s = Some s' \<and> focus s' x t \<and> rb_free s' = rb_free s \<and> rb_deferred s' = rb_deferred s
     \<and> rb_nodes s' n = rb_nodes s n"
proof (cases x)
  case Top
  then show ?thesis
    using assms by (cases t) (auto simp: replace_node_def focus_simps)
next
  case (InL m cm km vm u y)
  then show ?thesis
    using assms by (cases t) (auto simp: replace_node_def focus_simps)
next
  case (InR m cm u km vm y)
  then have "addr u \<noteq> n"
    using assms addr_other [of "rb_nodes s" m u n] by (simp add: focus_def)
  then show ?thesis
    using InR assms by (cases t) (auto simp: replace_node_def focus_simps)
qed

lemma focus_deferred: "focus (s\<lparr> rb_deferred := ds \<rparr>) x t = focus s x t"
  by (simp add: focus_def)

lemma single_child:
  assumes "rb (PNode n c l k v r)" and "l = PLeaf \<and> t = r \<or> r = PLeaf \<and> t = l"
  shows "rb t" "c = Red \<Longrightarrow> t = PLeaf" "bh t = 0" "bh (PNode n c l k v r) = (if c = Black then 1 else 0)"
    "t = PLeaf \<or> (\<exists>m km vm. t = PNode m Red PLeaf km vm PLeaf)"
proof -
  have b: "bh u = 0 \<Longrightarrow> rb u \<Longrightarrow> u = PLeaf \<or> (\<exists>m km vm. u = PNode m Red PLeaf km vm PLeaf)" for u :: "('a, 'b) ptree"
  proof (cases u)
    case (PNode m cm lm km vm rm)
    then show "bh u = 0 \<Longrightarrow> rb u \<Longrightarrow> ?thesis"
      by (cases lm; cases rm) (auto split: if_splits)
  qed simp
  show t: "rb t" "bh t = 0" "bh (PNode n c l k v r) = (if c = Black then 1 else 0)"
    using assms by auto
  show "t = PLeaf \<or> (\<exists>m km vm. t = PNode m Red PLeaf km vm PLeaf)"
    using b t by simp
  then show "c = Red \<Longrightarrow> t = PLeaf"
    using assms by auto
qed

text \<open>What \<open>delete_one_child\<close> does after it has unlinked a black node above the child \<open>t\<close>.\<close>

lemma repair_child:
  assumes f: "focus s x t" and t: "t = PLeaf \<or> (\<exists>m km vm. t = PNode m Red PLeaf km vm PLeaf)" and c: "crb x (Suc 0)"
  shows "\<exists>t'. becomes s (if col t = Red then set_color (addr t) Black s else delete_case1 (cparent x) (addr t) s) Top t'
     \<and> rb_tree t' \<and> same_contents t' (plug x t)"
proof (cases "t = PLeaf")
  case True
  then show ?thesis
    using delete_repair [OF f] c by simp
next
  case False
  then obtain m km vm where m: "t = PNode m Red PLeaf km vm PLeaf"
    using t by blast
  then have "becomes s (set_color m Black s) Top (plug x (PNode m Black PLeaf km vm PLeaf))"
    using set_color_focus [of s x m Red PLeaf km vm PLeaf Black] f by (simp add: becomes_plug)
  moreover have "same_contents (PNode m Black PLeaf km vm PLeaf) t"
    by (simp add: m same_contents_def)
  ultimately show ?thesis
    using c by (intro exI conjI) (simp add: m, simp_all add: rb_tree_plug same_contents_plug)
qed

lemma delete_one_child_focus:
  assumes f: "focus s x (PNode n c l k v r)" and one: "l = PLeaf \<and> t = r \<or> r = PLeaf \<and> t = l"
    and ok: "rb_tree (plug x (PNode n c l k v r))"
  shows "\<exists>s' t'. delete_one_child n s = Some s' \<and> focus s' Top t' \<and> rb_tree t' \<and> rb_free s' = rb_free s
     \<and> rb_deferred s' = rb_deferred s @ [n] \<and> same_contents t' (plug x t)"
proof -
  have r: "rb (PNode n c l k v r)" "crb x (bh (PNode n c l k v r))" "c = Red \<longrightarrow> ccol x = Black"
    using ok by (simp_all add: rb_tree_plug del: bh.simps rb.simps)
  note t = single_child [OF r(1) one]
  obtain s1 where s1: "replace_node n (addr t) s = Some s1" "focus s1 x t" "rb_free s1 = rb_free s" "rb_deferred s1 = rb_deferred s"
    "rb_nodes s1 n = rb_nodes s n"
    using replace_node_focus [OF f one] by blast
  have n: "rb_nodes s n = Some \<lparr> rb_key = k, rb_value = v, rb_parent = cparent x, rb_left = addr l, rb_right = addr r, rb_color = c \<rparr>"
    "rep (rb_nodes s) n r"
    using f by (simp_all add: focus_def)
  have child: "(if addr r = 0 then rb_get rb_left n s else Some (addr r)) = Some (addr t)"
    using one addr_zero [OF n(2)] n(1) by (auto simp: rb_get_def)
  define repair where "repair = (if c = Black then do {
       cc \<leftarrow> color_of (addr t) s1;
       if cc = Red then set_color (addr t) Black s1
       else do { parent \<leftarrow> rb_get rb_parent n s1; delete_case1 parent (addr t) s1 }
     } else Some s1)"
  have e: "delete_one_child n s = repair \<bind> (\<lambda>s. Some (s\<lparr> rb_deferred := rb_deferred s @ [n] \<rparr>))"
    using child s1 n by (simp add: delete_one_child_def repair_def rb_get_def)
  have cc: "color_of (addr t) s1 = Some (col t)"
    using color_of_rep [of s1 "cparent x" t] s1(2) by (simp add: focus_def)
  have "\<exists>t'. becomes s1 repair Top t' \<and> rb_tree t' \<and> same_contents t' (plug x t)"
  proof (cases "c = Red")
    case True
    then have "t = PLeaf" by (rule t(2))
    then show ?thesis
      using s1(2) r True t by (intro exI [of _ "plug x t"]) (simp add: repair_def becomes_def focus_plug rb_tree_plug)
  next
    case False
    then have "repair = (if col t = Red then set_color (addr t) Black s1 else delete_case1 (cparent x) (addr t) s1)"
      using cc s1(5) n(1) by (simp add: repair_def rb_get_def)
    then show ?thesis
      using repair_child [OF s1(2) t(5)] r(2) False t(4) by simp
  qed
  then show ?thesis
    using s1 by (auto simp: e becomes_def focus_deferred)
qed

section \<open>The successor\<close>

fun leftmost :: "('k, 'v) ptree \<Rightarrow> ('k, 'v) ctx \<Rightarrow> ('k, 'v) ctx \<times> ('k, 'v) ptree" where
  "leftmost (PNode n c l k v r) x = (if l = PLeaf then (x, PNode n c l k v r) else leftmost l (InL n c k v r x))"
| "leftmost PLeaf x = (x, PLeaf)"

lemma leftmost_plug: "leftmost t x = (y, u) \<Longrightarrow> plug y u = plug x t"
  by (induction t x rule: leftmost.induct) (auto split: if_splits)

lemma leftmost_lefts: "leftmost t x = (y, u) \<Longrightarrow> lefts y = lefts x"
  by (induction t x rule: leftmost.induct) (auto split: if_splits)

lemma leftmost_node: "leftmost t x = (y, u) \<Longrightarrow> t \<noteq> PLeaf \<Longrightarrow> \<exists>m c k v r. u = PNode m c PLeaf k v r"
  by (induction t x rule: leftmost.induct) (auto split: if_splits)

lemma leftmost_same: "snd (leftmost t x) = snd (leftmost t z)"
proof (induction t arbitrary: x z)
  case (PNode n c l k v r)
  show ?case
    by (cases "l = PLeaf") (simp, simp, rule PNode.IH(1))
qed simp

lemma min_node_focus:
  "focus s x t \<Longrightarrow> t \<noteq> PLeaf \<Longrightarrow> min_node (addr t) s = Some (addr (snd (leftmost t x)))"
proof (induction t x rule: leftmost.induct)
  case (1 n c l k v r x)
  then have n: "rb_get rb_left n s = Some (addr l)" "rep (rb_nodes s) n l" and f: "focus s (InL n c k v r x) l"
    by (simp add: focus_def rb_get_def, simp add: focus_def, simp add: focus_InL)
  show ?case
  proof (cases "l = PLeaf")
    case True
    then show ?thesis
      using n by (subst addr.simps, subst min_node.simps) simp
  next
    case False
    then show ?thesis
      using n 1(1) [OF False f False] addr_zero [OF n(2)] by (subst addr.simps, subst min_node.simps) simp
  qed
qed simp

lemma set_entry_focus:
  "focus s x (PNode n c l k v r) \<Longrightarrow>
     \<exists>s1. rb_set (rb_key_update (\<lambda>_. k')) n s = Some s1
     \<and> (\<exists>s2. rb_set (rb_value_update (\<lambda>_. v')) n s1 = Some s2 \<and> focus s2 x (PNode n c l k' v' r)
        \<and> rb_free s2 = rb_free s \<and> rb_deferred s2 = rb_deferred s) \<and> (\<forall>m. m \<noteq> n \<longrightarrow> rb_nodes s1 m = rb_nodes s m)"
  by (simp add: focus_simps)

section \<open>Erasing\<close>

text \<open>The node \<open>n\<close> loses its entry; the node that is freed is \<open>n\<close> itself or its successor.\<close>

definition erased :: "('k, 'v) rbt \<Rightarrow> ('k, 'v) rbt option \<Rightarrow> ('k, 'v) ptree \<Rightarrow> ('k \<times> 'v) list \<Rightarrow> bool" where
  "erased s r t es \<longleftrightarrow> (\<exists>s' t' m. r = Some s' \<and> focus s' Top t' \<and> rb_tree t' \<and> entries t' = es
     \<and> rb_free s' = rb_free s \<and> rb_deferred s' = rb_deferred s @ [m] \<and> add_mset m (mset (addrs t')) = mset (addrs t))"

lemma delete_one_child_erased:
  assumes "focus s x (PNode n c l k v r)" "l = PLeaf \<or> r = PLeaf" "rb_tree (plug x (PNode n c l k v r))"
  shows "erased s (delete_one_child n s) (plug x (PNode n c l k v r)) (lefts x @ entries l @ entries r @ rights x)"
proof -
  let ?t = "if r = PLeaf then l else r"
  obtain s' t' where "delete_one_child n s = Some s'" "focus s' Top t'" "rb_tree t'" "rb_free s' = rb_free s"
     "rb_deferred s' = rb_deferred s @ [n]" "same_contents t' (plug x ?t)"
    using delete_one_child_focus [OF assms(1) _ assms(3), of ?t] assms(2) by auto
  then show ?thesis
    unfolding erased_def using assms(2)
    by (intro exI [of _ s'] exI [of _ t'] exI [of _ n]) (auto simp: same_contents_def entries_plug mset_addrs_plug)
qed

lemma leftmost_addr: "leftmost t x = (y, u) \<Longrightarrow> t \<noteq> PLeaf \<Longrightarrow> addr u \<in> set (addrs t)"
  by (induction t x rule: leftmost.induct) (auto split: if_splits)

lemma erase_impl_erased:
  assumes f: "focus s x (PNode n c l k v r)" and ok: "rb_tree (plug x (PNode n c l k v r))"
  shows "erased s (erase_impl n s) (plug x (PNode n c l k v r)) (lefts x @ entries l @ entries r @ rights x)"
proof -
  have n: "rb_get rb_left n s = Some (addr l)" "rb_get rb_right n s = Some (addr r)"
      "rep (rb_nodes s) n l" "rep (rb_nodes s) n r"
    using f by (simp_all add: focus_def rb_get_def)
  note z = addr_zero [OF n(3)] addr_zero [OF n(4)]
  show ?thesis
  proof (cases "l = PLeaf \<or> r = PLeaf")
    case True
    then show ?thesis
      using delete_one_child_erased [OF f True ok] n z by (auto simp: erase_impl_def)
  next
    case False
    obtain y u where y: "leftmost r (InR n c l k v x) = (y, u)" by fastforce
    obtain m cm km vm rm where u: "u = PNode m cm PLeaf km vm rm"
      using leftmost_node [OF y] False by blast
    have "focus s (InR n c l k v x) r"
      using f by (simp add: focus_InR)
    then have mn: "min_node (addr r) s = Some m"
      using min_node_focus [of s "InR n c l k v x" r] False y u by simp
    have fu: "focus s y u"
      using f leftmost_plug [OF y] by (metis focus_InR focus_plug)
    have mr: "m \<noteq> n" "rb_nodes s m = Some \<lparr> rb_key = km, rb_value = vm, rb_parent = cparent y, rb_left = 0, rb_right = addr rm, rb_color = cm \<rparr>"
      using fu f leftmost_addr [OF y] False u by (auto simp: focus_def)
    obtain s1 s2 where s: "rb_set (rb_key_update (\<lambda>_. km)) n s = Some s1" "rb_set (rb_value_update (\<lambda>_. vm)) n s1 = Some s2"
      "focus s2 x (PNode n c l km vm r)" "rb_free s2 = rb_free s" "rb_deferred s2 = rb_deferred s" "rb_nodes s1 m = rb_nodes s m"
      using set_entry_focus [OF f, of km vm] mr by blast
    have "rb_get rb_key m s = Some km" "rb_get rb_value m s1 = Some vm"
      using mr s by (simp_all add: rb_get_def)
    then have e: "erase_impl n s = delete_one_child m s2"
      using n(1,2) z False mn s by (simp add: erase_impl_def)
    obtain y' where y': "leftmost r (InR n c l km vm x) = (y', u)"
      using leftmost_same [of r "InR n c l k v x" "InR n c l km vm x"] y by (metis prod.collapse snd_conv)
    have p: "plug y' (PNode m cm PLeaf km vm rm) = plug x (PNode n c l km vm r)" "lefts y' = lefts x @ entries l @ [(km, vm)]"
      using leftmost_plug [OF y'] leftmost_lefts [OF y'] u by simp_all
    then have "focus s2 y' (PNode m cm PLeaf km vm rm)"
      using s(3) focus_plug by metis
    moreover have "rb_tree (plug y' (PNode m cm PLeaf km vm rm))"
      using ok by (cases c) (auto simp: p rb_tree_plug)
    ultimately have "erased s2 (delete_one_child m s2) (plug x (PNode n c l km vm r)) (lefts y' @ entries PLeaf @ entries rm @ rights y')"
      using delete_one_child_erased [of s2 y' m cm PLeaf km vm rm] p by simp
    moreover have "lefts y' @ entries PLeaf @ entries rm @ rights y' = lefts x @ entries l @ entries r @ rights x"
      using arg_cong [OF p(1), of entries] p(2) by (simp add: entries_plug)
    moreover have "mset (addrs (plug x (PNode n c l km vm r))) = mset (addrs (plug x (PNode n c l k v r)))"
      by (simp add: mset_addrs_plug)
    ultimately show ?thesis
      using s by (simp add: erased_def e)
  qed
qed

context strict_weak_order begin

lemma erase_one_ok:
  assumes "rbt_ok lt s es"
  shows "\<exists>b s'. erase_one lt key s = Some (b, s') \<and> rb_free s' = rb_free s
     \<and> (if b then \<exists>xs k v ys. es = xs @ (k, v) # ys \<and> \<not> lt key k \<and> \<not> lt k key \<and> rbt_ok lt s' (xs @ ys)
        else s' = s \<and> (\<forall>e \<in> set es. lt key (fst e) \<or> lt (fst e) key))"
proof -
  obtain t where t: "focus s Top t" "sorted_by lt (entries t)" "entries t = es" "rb_tree t"
    and d: "distinct (addrs t @ rb_deferred s @ rb_free s)" "0 \<notin> set (rb_free s)"
    using assms by (auto simp: rbt_ok_def)
  obtain y u where u: "rbtree_find lt key s = Some (addr u)" "plug y u = t"
     "case u of PLeaf \<Rightarrow> \<forall>e \<in> set es. lt key (fst e) \<or> lt (fst e) key | PNode n c l k v r \<Rightarrow> \<not> lt key k \<and> \<not> lt k key"
    using find_descend [of s Top t es key, unfolded plug.simps, OF t(1-3)] t(1) by (auto simp: rbtree_find_def focus_def)
  show ?thesis
  proof (cases u)
    case PLeaf
    then show ?thesis using u by (intro exI [of _ False]) (simp add: erase_one_def)
  next
    case (PNode n c l k v r)
    have f: "focus s y (PNode n c l k v r)"
      using t(1) u(2) PNode focus_plug by metis
    obtain s' t' m where s': "erase_impl n s = Some s'" "focus s' Top t'" "rb_tree t'" "rb_free s' = rb_free s"
      "rb_deferred s' = rb_deferred s @ [m]" "entries t' = lefts y @ entries l @ entries r @ rights y"
      "add_mset m (mset (addrs t')) = mset (addrs t)"
      using erase_impl_erased [OF f] t(4) u(2) PNode by (auto simp: erased_def)
    have es: "es = (lefts y @ entries l) @ (k, v) # (entries r @ rights y)"
      using t(3) u(2) PNode by (simp add: entries_plug flip: u(2))
    have "sorted_by lt ((lefts y @ entries l) @ (entries r @ rights y))"
      using t(2,3) es by (auto simp: sorted_by_append sorted_by_Cons)
    moreover
    have "mset (addrs t' @ rb_deferred s' @ rb_free s') = mset (addrs t @ rb_deferred s @ rb_free s)"
      by (simp add: s' flip: s'(7))
    then have "distinct (addrs t' @ rb_deferred s' @ rb_free s')"
      using d(1) mset_eq_imp_distinct_iff by blast
    ultimately have "rbt_ok lt s' ((lefts y @ entries l) @ (entries r @ rights y))"
      unfolding rbt_ok_def using s' d(2) by (intro exI [of _ t']) simp
    moreover have "erase_one lt key s = Some (True, s')"
      using u(1) f s'(1) PNode by (simp add: erase_one_def focus_def)
    moreover have "\<not> lt key k" "\<not> lt k key"
      using u(3) PNode by simp_all
    ultimately show ?thesis
      using s'(4) es by (intro exI [of _ True] exI [of _ s'], unfold if_True, blast)
  qed
qed

end

end
