(* ===== verification/RBTree_Destroy.thy ===== *)
theory RBTree_Destroy
  imports RBTree_Delete
begin

text \<open>
  Destroying a tree node by node without recursion: every round frees the leftmost node and moves the
  right subtree of its parent to the left. The lemmas say which nodes are freed, in which order, and
  that no node is freed twice.
\<close>

section \<open>Trees without parent pointers\<close>

text \<open>The loop neither reads nor updates parent pointers.\<close>

primrec rep2 :: "(uword \<Rightarrow> ('k, 'v) rb_node option) \<Rightarrow> ('k, 'v) ptree \<Rightarrow> bool" where
  "rep2 h PLeaf \<longleftrightarrow> True"
| "rep2 h (PNode n c l k v r) \<longleftrightarrow> n \<noteq> 0
     \<and> (\<exists>p. h n = Some \<lparr> rb_key = k, rb_value = v, rb_parent = p, rb_left = addr l, rb_right = addr r, rb_color = c \<rparr>)
     \<and> rep2 h l \<and> rep2 h r"

lemma rep_rep2: "rep h p t \<Longrightarrow> rep2 h t"
  by (induction t arbitrary: p) auto

lemma rep2_upd [simp]: "n \<notin> set (addrs t) \<Longrightarrow> rep2 (h(n := d)) t = rep2 h t"
  by (induction t) auto

lemma addr_zero2: "rep2 h t \<Longrightarrow> addr t = 0 \<longleftrightarrow> t = PLeaf"
  by (cases t) auto

section \<open>One round\<close>

text \<open>The node freed in a round and what is left of a tree whose root has a left child.\<close>

fun round_leaf :: "('k, 'v) ptree \<Rightarrow> uword" where
  "round_leaf (PNode n c l k v r) = (if l = PLeaf then n else round_leaf l)"
| "round_leaf PLeaf = 0"

fun round_rest :: "('k, 'v) ptree \<Rightarrow> ('k, 'v) ptree" where
  "round_rest (PNode n c (PNode m cm l km vm r') k v r) =
     (if l = PLeaf then PNode n c r k v PLeaf else PNode n c (round_rest (PNode m cm l km vm r')) k v r)"
| "round_rest t = t"

definition has_left :: "('k, 'v) ptree \<Rightarrow> bool" where
  "has_left t \<longleftrightarrow> (case t of PNode n c (PNode m cm l km vm r') k v r \<Rightarrow> True | _ \<Rightarrow> False)"

lemma has_left_simps [simp]:
  "\<not> has_left PLeaf" "has_left (PNode n c l k v r) \<longleftrightarrow> l \<noteq> PLeaf"
  by (auto simp: has_left_def split: ptree.splits)

lemma addr_round_rest [simp]: "addr (round_rest t) = addr t"
  by (cases t rule: round_rest.cases) simp_all

text \<open>The loop of a round, one level of the left spine at a time.\<close>

lemma rep2_cong: "(\<And>n. n \<in> set (addrs t) \<Longrightarrow> h' n = h n) \<Longrightarrow> rep2 h t \<Longrightarrow> rep2 h' t"
  by (induction t) auto

lemma addrs_round:
  "l \<noteq> PLeaf \<Longrightarrow> add_mset (round_leaf l) (mset (addrs (round_rest (PNode n c l k v r)))) \<subseteq># mset (addrs (PNode n c l k v r))"
proof (induction l arbitrary: n c k v r)
  case (PNode m cm l km vm r')
  show ?case
  proof (cases "l = PLeaf")
    case False
    then show ?thesis
      using subset_mset.add_right_mono [OF PNode.IH(1) [OF False, of m cm km vm r'], of "add_mset n (mset (addrs r))"]
      by (simp add: ac_simps)
  qed simp
qed simp

lemma round_rest_leaf [simp]: "round_rest t = PLeaf \<longleftrightarrow> t = PLeaf"
  by (cases t rule: round_rest.cases) simp_all

definition destroy_round :: "uword \<Rightarrow> uword \<Rightarrow> ('k, 'v) rbt \<Rightarrow> ('k, 'v) rbt option" where
  "destroy_round parent leaf s = do {
     r \<leftarrow> rb_get rb_right parent s;
     s \<leftarrow> set_left parent r s;
     s \<leftarrow> set_right parent 0 s;
     rb_release leaf s
   }"

lemma destroy_calls_round:
  "destroy_deallocate_subtree node s = do {
     left \<leftarrow> rb_get rb_left node s;
     if left \<noteq> 0 then do {
       (parent, leaf) \<leftarrow> leftmost_leaf node left s;
       s \<leftarrow> destroy_round parent leaf s;
       destroy_deallocate_subtree node s
     }
     else rb_release node s
   }"
  by (subst destroy_deallocate_subtree.simps) (simp only: destroy_round_def case_prod_unfold Option.bind_assoc)

lemma destroy_round_rep:
  assumes "rep2 (rb_nodes s) (PNode n c l k v r)" "l \<noteq> PLeaf" "distinct (addrs (PNode n c l k v r))"
  shows "\<exists>p s'. leftmost_leaf n (addr l) s = Some (p, round_leaf l) \<and> destroy_round p (round_leaf l) s = Some s'
     \<and> rb_free s' = round_leaf l # rb_free s
     \<and> (\<forall>m. m \<notin> set (addrs (PNode n c l k v r)) \<longrightarrow> rb_nodes s' m = rb_nodes s m)
     \<and> rep2 (rb_nodes s') (round_rest (PNode n c l k v r))"
  using assms
proof (induction l arbitrary: n c k v r)
  case (PNode m cm l km vm r')
  show ?case
  proof (cases "l = PLeaf")
    case True
    then have "leftmost_leaf n m s = Some (n, m)"
      using PNode.prems(1) by (subst leftmost_leaf.simps) (auto simp: rb_get_def)
    moreover have "m \<noteq> n" "m \<notin> set (addrs r)" "n \<notin> set (addrs r)"
      using PNode.prems(3) by auto
    ultimately show ?thesis
      using PNode.prems(1) True by (auto simp: destroy_round_def rb_get_def rb_set_def rb_release_def)
  next
    case False
    have d: "distinct (addrs (PNode m cm l km vm r'))" "n \<notin> set (addrs (PNode m cm l km vm r'))"
      "set (addrs (PNode m cm l km vm r')) \<inter> set (addrs r) = {}"
      using PNode.prems(3) by auto
    obtain p s' where s': "leftmost_leaf m (addr l) s = Some (p, round_leaf l)" "destroy_round p (round_leaf l) s = Some s'"
      "rb_free s' = round_leaf l # rb_free s" "\<forall>i. i \<notin> set (addrs (PNode m cm l km vm r')) \<longrightarrow> rb_nodes s' i = rb_nodes s i"
      "rep2 (rb_nodes s') (round_rest (PNode m cm l km vm r'))"
      using PNode.IH(1) [of m cm km vm r'] PNode.prems(1) False d(1) by auto
    have "leftmost_leaf n m s = Some (p, round_leaf l)"
      using s'(1) PNode.prems(1) False by (subst leftmost_leaf.simps) (auto simp: rb_get_def addr_zero2)
    moreover have frame: "rb_nodes s' i = rb_nodes s i" if "i \<notin> set (addrs (PNode n c (PNode m cm l km vm r') k v r))" for i
      using s'(4) that by simp
    moreover have "rep2 (rb_nodes s') r"
    proof (rule rep2_cong)
      show "rb_nodes s' i = rb_nodes s i" if "i \<in> set (addrs r)" for i
        using s'(4) d(3) that by blast
      show "rep2 (rb_nodes s) r"
        using PNode.prems(1) by simp
    qed
    moreover have "rb_nodes s' n = rb_nodes s n"
      using s'(4) d(2) by blast
    then have "rep2 (rb_nodes s') (round_rest (PNode n c (PNode m cm l km vm r') k v r))"
      using s'(5) PNode.prems(1) False calculation(3) by simp
    ultimately show ?thesis
      using s'(2,3) False by (intro exI [of _ p] exI [of _ s']) (simp only: round_leaf.simps addr.simps if_False simp_thms, blast)
  qed
qed simp

section \<open>All rounds\<close>

text \<open>A node without a left child goes without its right subtree.\<close>

primrec destroyed :: "('k, 'v) ptree \<Rightarrow> uword list" where
  "destroyed PLeaf = []"
| "destroyed (PNode n c l k v r) = (if l = PLeaf then [n] else destroyed l @ destroyed r @ [n])"

lemma destroyed_round:
  "l \<noteq> PLeaf \<Longrightarrow> destroyed (PNode n c l k v r) = round_leaf l # destroyed (round_rest (PNode n c l k v r))"
proof (induction l arbitrary: n c k v r)
  case (PNode m cm l km vm r')
  then show ?case
    by (cases "l = PLeaf") auto
qed simp

lemma size_round: "l \<noteq> PLeaf \<Longrightarrow> length (addrs (round_rest (PNode n c l k v r))) < length (addrs (PNode n c l k v r))"
  using size_mset_mono [OF addrs_round [of l n c k v r]] by simp

lemma destroyed_subset: "mset (destroyed t) \<subseteq># mset (addrs t)"
proof (induction t)
  case (PNode n c l k v r)
  then show ?case
    using subset_mset.add_mono [OF PNode.IH] by (simp add: subset_mset.add_increasing2)
qed simp

lemma distinct_sub:
  assumes "mset xs \<subseteq># mset ys" "distinct ys"
  shows "distinct xs"
proof -
  obtain zs where "mset ys = mset (xs @ zs)"
    using assms(1) ex_mset by (metis mset_append subset_mset.le_iff_add)
  then show ?thesis
    using assms(2) mset_eq_imp_distinct_iff [of ys "xs @ zs"] by simp
qed

lemma destroy_round_dom: "destroy_round p leaf s = Some s' \<Longrightarrow> dom (rb_nodes s') = dom (rb_nodes s) - {leaf}"
  by (auto simp: destroy_round_def rb_get_def rb_set_def rb_release_def bind_eq_Some_conv dom_def split: option.splits if_splits)

lemma destroy_rep:
  assumes "rep2 (rb_nodes s) t" "t \<noteq> PLeaf" "distinct (addrs t)"
  shows "\<exists>s'. destroy_deallocate_subtree (addr t) s = Some s' \<and> rb_free s' = rev (destroyed t) @ rb_free s
     \<and> dom (rb_nodes s') = dom (rb_nodes s) - set (destroyed t)
     \<and> (\<forall>n. n \<notin> set (addrs t) \<longrightarrow> rb_nodes s' n = rb_nodes s n)"
  using assms
proof (induction "length (addrs t)" arbitrary: s t rule: less_induct)
  case (less t s)
  then obtain n c l k v r where t: "t = PNode n c l k v r"
    by (cases t) auto
  show ?case
  proof (cases "l = PLeaf")
    case True
    then show ?thesis
      using less.prems(1) by (subst destroy_deallocate_subtree.simps) (auto simp: t rb_get_def rb_release_def)
  next
    case False
    let ?u = "round_rest (PNode n c l k v r)"
    obtain p s1 where s1: "leftmost_leaf n (addr l) s = Some (p, round_leaf l)" "destroy_round p (round_leaf l) s = Some s1"
      "rb_free s1 = round_leaf l # rb_free s" "rep2 (rb_nodes s1) ?u"
      "\<forall>m. m \<notin> set (addrs t) \<longrightarrow> rb_nodes s1 m = rb_nodes s m"
      using destroy_round_rep [of s n c l k v r] less.prems False t by blast
    have "distinct (addrs ?u)"
      using distinct_sub [OF subset_mset.order_trans [OF _ addrs_round [OF False, of n c k v r]], of "addrs ?u"] less.prems(3) t
      by simp
    then obtain s' where s': "destroy_deallocate_subtree (addr ?u) s1 = Some s'"
      "rb_free s' = rev (destroyed ?u) @ rb_free s1" "dom (rb_nodes s') = dom (rb_nodes s1) - set (destroyed ?u)"
      "\<forall>m. m \<notin> set (addrs ?u) \<longrightarrow> rb_nodes s' m = rb_nodes s1 m"
      using less.hyps [of ?u s1] size_round [OF False] s1(4) t by auto
    have "set (addrs ?u) \<subseteq> set (addrs t)"
      using set_mset_mono [OF addrs_round [OF False, of n c k v r]] t by simp
    then have "rb_nodes s' m = rb_nodes s m" if "m \<notin> set (addrs t)" for m using s'(4) s1(5) that by auto
    moreover have "rb_get rb_left n s = Some (addr l)" "addr l \<noteq> 0"
      using less.prems(1) False t by (auto simp: rb_get_def addr_zero2)
    then have "destroy_deallocate_subtree (addr t) s = destroy_deallocate_subtree (addr ?u) s1"
      using s1 by (subst destroy_calls_round) (simp add: t)
    ultimately show ?thesis
      using s'(1-3) s1(3) destroy_round_dom [OF s1(2)] destroyed_round [OF False, of n c k v r] by (intro exI [of _ s']) (auto simp: t simp del: destroyed.simps)
  qed
qed

section \<open>What is freed\<close>

text \<open>The right children of nodes without a left child. In a red-black tree such a child has no children itself.\<close>

definition lost_nodes :: "('k, 'v) rbt \<Rightarrow> uword set" where
  "lost_nodes s = {m. m \<noteq> 0 \<and> (\<exists>n \<in> tree_nodes s. \<exists>d. rb_nodes s n = Some d \<and> rb_left d = 0 \<and> rb_right d = m)}"

primrec lost :: "('k, 'v) ptree \<Rightarrow> uword set" where
  "lost PLeaf = {}"
| "lost (PNode n c l k v r) = (if l = PLeaf \<and> r \<noteq> PLeaf then {addr r} else {}) \<union> lost l \<union> lost r"

lemma lost_rep:
  "rep h p t \<Longrightarrow> m \<in> lost t \<longleftrightarrow> m \<noteq> 0 \<and> (\<exists>n \<in> set (addrs t). \<exists>d. h n = Some d \<and> rb_left d = 0 \<and> rb_right d = m)"
proof (induction t arbitrary: p)
  case (PNode n c l k v r)
  then have r: "rep h n l" "rep h n r" "n \<noteq> 0"
    "h n = Some \<lparr> rb_key = k, rb_value = v, rb_parent = p, rb_left = addr l, rb_right = addr r, rb_color = c \<rparr>"
    by simp_all
  have "m \<in> lost (PNode n c l k v r) \<longleftrightarrow> l = PLeaf \<and> r \<noteq> PLeaf \<and> m = addr r \<or> m \<in> lost l \<or> m \<in> lost r" by auto
  then show ?case
    unfolding PNode.IH(1) [OF r(1)] PNode.IH(2) [OF r(2)] using addr_zero [OF r(1)] addr_zero [OF r(2)] r(4) by auto
qed simp

lemma lost_nodes_rep: "focus s Top t \<Longrightarrow> lost_nodes s = lost t"
  using lost_rep [of "rb_nodes s" 0 t] tree_nodes_rep [of s t] by (auto simp: lost_nodes_def focus_def)

lemma lost_subset: "lost t \<subseteq> set (addrs t)"
  by (induction t) (auto dest: addr_in)

lemma only_red_child: "rb (PNode n c PLeaf k v r) \<Longrightarrow> r = PLeaf \<or> (\<exists>m km vm. r = PNode m Red PLeaf km vm PLeaf)"
proof (cases r)
  case (PNode m cm l km vm r')
  assume a: "rb (PNode n c PLeaf k v r)"
  then have "cm = Red" "bh l = 0" "bh r' = 0" "col l = Black" "col r' = Black" using PNode by (cases cm; simp)+
  then show ?thesis using PNode by (cases l; cases r') auto
qed simp

lemma destroyed_lost: "rb t \<Longrightarrow> distinct (addrs t) \<Longrightarrow> set (destroyed t) = set (addrs t) - lost t"
proof (induction t)
  case (PNode n c l k v r)
  show ?case
  proof (cases "l = PLeaf")
    case True
    then show ?thesis using only_red_child [of n c k v r] PNode.prems by auto
  next
    case False
    then show ?thesis using PNode lost_subset [of l] lost_subset [of r] by auto
  qed
qed simp

end
