(* ===== verification/RBTree_Props.thy ===== *)
theory RBTree_Props
  imports RBTree_Destroy
begin

text \<open>The properties of the red-black tree, with a small tree they are applied to.\<close>

definition demo_tree :: "(nat, nat) rbt" where
  "demo_tree = \<lparr> rb_root = 1,
     rb_nodes = [1 \<mapsto> \<lparr> rb_key = 10, rb_value = 100, rb_parent = 0, rb_left = 2, rb_right = 3, rb_color = Black \<rparr>,
                 2 \<mapsto> \<lparr> rb_key = 5, rb_value = 50, rb_parent = 1, rb_left = 0, rb_right = 0, rb_color = Red \<rparr>,
                 3 \<mapsto> \<lparr> rb_key = 20, rb_value = 200, rb_parent = 1, rb_left = 0, rb_right = 0, rb_color = Red \<rparr>],
     rb_free = [4, 5], rb_deferred = [] \<rparr>"

lemma demo_tree_ok: "rbt_ok (<) demo_tree [(5, 50), (10, 100), (20, 200)]"
  unfolding rbt_ok_def
  by (intro exI [of _ "PNode 1 Black (PNode 2 Red PLeaf 5 50 PLeaf) 10 100 (PNode 3 Red PLeaf 20 200 PLeaf)"])
    (simp add: demo_tree_def focus_def rb_tree_def sorted_by_def)

section \<open>Insertion\<close>

text \<open>C16: \<open>emplace\<close> on a tree with the entries \<open>es\<close> succeeds while the allocator has a node, and leaves a
  red-black tree that holds \<open>es\<close> with the new entry behind those whose keys are not greater.
\<close>

theorem emplace_inserts:
  assumes "strict_weak_order lt" and "rbt_ok lt s es" and "rb_free s = n # ns"
  shows "\<exists>s'. emplace lt k v s = Some s' \<and> rbt_ok lt s' (insert_entry lt k v es) \<and> rb_free s' = ns"
  using strict_weak_order.emplace_ok [OF assms] .

lemma emplace_inserts_witness:
  "\<exists>s'. emplace (<) 7 70 demo_tree = Some s' \<and> rbt_ok (<) s' [(5, 50), (7, 70), (10, 100), (20, 200)] \<and> rb_free s' = [5]"
  using emplace_inserts [OF std_less.strict_weak_order_axioms demo_tree_ok, of 4 "[5]" 7 70]
  by (simp add: demo_tree_def insert_entry_def)

section \<open>Deletion\<close>

text \<open>C17: \<open>erase_one\<close> always returns; it returns true exactly when an entry has an equivalent key, and then the
  tree holds the same entries without one such entry; otherwise the tree is unchanged.
\<close>

theorem erase_one_removes:
  assumes "strict_weak_order lt" and "rbt_ok lt s es"
  shows "\<exists>b s'. erase_one lt key s = Some (b, s') \<and> rb_free s' = rb_free s
     \<and> (if b then \<exists>xs k v ys. es = xs @ (k, v) # ys \<and> \<not> lt key k \<and> \<not> lt k key \<and> rbt_ok lt s' (xs @ ys)
        else s' = s \<and> (\<forall>e \<in> set es. lt key (fst e) \<or> lt (fst e) key))"
  using strict_weak_order.erase_one_ok [OF assms] .

lemma erase_one_removes_witness:
  "\<exists>s'. erase_one (<) 10 demo_tree = Some (True, s') \<and> rbt_ok (<) s' [(5, 50), (20, 200)]"
proof -
  obtain b s' where e: "erase_one (<) 10 demo_tree = Some (b, s')"
    and r: "if b then \<exists>xs k v ys. [(5, 50), (10, 100), (20, 200)] = xs @ (k, v) # ys
          \<and> \<not> 10 < k \<and> \<not> k < 10 \<and> rbt_ok (<) s' (xs @ ys)
        else s' = demo_tree \<and> (\<forall>e \<in> set [(5 :: nat, 50 :: nat), (10, 100), (20, 200)]. 10 < fst e \<or> fst e < 10)"
    using erase_one_removes [OF std_less.strict_weak_order_axioms demo_tree_ok, of 10] by blast
  have b: b
    using r by (cases b) simp_all
  then obtain xs v ys where "[(5, 50), (10, 100), (20, 200)] = xs @ (10, v) # ys" "rbt_ok (<) s' (xs @ ys)"
    using r by (auto simp: not_less dest: antisym)
  moreover then have "xs = [(5, 50)] \<and> ys = [(20, 200)]"
    by (auto simp: Cons_eq_append_conv)
  ultimately show ?thesis
    using e b by auto
qed

section \<open>Lookup\<close>

text \<open>C25: \<open>find\<close> always returns; it returns the null pointer exactly when no entry has an equivalent key, and
  otherwise a node that holds such an entry.
\<close>

theorem find_is_lookup:
  assumes "strict_weak_order lt" and "rbt_ok lt s es"
  shows "\<exists>n. rbtree_find lt key s = Some n
     \<and> (if n = 0 then \<forall>e \<in> set es. lt key (fst e) \<or> lt (fst e) key
        else \<exists>d. rb_nodes s n = Some d \<and> (rb_key d, rb_value d) \<in> set es \<and> \<not> lt key (rb_key d) \<and> \<not> lt (rb_key d) key)"
  using strict_weak_order.find_ok [OF assms] .

lemma find_is_lookup_witness:
  "\<exists>n. rbtree_find (<) 20 demo_tree = Some n \<and> n \<noteq> 0"
  using find_is_lookup [OF std_less.strict_weak_order_axioms demo_tree_ok, of 20]
  by (fastforce split: if_splits)

section \<open>Sequences of operations\<close>

datatype ('k, 'v) rb_op = Emplace 'k 'v | Erase 'k | Find 'k | Verify

definition rb_op_run :: "('k \<Rightarrow> 'k \<Rightarrow> bool) \<Rightarrow> ('k, 'v) rb_op \<Rightarrow> ('k, 'v) rbt \<Rightarrow> ('k, 'v) rbt option" where
  "rb_op_run lt op s =
     (case op of
        Emplace k v \<Rightarrow> emplace lt k v s
      | Erase k \<Rightarrow> map_option snd (erase_one lt k s)
      | Find k \<Rightarrow> map_option (\<lambda>_. s) (rbtree_find lt k s)
      | Verify \<Rightarrow> map_option (\<lambda>_. s) (verify lt s))"

primrec rb_run :: "('k \<Rightarrow> 'k \<Rightarrow> bool) \<Rightarrow> ('k, 'v) rb_op list \<Rightarrow> ('k, 'v) rbt \<Rightarrow> ('k, 'v) rbt option" where
  "rb_run lt [] s = Some s"
| "rb_run lt (op # ops) s = rb_op_run lt op s \<bind> rb_run lt ops"

definition emplaces :: "('k, 'v) rb_op list \<Rightarrow> nat" where
  "emplaces ops = length (filter (\<lambda>op. case op of Emplace k v \<Rightarrow> True | _ \<Rightarrow> False) ops)"

lemma rb_op_run_ok:
  assumes "strict_weak_order lt" "rbt_ok lt s es" "emplaces (op # ops) \<le> length (rb_free s)"
  shows "\<exists>s' es'. rb_op_run lt op s = Some s' \<and> rbt_ok lt s' es' \<and> emplaces ops \<le> length (rb_free s')"
proof (cases op)
  case (Emplace k v)
  then obtain n ns where "rb_free s = n # ns"
    using assms(3) by (cases "rb_free s") (auto simp: emplaces_def)
  then show ?thesis
    using strict_weak_order.emplace_ok [OF assms(1,2), of n ns k v] Emplace assms(3)
    by (auto simp: rb_op_run_def emplaces_def)
next
  case (Erase k)
  obtain b s' where e: "erase_one lt k s = Some (b, s')" "rb_free s' = rb_free s" "\<exists>es'. rbt_ok lt s' es'"
    using strict_weak_order.erase_one_ok [OF assms(1,2), of k] assms(2) by (fastforce split: if_splits)
  then show ?thesis
    using Erase assms(3) by (auto simp: rb_op_run_def emplaces_def)
next
  case (Find k)
  then show ?thesis
    using strict_weak_order.find_ok [OF assms(1,2), of k] assms(2,3) by (auto simp: rb_op_run_def emplaces_def)
next
  case Verify
  then show ?thesis
    using verify_ok [OF assms(2)] assms(2,3) by (auto simp: rb_op_run_def emplaces_def)
qed

lemma rb_run_ok:
  assumes "strict_weak_order lt"
  shows "rbt_ok lt s es \<Longrightarrow> emplaces ops \<le> length (rb_free s) \<Longrightarrow> \<exists>s' es'. rb_run lt ops s = Some s' \<and> rbt_ok lt s' es'"
proof (induction ops arbitrary: s es)
  case (Cons op ops)
  then show ?case
    using rb_op_run_ok [OF assms Cons.prems] by (metis bind.bind_lunit rb_run.simps(2))
qed auto

text \<open>C15: Starting with an empty tree, no sequence of insertions, deletions, lookups and checks goes through a
  null pointer, loops forever or fails an assertion of \<open>verify\<close>, as long as the allocator has nodes; the
  tree is a red-black tree with its keys in order throughout.
\<close>

theorem tree_operations_never_fail:
  assumes "strict_weak_order lt" and "distinct free" and "0 \<notin> set free" and "emplaces ops \<le> length free"
  shows "\<exists>s es. rb_run lt ops (rbtree_new free) = Some s \<and> rbt_ok lt s es"
  using rb_run_ok [OF assms(1) rbt_ok_new [OF assms(2,3)], of ops] assms(4) by (simp add: rbtree_new_def)

lemma tree_operations_never_fail_witness:
  "\<exists>s es. rb_run (<) [Emplace 3 True, Emplace 1 False, Emplace 2 True, Verify, Erase (1 :: nat), Find 3, Verify]
       (rbtree_new [1, 2, 3]) = Some s \<and> rbt_ok (<) s es"
  by (rule tree_operations_never_fail) (simp_all add: emplaces_def std_less.strict_weak_order_axioms)

text \<open>C32: The tree stays balanced: after any sequence of insertions, deletions, lookups and checks, a path of child pointers
  from the root to a null pointer is at most twice as long as any other, and with \<open>n\<close> entries, one for each node
  on the paths, at most \<open>2 * log2 (n + 1)\<close> nodes long. \<open>minmax_height\<close> returns the lengths of the shortest and of the longest one.
\<close>

theorem tree_height_logarithmic:
  assumes "strict_weak_order lt" and "distinct free" and "0 \<notin> set free" and "emplaces ops \<le> length free"
  shows "\<exists>s es h. rb_run lt ops (rbtree_new free) = Some s \<and> rbt_ok lt s es \<and> card (tree_nodes s) = length es
     \<and> minmax_height lt (rb_root s) s = Some h
     \<and> (\<exists>ns. rb_path s (rb_root s) ns \<and> length ns = min_height h) \<and> (\<exists>ns. rb_path s (rb_root s) ns \<and> length ns = max_height h)
     \<and> (\<forall>ns. rb_path s (rb_root s) ns \<longrightarrow> min_height h \<le> length ns \<and> length ns \<le> max_height h)
     \<and> max_height h \<le> 2 * min_height h \<and> 2 ^ max_height h \<le> (Suc (length es))\<^sup>2"
proof -
  obtain s es where s: "rb_run lt ops (rbtree_new free) = Some s" "rbt_ok lt s es"
    using rb_run_ok [OF assms(1) rbt_ok_new [OF assms(2,3)], of ops] assms(4) by (auto simp: rbtree_new_def)
  then show ?thesis using height_ok [OF s(2)] by blast
qed

lemma tree_height_logarithmic_witness:
  "\<exists>s h. rb_run (<) [Emplace 3 True, Emplace 1 False, Emplace 2 True, Erase (1 :: nat)] (rbtree_new [1, 2, 3]) = Some s
     \<and> minmax_height (<) (rb_root s) s = Some h \<and> max_height h \<le> 2 * min_height h"
proof -
  have "emplaces [Emplace 3 True, Emplace 1 False, Emplace 2 True, Erase (1 :: nat)] \<le> length [1, 2, 3 :: uword]"
    by (simp add: emplaces_def)
  from tree_height_logarithmic [OF std_less.strict_weak_order_axioms _ _ this] show ?thesis by auto
qed

section \<open>Destruction\<close>

text \<open>C26: The destructor returns. It frees, each once, the nodes of the tree other than the right children of
  nodes without a left child, and hands them to the allocator. Every node outside the tree is as before.
\<close>

theorem destructor_ends:
  assumes "rbt_ok lt s es"
  shows "\<exists>s' freed. rbtree_destruct s = Some s' \<and> rb_free s' = freed @ rb_free s \<and> distinct (rb_deferred s @ rb_free s')
     \<and> set freed = tree_nodes s - lost_nodes s \<and> dom (rb_nodes s') = dom (rb_nodes s) - set freed
     \<and> (\<forall>n. n \<notin> tree_nodes s \<longrightarrow> rb_nodes s' n = rb_nodes s n)"
proof -
  obtain t where t: "focus s Top t" "distinct (addrs t @ rb_deferred s @ rb_free s)" "rb t"
    using assms by (auto simp: rbt_ok_def rb_tree_def)
  note store = tree_nodes_rep [OF t(1)] lost_nodes_rep [OF t(1)]
  show ?thesis
  proof (cases "t = PLeaf")
    case True
    then show ?thesis
      using t by (intro exI [of _ s] exI [of _ "[]"]) (simp add: rbtree_destruct_def focus_def store)
  next
    case False
    have r: "rep2 (rb_nodes s) t" "rb_root s = addr t"
      using t(1) by (auto simp: focus_def intro: rep_rep2)
    then obtain s' where s': "destroy_deallocate_subtree (addr t) s = Some s'" "rb_free s' = rev (destroyed t) @ rb_free s"
      "dom (rb_nodes s') = dom (rb_nodes s) - set (destroyed t)" "\<forall>n. n \<notin> set (addrs t) \<longrightarrow> rb_nodes s' n = rb_nodes s n"
      using destroy_rep [OF r(1) False] t(2) by auto
    have freed: "set (destroyed t) = set (addrs t) - lost t" by (rule destroyed_lost [OF t(3)]) (use t(2) in simp)
    then have "distinct (rb_deferred s @ rb_free s')"
      using distinct_sub [OF destroyed_subset, of t] t(2) s'(2) by auto
    then show ?thesis
      using s' r addr_zero2 [OF r(1)] False freed
      by (intro exI [of _ s'] exI [of _ "rev (destroyed t)"]) (simp add: rbtree_destruct_def store)
  qed
qed

lemma destructor_ends_witness:
  "\<exists>s' freed. rbtree_destruct demo_tree = Some s' \<and> rb_free s' = freed @ [4, 5] \<and> distinct freed \<and> set freed = {1, 2, 3}"
proof -
  let ?t = "PNode 1 Black (PNode 2 Red PLeaf 5 50 PLeaf) 10 100 (PNode 3 Red PLeaf 20 200 PLeaf) :: (nat, nat) ptree"
  have "focus demo_tree Top ?t" by (simp add: demo_tree_def focus_def)
  then have "tree_nodes demo_tree = {1, 2, 3}" "lost_nodes demo_tree = {}"
    by (auto simp: tree_nodes_rep [of _ ?t] lost_nodes_rep [of _ ?t])
  then show ?thesis
    using destructor_ends [OF demo_tree_ok] by (auto simp: demo_tree_def)
qed

text \<open>C27: The destructor loses nodes: if the root has no left child, its right child stays allocated, because
  the loop only looks for left children.
\<close>

theorem destructor_leaks_right_child:
  assumes "rb_get rb_left (rb_root s) s = Some 0" and "rb_root s \<noteq> 0"
    and "rb_get rb_right (rb_root s) s = Some m" and "m \<noteq> rb_root s" and "rb_nodes s m = Some d"
  shows "\<exists>s'. rbtree_destruct s = Some s' \<and> rb_free s' = rb_root s # rb_free s \<and> rb_nodes s' m = Some d"
  using assms by (subst rbtree_destruct_def, subst destroy_deallocate_subtree.simps) (auto simp: rb_get_def rb_release_def)

text \<open>Two insertions are enough.\<close>

definition demo_pair :: "(nat, nat) rbt option" where
  "demo_pair = rb_run (<) [Emplace 1 10, Emplace 2 20] (rbtree_new [1, 2])"

lemma destructor_leaks_right_child_witness:
  "\<exists>s s' d. demo_pair = Some s \<and> rbtree_destruct s = Some s' \<and> rb_free s' = [1] \<and> rb_nodes s' 2 = Some d"
proof -
  obtain s d where s: "demo_pair = Some s" "rb_root s = 1" "rb_free s = []" "rb_get rb_left 1 s = Some 0"
    "rb_get rb_right 1 s = Some 2" "rb_nodes s 2 = Some d"
    by (simp add: demo_pair_def rb_op_run_def emplace_def push_impl_def push_descend.simps touch_neighbours_def
        insert_case1.simps rbtree_new_def new_rb_node_def rb_access)
  then show ?thesis
    using destructor_leaks_right_child [of s 2 d] by auto
qed

end
