(* ===== verification/Stm_Runs.thy ===== *)
theory Stm_Runs
  imports Serializability
begin

text \<open>
  Runs of the concurrent machine whose transactions all come from a given set of programs. What holds of
  each program alone carries over to any number of threads running them at the same time.
\<close>

section \<open>Where programs come from\<close>

lemmas step_defs = step_idle_def step_get_clock_def step_access_lock_def step_get_def step_get_fast_def step_slow_get_def
  step_get_slow_def step_get_ro_def step_set_def step_set_slow_def step_return_def step_abort_def step_unwind_def
  step_lock_def step_lock_cas_def step_unlock_def step_unlock_store_def step_validate_def step_write_def step_bump_def
  step_publish_def step_success_def

definition runs_only :: "(tx_kind \<times> 'r stm_prog) set \<Rightarrow> store \<Rightarrow> 'r sys \<Rightarrow> bool" where
  "runs_only F st s \<longleftrightarrow> initial s = st
     \<and> (\<forall>t. set (jobs (threads s t)) \<subseteq> F \<and> (pc (threads s t) \<noteq> Idle \<longrightarrow> func (threads s t) \<in> snd ` F))
     \<and> (\<forall>n e. log s n = Some e \<longrightarrow> e_func e \<in> snd ` F)"

text \<open>A step keeps a thread's function and its jobs, except that an idle thread takes its next job.\<close>

definition keeps_programs :: "nat \<Rightarrow> 'r sys \<Rightarrow> 'r sys \<Rightarrow> bool" where
  "keeps_programs t s s' \<longleftrightarrow> initial s' = initial s \<and> (\<forall>u. u \<noteq> t \<longrightarrow> threads s' u = threads s u)
     \<and> func (threads s' t) = func (threads s t) \<and> jobs (threads s' t) = jobs (threads s t)
     \<and> (\<forall>n e. log s' n = Some e \<longrightarrow> log s n = Some e \<or> e_func e = func (threads s t))"

lemma keeps_programs_step:
  assumes "tstep t s = Some s'" "pc (threads s t) \<noteq> Idle"
  shows "keeps_programs t s s'"
proof (cases "pc (threads s t)")
  case (Body p)
  then show ?thesis
    using assms by (cases p) (auto simp: tstep_def step_defs keeps_programs_def put_def log_commit_def Let_def split: if_splits)
qed (use assms in \<open>auto simp: tstep_def step_defs keeps_programs_def put_def log_commit_def Let_def split: if_splits option.splits prod.splits\<close>)

lemma runs_only_step:
  assumes "runs_only F st s" "tstep t s = Some s'"
  shows "runs_only F st s'"
proof (cases "pc (threads s t) = Idle")
  case True
  then obtain kind f js where j: "jobs (threads s t) = (kind, f) # js"
    "s' = put t ((threads s t)\<lparr> pc := Start, jobs := js, func := f, td := (td (threads s t))\<lparr> tx_state := kind \<rparr> \<rparr>) s"
    using assms(2) by (auto simp: tstep_def step_idle_def Let_def split: list.splits)
  have "set (jobs (threads s t)) \<subseteq> F"
    using assms(1) by (simp add: runs_only_def)
  then have "f \<in> snd ` F" "set js \<subseteq> F"
    using j(1) by force+
  then show ?thesis
    using assms(1) unfolding j(2) by (simp add: runs_only_def put_def)
next
  case False
  then show ?thesis
    using keeps_programs_step [OF assms(2) False] assms(1) unfolding runs_only_def keeps_programs_def
    by metis
qed

lemma runs_only_schedule: "runs_only F st s \<Longrightarrow> runs_only F st (run_schedule ts s)"
  by (induction ts arbitrary: s) (auto split: option.splits intro: runs_only_step)

lemma runs_only_new: "(\<And>t. set (js t) \<subseteq> F) \<Longrightarrow> runs_only F st (new_sys js st)"
  by (simp add: runs_only_def new_sys_def new_thread_def)

section \<open>Store invariants\<close>

definition runs :: "(nat \<Rightarrow> (tx_kind \<times> 'r stm_prog) list) \<Rightarrow> store \<Rightarrow> 'r sys \<Rightarrow> bool" where
  "runs js st s \<longleftrightarrow> (\<exists>ts. s = run_schedule ts (new_sys js st))"

lemma runs_reachable: "runs js st s \<Longrightarrow> (\<And>t. good_jobs (js t)) \<Longrightarrow> reachable stm_start stm_step s"
  unfolding runs_def by (elim exE) (simp, rule run_schedule_reachable, rule reach_start, auto simp: stm_start_def)

lemma runs_runs_only: "runs js st s \<Longrightarrow> (\<And>t. set (js t) \<subseteq> F) \<Longrightarrow> runs_only F st s"
  unfolding runs_def using runs_only_schedule runs_only_new by blast

lemma sigma_steps:
  assumes "reachable stm_start stm_step s"
    and "P (initial s)"
    and "\<And>n e st st'. log s n = Some e \<Longrightarrow> P st \<Longrightarrow> p_exec (e_func e) st = (Inr (e_result e), st') \<Longrightarrow> P st'"
  shows "P (sigma (log s) (initial s) n)"
proof (induction n)
  case (Suc n)
  show ?case
  proof (cases "log s n")
    case (Some e)
    show ?thesis
      using assms(3) [OF Some Suc entry_replay [OF Some log_entry_ok [OF assms(1) Some]]] .
  qed (use Suc in simp)
qed (use assms(2) in simp)

text \<open>C9: What every transaction preserves when it runs alone holds whenever no transaction runs, after any
  interleaving of any number of threads.\<close>

theorem store_invariants_carry_over:
  assumes "runs js st s" and "\<And>t. good_jobs (js t)" and "\<And>t. pc (threads s t) = Idle"
    and "P st" and "\<And>t kind f st r st'. (kind, f) \<in> set (js t) \<Longrightarrow> P st \<Longrightarrow> p_exec f st = (Inr r, st') \<Longrightarrow> P st'"
  shows "P (storage_of s)"
proof -
  let ?F = "\<Union>t. set (js t)"
  have r: "reachable stm_start stm_step s"
    using assms(1,2) by (rule runs_reachable)
  have F: "runs_only ?F st s"
    by (rule runs_runs_only [OF assms(1)]) blast
  have "storage_of s = sigma (log s) (initial s) (tickets s)"
    using idle_storage_is_serial [OF r assms(3)] by blast
  moreover have "P (sigma (log s) (initial s) (tickets s))"
  proof (rule sigma_steps [OF r])
    show "P (initial s)"
      using F assms(4) by (simp add: runs_only_def)
    fix n e st' st''
    assume e: "log s n = Some e" "P st'" "p_exec (e_func e) st' = (Inr (e_result e), st'')"
    have "e_func e \<in> snd ` ?F"
      using F e(1) unfolding runs_only_def by blast
    then obtain t kind where "(kind, e_func e) \<in> set (js t)"
      by force
    then show "P st''"
      using assms(5) e(2,3) by blast
  qed
  ultimately show ?thesis
    by simp
qed

lemma demo_end_runs:
  "runs (\<lambda>t. if t = 0 then [(Read_write, setter)] else if t = 1 then [(Read_only, getter)] else []) (\<lambda>_. 5) demo_end"
  unfolding runs_def demo_end_def demo_sys_def by blast

theorem store_invariants_carry_over_witness:
  "storage_of demo_end 16 \<in> {5, 9}"
proof (rule store_invariants_carry_over [OF demo_end_runs, where P = "\<lambda>st. st 16 \<in> {5, 9}"])
  show "good_jobs (if t = 0 then [(Read_write, setter)] else if t = 1 then [(Read_only, getter)] else [])" for t :: nat
    by (simp add: good_jobs_def)
qed (auto simp: demo_end_log setter_def getter_def split: if_splits)


section \<open>Sums\<close>

text \<open>The committed transactions, by their tickets.\<close>

definition commits :: "'r sys \<Rightarrow> nat \<Rightarrow> nat set" where
  "commits s n = {m. m < n \<and> log s m \<noteq> None}"

lemma commits_Suc: "commits s (Suc n) = (if log s n \<noteq> None then insert n (commits s n) else commits s n)"
  by (auto simp: commits_def less_Suc_eq)

lemma commits_finite [simp]: "finite (commits s n)" "n \<notin> commits s n"
  by (simp_all add: commits_def)

text \<open>Programs that each add an amount to a variable add the sum of the amounts.\<close>

lemma idle_sum:
  assumes "runs js st s" and "\<And>t. good_jobs (js t)" and "\<And>t. pc (threads s t) = Idle"
    and "\<And>t kind f st r st'. (kind, f) \<in> set (js t) \<Longrightarrow> p_exec f st = (Inr r, st') \<Longrightarrow> st' v = st v + amount f"
  shows "storage_of s v = st v + (\<Sum>m \<in> commits s (tickets s). amount (e_func (the (log s m))))"
proof -
  let ?F = "\<Union>t. set (js t)"
  have r: "reachable stm_start stm_step s"
    using assms(1,2) by (rule runs_reachable)
  have F: "runs_only ?F st s"
    by (rule runs_runs_only [OF assms(1)]) blast
  have "sigma (log s) (initial s) n v = st v + (\<Sum>m \<in> commits s n. amount (e_func (the (log s m))))" for n
  proof (induction n)
    case 0
    then show ?case using F by (simp add: runs_only_def commits_def)
  next
    case (Suc n)
    show ?case
    proof (cases "log s n")
      case None
      then show ?thesis using Suc by (simp add: commits_Suc)
    next
      case (Some e)
      have "e_func e \<in> snd ` ?F"
        using F Some unfolding runs_only_def by blast
      then obtain t kind where "(kind, e_func e) \<in> set (js t)"
        by force
      then have "sigma (log s) (initial s) (Suc n) v = sigma (log s) (initial s) n v + amount (e_func e)"
        using assms(4) entry_replay [OF Some log_entry_ok [OF r Some]] by blast
      then show ?thesis using Suc Some by (simp add: commits_Suc add_ac)
    qed
  qed
  then show ?thesis
    using idle_storage_is_serial [OF r assms(3), of v] by metis
qed

end
