(* ===== verification/Stm_Solo.thy ===== *)
theory Stm_Solo
  imports Stm_Runs
begin

text \<open>
  Progress of the concurrent machine: a thread that runs undisturbed from a reachable state in which no
  other thread holds a version lock finishes its transaction, at the first attempt.
\<close>

section \<open>Undisturbed steps\<close>

definition advance :: "nat \<Rightarrow> 'r sys \<Rightarrow> 'r sys \<Rightarrow> bool" where
  "advance t s s' \<longleftrightarrow> (\<exists>k. s' = run_schedule (replicate k t) s)"

lemma advance_refl: "advance t s s"
  unfolding advance_def by (rule exI [of _ 0]) simp

lemma run_schedule_append: "run_schedule (xs @ ys) s = run_schedule ys (run_schedule xs s)"
  by (induction xs arbitrary: s) simp_all

lemma advance_trans: "advance t s s' \<Longrightarrow> advance t s' s'' \<Longrightarrow> advance t s s''"
  unfolding advance_def by (elim exE) (metis replicate_add run_schedule_append)

lemma advance_step: "tstep t s = Some s' \<Longrightarrow> advance t s s'"
  unfolding advance_def by (rule exI [of _ 1]) simp

lemma advance_next: "tstep t s = Some s1 \<Longrightarrow> advance t s1 s' \<Longrightarrow> advance t s s'"
  using advance_step advance_trans by blast

text \<open>No other thread holds a lock, and thread \<open>t\<close> began after everything that is committed.\<close>

definition alone :: "nat \<Rightarrow> 'r sys \<Rightarrow> bool" where
  "alone t s \<longleftrightarrow> stm_inv s \<and> (\<forall>u. u \<noteq> t \<longrightarrow> held (threads s u) = {})"

definition current :: "nat \<Rightarrow> 'r sys \<Rightarrow> bool" where
  "current t s \<longleftrightarrow> alone t s \<and> (\<forall>v. committed_version s v \<le> rv (threads s t))"

lemma alone_valid:
  assumes "current t s" "v \<notin> held (threads s t)"
  shows "rw_valid (tx (threads s t)) (version_of s v)"
proof -
  have g: "ginv s" using assms(1) by (simp add: current_def alone_def stm_inv_def)
  have "owner s v = None"
    using owner_held [OF g] assms unfolding current_def alone_def by (cases "owner s v") (metis empty_iff option.simps(3))+
  then show ?thesis
    using ver_at [OF g, of v] assms(1) by (simp add: rw_valid_def current_def)
qed

lemma alone_storage: "alone t s \<Longrightarrow> held (threads s t) = {} \<Longrightarrow> storage_of s = committed s"
proof
  fix v assume a: "alone t s" "held (threads s t) = {}"
  then have g: "ginv s" by (simp add: alone_def stm_inv_def)
  have "owner s v = None"
    using owner_held [OF g] a unfolding alone_def by (cases "owner s v") (metis empty_iff option.simps(3))+
  then show "storage_of s v = committed s v"
    using sto_at [OF g, of v] by simp
qed

text \<open>A step inside the body changes the thread's own data only.\<close>

definition same_tx :: "nat \<Rightarrow> 'r sys \<Rightarrow> 'r sys \<Rightarrow> bool" where
  "same_tx t s s' \<longleftrightarrow> func (threads s' t) = func (threads s t) \<and> tx (threads s' t) = tx (threads s t)
     \<and> jobs (threads s' t) = jobs (threads s t) \<and> returned (threads s' t) = returned (threads s t)
     \<and> committed s' = committed s \<and> the_clock s' = the_clock s"

lemma same_tx_refl: "same_tx t s s"
  by (simp add: same_tx_def)

lemma same_tx_trans: "same_tx t s s' \<Longrightarrow> same_tx t s' s'' \<Longrightarrow> same_tx t s s''"
  by (simp add: same_tx_def)

definition goes :: "nat \<Rightarrow> 'r sys \<Rightarrow> 'r sys \<Rightarrow> bool" where
  "goes t s s' \<longleftrightarrow> advance t s s' \<and> current t s' \<and> same_tx t s s'"

lemma goes_refl: "current t s \<Longrightarrow> goes t s s"
  by (simp add: goes_def advance_refl same_tx_refl)

lemma goes_trans: "goes t s s' \<Longrightarrow> goes t s' s'' \<Longrightarrow> goes t s s''"
  unfolding goes_def using advance_trans same_tx_trans by blast

lemma goes_put:
  assumes "current t s" "tstep t s = Some (put t l s)" "tx l = tx (threads s t)" "func l = func (threads s t)"
    "jobs l = jobs (threads s t)" "returned l = returned (threads s t)"
  shows "goes t s (put t l s)"
proof -
  have "stm_inv (put t l s)"
    using tstep_inv assms(1,2) by (auto simp: current_def alone_def)
  then show ?thesis
    using assms advance_step [OF assms(2)] by (auto simp: current_def alone_def same_tx_def goes_def)
qed

section \<open>The body\<close>

primrec reads_only :: "'r stm_prog \<Rightarrow> bool" where
  "reads_only (P_Return r) \<longleftrightarrow> True"
| "reads_only P_Throw \<longleftrightarrow> True"
| "reads_only P_Retry \<longleftrightarrow> True"
| "reads_only (P_Get v k) \<longleftrightarrow> (\<forall>x. reads_only (k x))"
| "reads_only (P_Set v x p) \<longleftrightarrow> False"

lemma body_valid: "current t s \<Longrightarrow> held (threads s t) = {} \<Longrightarrow> rw_valid (tx (threads s t)) (version_of s v)"
  by (rule alone_valid) simp_all

text \<open>A tracked read gets its value in at most three steps.\<close>

lemma slow_get_goes:
  assumes c: "current t s" and pc: "pc (threads s t) = Slow_Get v k"
  shows "\<exists>s' r. goes t s s' \<and> pc (threads s' t) = Body (k r)"
proof (cases "hs_find (ws (threads s t)) v = hs_end (ws (threads s t))")
  case False
  have "rw_valid (tx (threads s t)) (version_of s v)"
    by (rule body_valid [OF c]) (simp add: held_def pc)
  then have "tstep t s = Some (put t ((threads s t)\<lparr> pc := Body (k (hs_pending_at (ws (threads s t)) (hs_find (ws (threads s t)) v))) \<rparr>) s)"
    using False pc by (simp add: tstep_def step_slow_get_def Let_def)
  from goes_put [OF c this] show ?thesis
    by (intro exI conjI, simp) simp
next
  case True
  let ?s = "put t ((threads s t)\<lparr> pc := Get_Slow v (storage_of s v) k \<rparr>) s"
  have g: "goes t s ?s"
    by (rule goes_put [OF c]) (simp_all add: tstep_def step_slow_get_def Let_def pc True)
  then have "current t ?s" by (simp add: goes_def)
  moreover from this have "rw_valid (tx (threads ?s t)) (version_of ?s v)"
    by (rule body_valid) (simp add: held_def)
  then have "tstep t ?s = Some (put t ((threads ?s t)\<lparr> pc := Body (k (storage_of s v)),
        td := (td (threads ?s t))\<lparr> read_set := emplace_back v (read_set (td (threads ?s t))) \<rparr>,
        seen := (seen (threads ?s t))(v \<mapsto> storage_of s v) \<rparr>) ?s)"
    by (simp add: tstep_def step_get_slow_def Let_def)
  ultimately have "goes t ?s (put t ((threads ?s t)\<lparr> pc := Body (k (storage_of s v)),
        td := (td (threads ?s t))\<lparr> read_set := emplace_back v (read_set (td (threads ?s t))) \<rparr>,
        seen := (seen (threads ?s t))(v \<mapsto> storage_of s v) \<rparr>) ?s)"
    by (rule goes_put) simp_all
  from goes_trans [OF g this] show ?thesis
    by (intro exI conjI, assumption) simp
qed

lemma get_ro_goes:
  assumes c: "current t s" and pc: "pc (threads s t) = Get_Ro v r k"
  shows "\<exists>s' r. goes t s s' \<and> pc (threads s' t) = Body (k r)"
proof -
  have "rw_valid (tx (threads s t)) (version_of s v)"
    by (rule body_valid [OF c]) (simp add: held_def pc)
  then have "goes t s (put t ((threads s t)\<lparr> pc := Body (k r), seen := (seen (threads s t))(v \<mapsto> r) \<rparr>) s)"
    by (intro goes_put [OF c]) (simp_all add: tstep_def step_get_ro_def Let_def pc)
  then show ?thesis
    by (intro exI conjI, assumption) simp
qed

lemma get_fast_goes:
  assumes c: "current t s" and pc: "pc (threads s t) = Get_Fast v r k"
  shows "\<exists>s' r. goes t s s' \<and> pc (threads s' t) = Body (k r)"
proof -
  have "rw_valid (tx (threads s t)) (version_of s v)"
    by (rule body_valid [OF c]) (simp add: held_def pc)
  then have "goes t s (put t ((threads s t)\<lparr> pc := Body (k r),
      td := (td (threads s t))\<lparr> read_set := unchecked_emplace_back v (read_set (td (threads s t))) \<rparr>,
      seen := (seen (threads s t))(v \<mapsto> r) \<rparr>) s)"
    by (intro goes_put [OF c]) (simp_all add: tstep_def step_get_fast_def Let_def pc)
  then show ?thesis
    by (intro exI conjI, assumption) simp
qed

lemma get_goes:
  assumes c: "current t s" and pc: "pc (threads s t) = Body (P_Get v k)"
  shows "\<exists>s' r. goes t s s' \<and> pc (threads s' t) = Body (k r)"
proof -
  define x where "x = (if \<not> can_write (tx (threads s t)) then Get_Ro v (storage_of s v) k
      else if \<not> pv_allocates_on_next_push (read_set (td (threads s t))) \<and> hs_filter (ws (threads s t)) AND var_hash v = 0
      then Get_Fast v (storage_of s v) k else Slow_Get v k)"
  have x: "tstep t s = Some (put t ((threads s t)\<lparr> pc := x \<rparr>) s)"
    using pc by (simp add: tstep_def step_get_def Let_def x_def)
  have x': "x = Slow_Get v k \<or> (\<exists>r. x = Get_Ro v r k) \<or> (\<exists>r. x = Get_Fast v r k)"
    by (simp add: x_def)
  have g: "goes t s (put t ((threads s t)\<lparr> pc := x \<rparr>) s)" (is "goes t s ?s")
    by (rule goes_put [OF c x]) simp_all
  then have "current t ?s" by (simp add: goes_def)
  then have "\<exists>s' r. goes t ?s s' \<and> pc (threads s' t) = Body (k r)"
    using x' slow_get_goes [of t ?s v k] get_ro_goes [of t ?s v _ k] get_fast_goes [of t ?s v _ k] by auto
  then show ?thesis
    using goes_trans [OF g] by blast
qed

lemma set_goes:
  assumes c: "current t s" and pc: "pc (threads s t) = Body (P_Set v x p)" and w: "can_write (tx (threads s t))"
  shows "\<exists>s'. goes t s s' \<and> pc (threads s' t) = Body p"
proof -
  have valid: "rw_valid (tx (threads s t)) (version_of s v)"
    by (rule body_valid [OF c]) (simp add: held_def pc)
  show ?thesis
  proof (cases "hs_allocates_on_next_push (ws (threads s t)) \<or> hs_filter (ws (threads s t)) AND var_hash v \<noteq> 0")
    case False
    let ?l = "(threads s t)\<lparr> pc := Body p, td := add_write_set_unchecked v x (var_hash v) (td (threads s t)) \<rparr>"
    have "tstep t s = Some (put t ?l s)"
      using False pc w valid by (simp add: tstep_def step_set_def Let_def)
    then have "goes t s (put t ?l s)"
      by (rule goes_put [OF c]) simp_all
    then show ?thesis by (intro exI conjI, assumption) simp
  next
    case True
    let ?s = "put t ((threads s t)\<lparr> pc := Set_Slow v x p \<rparr>) s"
    have "tstep t s = Some ?s"
      using True pc w by (auto simp: tstep_def step_set_def Let_def)
    then have g: "goes t s ?s"
      by (rule goes_put [OF c]) simp_all
    obtain d where d: "tstep t ?s = Some (put t ((threads ?s t)\<lparr> pc := Body p, td := d \<rparr>) ?s)"
      using valid by (simp add: tstep_def step_set_slow_def Let_def)
    have "current t ?s" using g by (simp add: goes_def)
    from goes_put [OF this d] have "goes t ?s (put t ((threads ?s t)\<lparr> pc := Body p, td := d \<rparr>) ?s)"
      by simp
    from goes_trans [OF g this] show ?thesis by (intro exI conjI, assumption) simp
  qed
qed

text \<open>The body runs to its end.\<close>

lemma body_goes:
  assumes "current t s" "pc (threads s t) = Body p" "can_write (tx (threads s t)) \<or> reads_only p"
  shows "\<exists>s' q. goes t s s' \<and> pc (threads s' t) = Body q \<and> (q = P_Throw \<or> q = P_Retry \<or> (\<exists>r. q = P_Return r))"
  using assms
proof (induction p arbitrary: s)
  case (P_Get v k)
  obtain s' r where g: "goes t s s'" "pc (threads s' t) = Body (k r)"
    using get_goes [OF P_Get.prems(1,2)] by blast
  have "can_write (tx (threads s' t)) \<or> reads_only (k r)" "current t s'"
    using g(1) P_Get.prems(3) by (auto simp: goes_def same_tx_def)
  then show ?case
    using P_Get.IH [of "k r"] g goes_trans by blast
next
  case (P_Set v x p)
  then have w: "can_write (tx (threads s t))" by simp
  obtain s' where g: "goes t s s'" "pc (threads s' t) = Body p"
    using set_goes [OF P_Set.prems(1,2) w] by blast
  have "can_write (tx (threads s' t))" "current t s'"
    using g(1) w by (auto simp: goes_def same_tx_def)
  then show ?case
    using P_Set.IH g goes_trans by blast
qed (use goes_refl in blast)+

section \<open>The commit\<close>

text \<open>What a thread that commits alone keeps, access by access, and how far it is from the end.\<close>

definition committing :: "nat \<Rightarrow> 'r \<Rightarrow> 'r sys \<Rightarrow> bool" where
  "committing t r s \<longleftrightarrow> alone t s \<and> result (threads s t) = Some r
     \<and> (case pc (threads s t) of
          Lock i \<Rightarrow> current t s \<and> set (pv_items (read_set (td (threads s t)))) \<inter> set (dests (threads s t)) = {}
        | Lock_Cas i x \<Rightarrow> current t s \<and> set (pv_items (read_set (td (threads s t)))) \<inter> set (dests (threads s t)) = {}
            \<and> x = version_of s (dests (threads s t) ! i)
        | Validate j \<Rightarrow> current t s \<and> set (pv_items (read_set (td (threads s t)))) \<inter> set (dests (threads s t)) = {}
            \<and> j \<le> length (pv_items (read_set (td (threads s t))))
        | Write i \<Rightarrow> True | Bump \<Rightarrow> True | Publish i x \<Rightarrow> True | Success \<Rightarrow> True
        | _ \<Rightarrow> False)
     \<and> (case pc (threads s t) of Publish i x \<Rightarrow> True | Success \<Rightarrow> True | _ \<Rightarrow> bump_assert (clock (the_clock s)))"

definition effort :: "'r thread \<Rightarrow> nat" where
  "effort l = (let n = length (dests l); m = length (pv_items (read_set (td l))) in
     case pc l of
       Lock i \<Rightarrow> 2 * n + m + 7 + 2 * (n - i)
     | Lock_Cas i x \<Rightarrow> 2 * n + m + 6 + 2 * (n - i)
     | Validate j \<Rightarrow> 2 * n + 5 + (m + 1 - j)
     | Write i \<Rightarrow> n + 4 + (n - i)
     | Bump \<Rightarrow> n + 3
     | Publish i x \<Rightarrow> 2 + (n - i)
     | _ \<Rightarrow> 1)"

definition commit_next :: "nat \<Rightarrow> 'r \<Rightarrow> 'r sys \<Rightarrow> 'r sys \<Rightarrow> bool" where
  "commit_next t r s s' \<longleftrightarrow> jobs (threads s' t) = jobs (threads s t)
     \<and> (pc (threads s' t) = Idle \<and> returned (threads s' t) = returned (threads s t) @ [(Inr r, ticket (threads s t))]
        \<or> committing t r s' \<and> returned (threads s' t) = returned (threads s t) \<and> effort (threads s' t) < effort (threads s t))"

lemma alone_step:
  assumes "alone t s" "tstep t s = Some s'" "\<And>u. u \<noteq> t \<Longrightarrow> threads s' u = threads s u"
  shows "alone t s'"
  using assms tstep_inv by (auto simp: alone_def)

lemma committing_data:
  assumes "committing t r s" "pc (threads s t) \<noteq> Success"
  shows "hs_inv (ws (threads s t))" "pv_inv (read_set (td (threads s t)))" "pc_inv s (threads s t)" "ginv s"
  using assms stm_invD [of s t] by (auto simp: committing_def alone_def own_data_def stm_inv_def)

lemma lock_next:
  assumes c: "committing t r s" and pc: "pc (threads s t) = Lock i"
  shows "\<exists>s'. tstep t s = Some s' \<and> commit_next t r s s'"
proof -
  let ?l = "threads s t"
  note d = committing_data [OF c]
  have i: "i < length (dests ?l)" "current t s" "hs_dest_at (ws ?l) i = dests ?l ! i"
    using d c pc by (simp_all add: pc_inv_def committing_def hs_dest_at_nth hs_end_dests)
  have "dests ?l ! i \<notin> held ?l"
    using d(1) i(1) pc by (auto simp: held_def hs_inv_def in_set_conv_nth nth_eq_iff_index_eq)
  then have "rw_valid (tx ?l) (version_of s (dests ?l ! i))"
    by (rule alone_valid [OF i(2)])
  then have st: "tstep t s = Some (put t (?l\<lparr> pc := Lock_Cas i (version_of s (dests ?l ! i)) \<rparr>) s)" (is "_ = Some ?s")
    using pc i d(1) by (simp add: tstep_def step_lock_def Let_def)
  have "alone t ?s" "current t ?s"
    using alone_step [OF _ st] i(2) by (auto simp: current_def)
  then have "committing t r ?s" "effort (threads ?s t) < effort ?l"
    using c pc i(1) by (auto simp: committing_def effort_def Let_def)
  then show ?thesis
    using st by (auto simp: commit_next_def)
qed

lemma lock_cas_next:
  assumes c: "committing t r s" and pc: "pc (threads s t) = Lock_Cas i x"
  shows "\<exists>s'. tstep t s = Some s' \<and> commit_next t r s s'"
proof -
  let ?l = "threads s t"
  note d = committing_data [OF c]
  have i: "i < length (dests ?l)" "hs_end (ws ?l) = length (dests ?l)" "hs_dest_at (ws ?l) i = dests ?l ! i"
    using d pc by (simp_all add: pc_inv_def hs_dest_at_nth hs_end_dests)
  have x: "x = version_of s (dests ?l ! i)" "current t s" "alone t s"
    using c pc by (simp_all add: committing_def)
  define s1 where "s1 = s\<lparr> version_of := (version_of s)(dests ?l ! i := as_locked x), owner := (owner s)(dests ?l ! i := Some t) \<rparr>"
  define s' where "s' = (if Suc i = length (dests ?l)
     then (put t (?l\<lparr> pc := Validate 0, ticket := tickets s \<rparr>) s1)\<lparr> tickets := tickets s + 1 \<rparr>
     else put t (?l\<lparr> pc := Lock (Suc i) \<rparr>) s1)"
  have st: "tstep t s = Some s'"
    using pc i x by (simp add: tstep_def step_lock_cas_def Let_def s'_def s1_def)
  have o: "threads s' u = threads s u" if "u \<noteq> t" for u
    using that by (simp add: s'_def s1_def put_def)
  have "alone t s'"
    by (rule alone_step [OF x(3) st o])
  moreover then have "current t s'"
    using x(2) by (auto simp: current_def s'_def s1_def put_def)
  ultimately have "committing t r s'" "effort (threads s' t) < effort ?l"
    using c pc i(1) by (auto simp: committing_def effort_def Let_def s'_def s1_def put_def)
  moreover have "jobs (threads s' t) = jobs ?l" "returned (threads s' t) = returned ?l"
    by (simp_all add: s'_def s1_def put_def)
  ultimately show ?thesis
    using st by (auto simp: commit_next_def)
qed

lemma validate_next:
  assumes c: "committing t r s" and pc: "pc (threads s t) = Validate j"
  shows "\<exists>s'. tstep t s = Some s' \<and> commit_next t r s s'"
proof -
  let ?l = "threads s t"
  let ?vs = "pv_items (read_set (td ?l))"
  note d = committing_data [OF c]
  have x: "current t s" "alone t s" "set ?vs \<inter> set (dests ?l) = {}" "j \<le> length ?vs" "result ?l = Some r"
    using c pc by (simp_all add: committing_def)
  define s' where "s' = (if j = length ?vs then log_commit (ticket ?l) ?l r (put t (?l\<lparr> pc := Write 0 \<rparr>) s)
     else put t (?l\<lparr> pc := Validate (Suc j) \<rparr>) s)"
  have "rw_valid (tx ?l) (version_of s (?vs ! j))" if "j < length ?vs"
  proof (rule alone_valid [OF x(1)])
    show "?vs ! j \<notin> held ?l"
      using x(3) nth_mem [OF that] pc by (simp add: held_def) blast
  qed
  then have st: "tstep t s = Some s'"
    using pc x d(2) by (auto simp: tstep_def step_validate_def Let_def s'_def pv_deref_items)
  have o: "threads s' u = threads s u" if "u \<noteq> t" for u
    using that by (simp add: s'_def log_commit_def put_def)
  have "alone t s'"
    by (rule alone_step [OF x(2) st o])
  moreover then have "current t s'"
    using x(1) by (auto simp: current_def s'_def log_commit_def put_def)
  ultimately have "committing t r s'" "effort (threads s' t) < effort ?l"
    using c pc x(4) by (auto simp: committing_def effort_def Let_def s'_def log_commit_def put_def)
  moreover have "jobs (threads s' t) = jobs ?l" "returned (threads s' t) = returned ?l"
    by (simp_all add: s'_def log_commit_def put_def)
  ultimately show ?thesis
    using st by (auto simp: commit_next_def)
qed

lemma write_next:
  assumes c: "committing t r s" and pc: "pc (threads s t) = Write i"
  shows "\<exists>s'. tstep t s = Some s' \<and> commit_next t r s s'"
proof -
  let ?l = "threads s t"
  note d = committing_data [OF c]
  have i: "i < length (dests ?l)" "hs_end (ws ?l) = length (dests ?l)"
    using d pc by (simp_all add: pc_inv_def hs_end_dests)
  let ?s = "step_write t ?l i s"
  have st: "tstep t s = Some ?s"
    using pc by (simp add: tstep_def Let_def)
  have "alone t ?s"
    by (rule alone_step [OF _ st]) (use c in \<open>auto simp: committing_def step_write_def put_def\<close>)
  then have "committing t r ?s" "effort (threads ?s t) < effort ?l"
    using c pc i by (auto simp: committing_def effort_def Let_def step_write_def put_def)
  then show ?thesis
    using st by (auto simp: commit_next_def step_write_def)
qed

lemma bump_next:
  assumes c: "committing t r s" and pc: "pc (threads s t) = Bump"
  shows "\<exists>s'. tstep t s = Some s' \<and> commit_next t r s s'"
proof -
  let ?l = "threads s t"
  have b: "bump_assert (clock (the_clock s))" "alone t s"
    using c pc by (simp_all add: committing_def)
  then obtain s' wv where st: "tstep t s = Some s'" and s': "threads s' = (threads s)(t := ?l\<lparr> pc := Publish 0 wv \<rparr>)"
    using pc by (auto simp: tstep_def step_bump_def Let_def fetch_and_bump_clock_def)
  have "alone t s'"
    by (rule alone_step [OF b(2) st]) (simp add: s')
  then have "committing t r s'" "effort (threads s' t) < effort ?l"
    using c pc by (auto simp: committing_def effort_def Let_def s')
  then show ?thesis
    using st by (auto simp: commit_next_def s')
qed

lemma publish_next:
  assumes c: "committing t r s" and pc: "pc (threads s t) = Publish i wv"
  shows "\<exists>s'. tstep t s = Some s' \<and> commit_next t r s s'"
proof -
  let ?l = "threads s t"
  note d = committing_data [OF c]
  have i: "i < length (dests ?l)" "hs_end (ws ?l) = length (dests ?l)"
    using d pc by (simp_all add: pc_inv_def hs_end_dests)
  let ?s = "step_publish t ?l i wv s"
  have st: "tstep t s = Some ?s"
    using pc by (simp add: tstep_def Let_def)
  have "alone t ?s"
    by (rule alone_step [OF _ st]) (use c in \<open>auto simp: committing_def step_publish_def put_def Let_def\<close>)
  then have "committing t r ?s" "effort (threads ?s t) < effort ?l"
    using c pc i by (auto simp: committing_def effort_def Let_def step_publish_def put_def)
  then show ?thesis
    using st by (auto simp: commit_next_def step_publish_def Let_def)
qed

lemma success_next:
  assumes c: "committing t r s" and pc: "pc (threads s t) = Success"
  shows "\<exists>s'. tstep t s = Some s' \<and> commit_next t r s s'"
  using c pc by (simp add: tstep_def Let_def step_success_def commit_next_def committing_def)

lemma committing_next:
  assumes "committing t r s"
  shows "\<exists>s'. tstep t s = Some s' \<and> commit_next t r s s'"
proof (cases "pc (threads s t)")
  case (Lock i)
  then show ?thesis by (rule lock_next [OF assms])
next
  case (Lock_Cas i x)
  then show ?thesis by (rule lock_cas_next [OF assms])
next
  case (Validate j)
  then show ?thesis by (rule validate_next [OF assms])
next
  case (Write i)
  then show ?thesis by (rule write_next [OF assms])
next
  case Bump
  then show ?thesis by (rule bump_next [OF assms])
next
  case (Publish i x)
  then show ?thesis by (rule publish_next [OF assms])
next
  case Success
  then show ?thesis by (rule success_next [OF assms])
qed (use assms in \<open>simp_all add: committing_def\<close>)

lemma commit_goes:
  assumes "committing t r s"
  shows "\<exists>s' n. advance t s s' \<and> pc (threads s' t) = Idle \<and> jobs (threads s' t) = jobs (threads s t)
     \<and> returned (threads s' t) = returned (threads s t) @ [(Inr r, n)]"
  using assms
proof (induction "effort (threads s t)" arbitrary: s rule: less_induct)
  case less
  obtain s1 where s1: "tstep t s = Some s1" "commit_next t r s s1"
    using committing_next [OF less.prems] by blast
  show ?case
  proof (cases "pc (threads s1 t) = Idle")
    case True
    then show ?thesis
      using s1 advance_step [OF s1(1)] by (auto simp: commit_next_def committing_def)
  next
    case False
    then show ?thesis
      using s1 less.hyps [of s1] advance_next [OF s1(1)] by (fastforce simp: commit_next_def)
  qed
qed

section \<open>The whole transaction\<close>

lemma start_goes:
  assumes a: "alone t s" and pc: "pc (threads s t) = Idle" and j: "jobs (threads s t) = (kind, f) # js"
  shows "\<exists>s'. advance t s s' \<and> current t s' \<and> pc (threads s' t) = Body f \<and> func (threads s' t) = f
     \<and> jobs (threads s' t) = js \<and> returned (threads s' t) = returned (threads s t) \<and> committed s' = committed s
     \<and> the_clock s' = the_clock s \<and> (can_write (tx (threads s' t)) \<longleftrightarrow> kind \<noteq> Read_only)"
proof -
  let ?l1 = "(threads s t)\<lparr> pc := Start, jobs := js, func := f, td := (td (threads s t))\<lparr> tx_state := kind \<rparr> \<rparr>"
  let ?s1 = "put t ?l1 s"
  have st1: "tstep t s = Some ?s1"
    using pc j by (simp add: tstep_def step_idle_def Let_def)
  have a1: "alone t ?s1"
    by (rule alone_step [OF a st1]) simp
  let ?s2 = "step_get_clock t ?l1 ?s1"
  have st2: "tstep t ?s1 = Some ?s2"
    by (simp add: tstep_def Let_def)
  have a2: "alone t ?s2"
    by (rule alone_step [OF a1 st2]) (simp add: step_get_clock_def Let_def put_def)
  have g: "ginv s" using a by (simp add: alone_def stm_inv_def)
  have c2: "current t ?s2"
    using a2 clock_at(1) [OF g] by (simp add: current_def step_get_clock_def Let_def put_def get_clock_def
        transaction_def read_transaction_def)
  let ?s3 = "step_access_lock t (threads ?s2 t) ?s2"
  have st3: "tstep t ?s2 = Some ?s3"
    by (simp add: tstep_def Let_def step_get_clock_def put_def)
  have "goes t ?s2 ?s3"
    unfolding step_access_lock_def by (rule goes_put [OF c2]) (simp_all add: st3 step_access_lock_def)
  moreover have "advance t s ?s2"
    using advance_next [OF st1 advance_step [OF st2]] .
  ultimately have "advance t s ?s3" "current t ?s3"
    using advance_trans by (auto simp: goes_def)
  then show ?thesis
    by (intro exI [of _ ?s3] conjI)
      (simp_all add: step_access_lock_def step_get_clock_def Let_def put_def transaction_def read_transaction_def can_write_def)
qed

lemma outcome_of_body:
  assumes "current t s" "pc (threads s t) = Body q"
  shows "p_exec (func (threads s t)) (committed s) = p_exec q (overlay (committed s) (hs_view (ws (threads s t))))"
proof -
  let ?l = "threads s t"
  have "stm_inv s" using assms(1) by (simp add: current_def alone_def)
  note d = stm_invD [OF this, of t]
  have "snap_inv s ?l" using d(2) assms(2) by (simp add: active_t_def)
  then have "\<forall>v x. seen ?l v = Some x \<longrightarrow> committed s v = x"
    using assms(1) unfolding snap_inv_def current_def by metis
  then show ?thesis
    using d(1) assms(2) by (simp add: own_data_def cont_def)
qed

lemma return_commits:
  assumes c: "current t s" and pc: "pc (threads s t) = Body (P_Return r)" and b: "bump_assert (clock (the_clock s))"
  shows "\<exists>s'. tstep t s = Some s' \<and> committing t r s' \<and> jobs (threads s' t) = jobs (threads s t)
     \<and> returned (threads s' t) = returned (threads s t)"
proof -
  let ?l = "threads s t"
  let ?s = "step_return t ?l r s"
  have a: "alone t s" using c by (simp add: current_def)
  have st: "tstep t s = Some ?s"
    using pc by (simp add: tstep_def Let_def)
  have o: "threads ?s u = threads s u" if "u \<noteq> t" for u
    using that by (simp add: step_return_def log_commit_def put_def)
  have a': "alone t ?s"
    by (rule alone_step [OF a st o])
  have "committing t r ?s"
  proof (cases "\<not> can_write (tx ?l) \<or> hs_empty (ws ?l)")
    case True
    then show ?thesis
      using a' by (simp add: committing_def step_return_def log_commit_def put_def)
  next
    case False
    have inv: "pv_inv (read_set (td ?l))" "hs_inv (ws ?l)"
      using a stm_invD [of s t] by (auto simp: alone_def own_data_def)
    obtain rs where rs: "remove_writes_from_reads (td ?l) = (td ?l)\<lparr> read_set := rs \<rparr>"
      and ms: "mset (pv_items rs) = filter_mset (\<lambda>v. v \<notin> set (dests ?l)) (mset (pv_items (read_set (td ?l))))"
      by (rule remove_writes_from_reads_spec [OF inv])
    have "set (pv_items rs) \<inter> set (dests ?l) = {}"
      using arg_cong [OF ms, of set_mset] by auto
    moreover have "current t ?s"
      using a' c False by (simp add: current_def step_return_def put_def)
    ultimately show ?thesis
      using a' b False rs by (simp add: committing_def step_return_def put_def)
  qed
  then show ?thesis
    using st by (auto simp: step_return_def log_commit_def put_def)
qed

lemma throw_goes:
  assumes "pc (threads s t) = Body P_Throw"
  shows "\<exists>s'. advance t s s' \<and> pc (threads s' t) = Idle \<and> jobs (threads s' t) = jobs (threads s t)
     \<and> returned (threads s' t) = returned (threads s t) @ [(Inl User_exception, 0)]"
proof -
  let ?s = "put t ((threads s t)\<lparr> pc := Unwind \<rparr>) s"
  have "tstep t s = Some ?s" "tstep t ?s = Some (step_unwind t (threads ?s t) ?s)"
    using assms by (simp_all add: tstep_def Let_def)
  then have "advance t s (step_unwind t (threads ?s t) ?s)"
    using advance_next advance_step by blast
  then show ?thesis
    by (intro exI conjI, assumption) (simp_all add: step_unwind_def)
qed

lemma transaction_goes_alone:
  assumes "reachable stm_start stm_step s" and "\<And>u. u \<noteq> t \<Longrightarrow> held (threads s u) = {}"
    and "pc (threads s t) = Idle" and "jobs (threads s t) = (kind, f) # js"
    and "fst (p_exec f (storage_of s)) \<noteq> Inl Tx_retry" and "kind = Read_only \<Longrightarrow> reads_only f"
    and "bump_assert (clock (the_clock s))"
  shows "\<exists>k n. pc (threads (run_schedule (replicate k t) s) t) = Idle
     \<and> jobs (threads (run_schedule (replicate k t) s) t) = js
     \<and> returned (threads (run_schedule (replicate k t) s) t) = returned (threads s t) @ [(fst (p_exec f (storage_of s)), n)]"
proof -
  have a: "alone t s"
    using assms(2) reachable_inv [OF assms(1)] by (simp add: alone_def)
  have cm: "storage_of s = committed s"
    by (rule alone_storage [OF a]) (simp add: held_def assms(3))
  obtain s1 where s1: "advance t s s1" "current t s1" "pc (threads s1 t) = Body f" "func (threads s1 t) = f"
    "jobs (threads s1 t) = js" "returned (threads s1 t) = returned (threads s t)" "committed s1 = committed s"
    "the_clock s1 = the_clock s" "can_write (tx (threads s1 t)) \<longleftrightarrow> kind \<noteq> Read_only"
    using start_goes [OF a assms(3,4)] by blast
  obtain s2 q where s2: "goes t s1 s2" "pc (threads s2 t) = Body q" "q = P_Throw \<or> q = P_Retry \<or> (\<exists>r. q = P_Return r)"
    using body_goes [OF s1(2,3)] s1(9) assms(6) by blast
  have same: "current t s2" "committed s2 = committed s" "func (threads s2 t) = f" "jobs (threads s2 t) = js"
    "returned (threads s2 t) = returned (threads s t)" "the_clock s2 = the_clock s" "advance t s s2"
    using s2(1) s1 advance_trans by (auto simp: goes_def same_tx_def)
  have out: "fst (p_exec f (storage_of s)) = fst (p_exec q (overlay (committed s) (hs_view (ws (threads s2 t)))))"
    using outcome_of_body [OF same(1) s2(2)] same(2,3) cm by simp
  have "\<exists>s' n. advance t s2 s' \<and> pc (threads s' t) = Idle \<and> jobs (threads s' t) = js
     \<and> returned (threads s' t) = returned (threads s t) @ [(fst (p_exec f (storage_of s)), n)]"
  proof (cases q)
    case P_Throw
    then show ?thesis
      using throw_goes [of s2 t] s2(2) same out by auto
  next
    case (P_Return r)
    then obtain s3 where s3: "tstep t s2 = Some s3" "committing t r s3" "jobs (threads s3 t) = js"
      "returned (threads s3 t) = returned (threads s t)"
      using return_commits [OF same(1), of r] s2(2) same assms(7) by auto
    have "fst (p_exec f (storage_of s)) = Inr r"
      using out P_Return by simp
    then show ?thesis
      using commit_goes [OF s3(2)] advance_next [OF s3(1)] s3(3,4) by metis
  qed (use s2(3) out assms(5) in auto)
  then show ?thesis
    using same(7) advance_trans unfolding advance_def by metis
qed

text \<open>C8: Obstruction freedom: a thread that takes steps alone while no other thread holds a version lock
  finishes its next transaction after finitely many steps, and the call returns, or throws, what the program
  computes on the store. The program must not ask for a retry on that store, a read-only one must not
  write, and the clock must not have reached its last value.\<close>

theorem transaction_finishes_alone:
  assumes "reachable stm_start stm_step s" and "\<And>u. u \<noteq> t \<Longrightarrow> held (threads s u) = {}"
    and "pc (threads s t) = Idle" and "jobs (threads s t) = (kind, f) # js"
    and "fst (p_exec f (storage_of s)) \<noteq> Inl Tx_retry" and "kind = Read_only \<Longrightarrow> reads_only f"
    and "bump_assert (clock (the_clock s))"
  shows "\<exists>k n. pc (threads (run_schedule (replicate k t) s) t) = Idle
     \<and> jobs (threads (run_schedule (replicate k t) s) t) = js
     \<and> returned (threads (run_schedule (replicate k t) s) t) = returned (threads s t) @ [(fst (p_exec f (storage_of s)), n)]"
  by (rule transaction_goes_alone [OF assms])

text \<open>Thread 1 is in the middle of its transaction when thread 0 starts.\<close>

definition demo_busy :: "var_storage sys" where
  "demo_busy = run_schedule [1, 1, 1, 1] demo_sys"

lemma demo_busy_state:
  "held (threads demo_busy u) = {}" "pc (threads demo_busy (Suc 0)) \<noteq> Idle" "pc (threads demo_busy 0) = Idle"
  "jobs (threads demo_busy 0) = [(Read_write, setter)]" "returned (threads demo_busy 0) = []"
  "bump_assert (clock (the_clock demo_busy))"
  by (simp_all add: demo_busy_def run_defs held_def)

theorem transaction_finishes_alone_witness:
  "\<exists>k n. pc (threads (run_schedule (replicate k 0) demo_busy) 0) = Idle
     \<and> returned (threads (run_schedule (replicate k 0) demo_busy) 0) = [(Inr 7, n)]"
proof -
  have "reachable stm_start stm_step demo_busy"
    unfolding demo_busy_def by (rule demo_reachable)
  moreover have "fst (p_exec setter st) = Inr 7" for st
    by (simp add: setter_def)
  ultimately show ?thesis
    using transaction_finishes_alone [OF _ demo_busy_state(1,3,4) _ _ demo_busy_state(6)]
    by (auto simp: demo_busy_state(5))
qed

lemma tstep_other:
  assumes "tstep t s = Some s'" "u \<noteq> t"
  shows "threads s' u = threads s u"
proof (cases "pc (threads s t) = Idle")
  case True
  then show ?thesis
    using assms by (auto simp: tstep_def step_idle_def Let_def split: list.splits)
next
  case False
  then show ?thesis
    using keeps_programs_step [OF assms(1)] assms(2) by (simp add: keeps_programs_def)
qed

lemma advance_other: "u \<noteq> t \<Longrightarrow> threads (run_schedule (replicate k t) s) u = threads s u"
  by (induction k arbitrary: s) (auto split: option.splits dest: tstep_other)


section \<open>A run of one transaction\<close>

definition one_job :: "'r stm_prog \<Rightarrow> nat \<Rightarrow> (tx_kind \<times> 'r stm_prog) list" where
  "one_job f t = (if t = 0 then [(Read_write, f)] else [])"

lemma one_job_runs:
  assumes "fst (p_exec f st) \<noteq> Inl Tx_retry"
  shows "\<exists>s n. runs (one_job f) st s \<and> (\<forall>t. pc (threads s t) = Idle) \<and> returned (threads s 0) = [(fst (p_exec f st), n)]"
proof -
  let ?s = "new_sys (one_job f) st"
  have good: "good_jobs (one_job f t)" for f :: "'a stm_prog" and t
    by (simp add: good_jobs_def one_job_def)
  have s: "held (threads ?s u) = {}" "pc (threads ?s u) = Idle" "jobs (threads ?s 0) = [(Read_write, f)]"
    "returned (threads ?s 0) = []" "storage_of ?s = st" "bump_assert (clock (the_clock ?s))" for u
    by (simp_all add: new_sys_def new_thread_def held_def one_job_def new_domain_def bump_assert_def max_version_val
        bump_size_def lock_bit_val)
  have "reachable stm_start stm_step ?s"
  proof (rule reach_start)
    show "stm_start ?s"
      unfolding stm_start_def by (intro exI conjI, rule allI, rule good [of f], rule refl)
  qed
  then obtain k n where k: "pc (threads (run_schedule (replicate k 0) ?s) 0) = Idle"
    "returned (threads (run_schedule (replicate k 0) ?s) 0) = [(fst (p_exec f st), n)]"
    using transaction_goes_alone [OF _ s(1,2,3) _ _ s(6)] assms s(4,5) by auto
  have "pc (threads (run_schedule (replicate k 0) ?s) t) = Idle" for t
    using k(1) s(2) advance_other [of t 0 k ?s] by (cases "t = 0") simp_all
  then show ?thesis
    using k(2) unfolding runs_def by blast
qed

end
