(* ===== verification/Stm_List.thy ===== *)
theory Stm_List
  imports Stm_Solo "HOL-Library.Monad_Syntax"
begin

text \<open>
  The doubly linked list of \<^verbatim>\<open>containers/list.hpp\<close>. The first half is the sequential model on the store a
  transaction sees, with the conventions of the red-black tree: address 0 is the null pointer, reading
  through a pointer that is no node is the result \<open>None\<close>. The second half gives the transaction of
  \<open>emplace_front\<close> to the concurrent machine: pushes from any number of threads are counted exactly.
\<close>

section \<open>State\<close>

record 'v list_node =
  ln_value :: 'v
  ln_prev :: uword
  ln_next :: uword

record 'v stm_list =
  ls_head :: uword
  ls_size :: uword
  ls_nodes :: "uword \<Rightarrow> 'v list_node option"
  ls_free :: "uword list"

text \<open>The pointers of a new node are value-initialized; \<open>prev_\<close> is never read before it is set.\<close>

definition new_list_node :: "'v \<Rightarrow> 'v list_node" where
  "new_list_node u = \<lparr> ln_value = u, ln_prev = 0, ln_next = 0 \<rparr>"

definition list_new :: "uword list \<Rightarrow> 'v stm_list" where
  "list_new free = \<lparr> ls_head = 0, ls_size = 0, ls_nodes = Map.empty, ls_free = free \<rparr>"

definition ln_get :: "('v list_node \<Rightarrow> 'a) \<Rightarrow> uword \<Rightarrow> 'v stm_list \<Rightarrow> 'a option" where
  "ln_get f n s = map_option f (ls_nodes s n)"

definition ln_set :: "('v list_node \<Rightarrow> 'v list_node) \<Rightarrow> uword \<Rightarrow> 'v stm_list \<Rightarrow> 'v stm_list option" where
  "ln_set g n s =
     (case ls_nodes s n of None \<Rightarrow> None | Some d \<Rightarrow> Some (s\<lparr> ls_nodes := (ls_nodes s)(n \<mapsto> g d) \<rparr>))"

section \<open>Operations\<close>

text \<open>The neighbours of a node, through the transaction and without it: the store is the one the reader sees.\<close>

definition list_prev :: "uword \<Rightarrow> 'v stm_list \<Rightarrow> uword option" where
  "list_prev n s = ln_get ln_prev n s"

definition list_next :: "uword \<Rightarrow> 'v stm_list \<Rightarrow> uword option" where
  "list_next n s = ln_get ln_next n s"

definition unsafe_prev :: "uword \<Rightarrow> 'v stm_list \<Rightarrow> uword option" where
  "unsafe_prev n s = ln_get ln_prev n s"

definition unsafe_next :: "uword \<Rightarrow> 'v stm_list \<Rightarrow> uword option" where
  "unsafe_next n s = ln_get ln_next n s"

definition ln_release :: "uword \<Rightarrow> 'v stm_list \<Rightarrow> 'v stm_list option" where
  "ln_release n s =
     (case ls_nodes s n of
        None \<Rightarrow> None
      | Some _ \<Rightarrow> Some (s\<lparr> ls_nodes := (ls_nodes s)(n := None), ls_free := n # ls_free s \<rparr>))"

partial_function (option) destroy_deallocate_sublist :: "uword \<Rightarrow> 'v stm_list \<Rightarrow> 'v stm_list option" where
  "destroy_deallocate_sublist node s =
     (if node \<noteq> 0 then do {
        next \<leftarrow> unsafe_next node s;
        s \<leftarrow> ln_release node s;
        destroy_deallocate_sublist next s
      }
      else Some s)"

declare destroy_deallocate_sublist.simps [code]

definition list_destruct :: "'v stm_list \<Rightarrow> 'v stm_list option" where
  "list_destruct s = destroy_deallocate_sublist (ls_head s) s"

text \<open>The body of \<open>clear\<close> and the sublist its grace-period callback destroys, if any.\<close>

definition list_clear :: "'v stm_list \<Rightarrow> uword option \<times> 'v stm_list" where
  "list_clear s =
     (let s1 = s\<lparr> ls_size := 0 \<rparr>;
          root = ls_head s1;
          s2 = s1\<lparr> ls_head := 0 \<rparr>
      in (if root \<noteq> 0 then Some root else None, s2))"

text \<open>The transaction of \<open>emplace_front\<close>, once the node is there.\<close>

definition link_front :: "uword \<Rightarrow> 'v stm_list \<Rightarrow> 'v stm_list option" where
  "link_front new_head s = do {
     let head = ls_head s;
     s \<leftarrow> ln_set (ln_next_update (\<lambda>_. head)) new_head s;
     s \<leftarrow> (if head \<noteq> 0 then ln_set (ln_prev_update (\<lambda>_. new_head)) head s else Some s);
     Some (s\<lparr> ls_size := ls_size s + 1, ls_head := new_head \<rparr>)
   }"

text \<open>\<open>None\<close> also stands for the allocation that fails.\<close>

definition emplace_front :: "'v \<Rightarrow> 'v stm_list \<Rightarrow> 'v stm_list option" where
  "emplace_front u s =
     (case ls_free s of
        [] \<Rightarrow> None
      | n # ns \<Rightarrow> link_front n (s\<lparr> ls_nodes := (ls_nodes s)(n \<mapsto> new_list_node u), ls_free := ns \<rparr>))"

definition list_size :: "'v stm_list \<Rightarrow> uword" where
  "list_size s = ls_size s"

section \<open>Representation\<close>

primrec lseg :: "(uword \<Rightarrow> 'v list_node option) \<Rightarrow> uword \<Rightarrow> uword \<Rightarrow> (uword \<times> 'v) list \<Rightarrow> bool" where
  "lseg h p a [] \<longleftrightarrow> a = 0"
| "lseg h p a (x # xs) \<longleftrightarrow> a = fst x \<and> a \<noteq> 0
     \<and> (\<exists>b. h a = Some \<lparr> ln_value = snd x, ln_prev = p, ln_next = b \<rparr> \<and> lseg h a b xs)"

text \<open>The list in the state \<open>s\<close> holds the values \<open>vs\<close>, front first.\<close>

definition list_ok :: "'v stm_list \<Rightarrow> 'v list \<Rightarrow> bool" where
  "list_ok s vs \<longleftrightarrow> (\<exists>xs. map snd xs = vs \<and> lseg (ls_nodes s) 0 (ls_head s) xs
     \<and> distinct (map fst xs @ ls_free s) \<and> 0 \<notin> set (ls_free s) \<and> ls_size s = of_nat (length vs))"

lemma lseg_upd [simp]: "n \<notin> set (map fst xs) \<Longrightarrow> lseg (h(n := d)) p a xs = lseg h p a xs"
proof (induction xs arbitrary: p a)
  case (Cons x xs)
  then show ?case by (cases "a = n") auto
qed simp

lemma lseg_nonzero: "lseg h p a xs \<Longrightarrow> 0 \<notin> set (map fst xs)"
  by (induction xs arbitrary: p a) auto

lemma list_ok_new: "distinct free \<Longrightarrow> 0 \<notin> set free \<Longrightarrow> list_ok (list_new free) []"
  by (simp add: list_ok_def list_new_def)

lemma link_front_ok:
  assumes "lseg (ls_nodes s) 0 (ls_head s) xs" "distinct (map fst xs)" "n \<noteq> 0" "n \<notin> set (map fst xs)"
    "ls_nodes s n = Some (new_list_node u)"
  shows "\<exists>s'. link_front n s = Some s' \<and> lseg (ls_nodes s') 0 n ((n, u) # xs) \<and> ls_head s' = n
     \<and> ls_size s' = ls_size s + 1 \<and> ls_free s' = ls_free s"
  using assms by (cases xs) (auto simp: link_front_def ln_set_def new_list_node_def)

lemma emplace_front_ok:
  assumes "list_ok s vs" "ls_free s = n # ns"
  shows "\<exists>s'. emplace_front u s = Some s' \<and> list_ok s' (u # vs) \<and> ls_free s' = ns"
proof -
  obtain xs where xs: "map snd xs = vs" "lseg (ls_nodes s) 0 (ls_head s) xs" "distinct (map fst xs @ ls_free s)"
    "0 \<notin> set (ls_free s)" "ls_size s = of_nat (length vs)"
    using assms(1) by (auto simp: list_ok_def)
  define s1 where "s1 = s\<lparr> ls_nodes := (ls_nodes s)(n \<mapsto> new_list_node u), ls_free := ns \<rparr>"
  have n: "n \<noteq> 0" "n \<notin> set (map fst xs)"
    using xs(3,4) assms(2) by auto
  obtain s' where s': "link_front n s1 = Some s'" "lseg (ls_nodes s') 0 n ((n, u) # xs)" "ls_head s' = n"
    "ls_size s' = ls_size s + 1" "ls_free s' = ns"
    using link_front_ok [of s1 xs n u] xs n by (auto simp: s1_def)
  have "list_ok s' (u # vs)"
    unfolding list_ok_def using s' xs assms(2) by (intro exI [of _ "(n, u) # xs"]) auto
  then show ?thesis
    using s' by (simp add: emplace_front_def assms(2) s1_def)
qed

lemma destroy_sublist_ok:
  assumes "lseg (ls_nodes s) p a xs" "distinct (map fst xs)"
  shows "\<exists>s'. destroy_deallocate_sublist a s = Some s' \<and> ls_free s' = rev (map fst xs) @ ls_free s
     \<and> ls_nodes s' = (ls_nodes s) |` (- set (map fst xs)) \<and> ls_head s' = ls_head s \<and> ls_size s' = ls_size s"
  using assms
proof (induction xs arbitrary: s p a)
  case Nil
  then show ?case by (subst destroy_deallocate_sublist.simps) (simp add: restrict_map_def)
next
  case (Cons x xs)
  then obtain b where a: "a = fst x" "a \<noteq> 0" "ls_nodes s a = Some \<lparr> ln_value = snd x, ln_prev = p, ln_next = b \<rparr>"
    "lseg (ls_nodes s) a b xs" "a \<notin> set (map fst xs)"
    by auto
  define s1 where "s1 = s\<lparr> ls_nodes := (ls_nodes s)(a := None), ls_free := a # ls_free s \<rparr>"
  have n: "ls_nodes s1 = (ls_nodes s)(a := None)" "ls_free s1 = a # ls_free s" "ls_head s1 = ls_head s" "ls_size s1 = ls_size s"
    by (simp_all add: s1_def)
  have l: "lseg (ls_nodes s1) a b xs"
    unfolding n using a(4) lseg_upd [OF a(5)] by blast
  obtain s' where s': "destroy_deallocate_sublist b s1 = Some s'" "ls_free s' = rev (map fst xs) @ ls_free s1"
     "ls_nodes s' = (ls_nodes s1) |` (- set (map fst xs))" "ls_head s' = ls_head s1" "ls_size s' = ls_size s1"
    using Cons.IH [OF l] Cons.prems(2) by auto
  have "destroy_deallocate_sublist a s = destroy_deallocate_sublist b s1"
    using a by (subst destroy_deallocate_sublist.simps) (simp add: unsafe_next_def ln_get_def ln_release_def s1_def)
  moreover have "ls_nodes s' = (ls_nodes s) |` (- set (map fst (x # xs)))"
    using s'(3) a(1) n(1) by (auto simp: restrict_map_def)
  ultimately show ?case
    using s' a n by simp
qed

section \<open>Properties\<close>

definition demo_list :: "nat stm_list" where
  "demo_list = \<lparr> ls_head = 2, ls_size = 2,
     ls_nodes = [1 \<mapsto> \<lparr> ln_value = 10, ln_prev = 2, ln_next = 0 \<rparr>, 2 \<mapsto> \<lparr> ln_value = 20, ln_prev = 0, ln_next = 1 \<rparr>],
     ls_free = [3] \<rparr>"

lemma demo_list_ok: "list_ok demo_list [20, 10]"
  unfolding list_ok_def by (intro exI [of _ "[(2, 20), (1, 10)]"]) (simp add: demo_list_def)

text \<open>While the allocator has a node, \<open>emplace_front\<close> succeeds and leaves a well-linked list with the new
  value in front of the others and a size one larger.\<close>

theorem emplace_front_pushes:
  assumes "list_ok s vs" and "ls_free s = n # ns"
  shows "\<exists>s'. emplace_front u s = Some s' \<and> list_ok s' (u # vs) \<and> list_size s' = list_size s + 1"
proof -
  obtain s' where "emplace_front u s = Some s'" "list_ok s' (u # vs)"
    using emplace_front_ok [OF assms] by blast
  then show ?thesis
    using assms(1) by (auto simp: list_ok_def list_size_def)
qed

lemma emplace_front_pushes_witness:
  "\<exists>s'. emplace_front 30 demo_list = Some s' \<and> list_ok s' [30, 20, 10] \<and> list_size s' = 3"
  using emplace_front_pushes [OF demo_list_ok, of 3 "[]" 30] by (simp add: demo_list_def list_size_def)

text \<open>C30: \<open>clear\<close> empties the list, and the callback it leaves behind frees all its nodes, each of them once.\<close>

theorem clear_frees_every_node:
  assumes "list_ok s vs"
  shows "\<exists>root s1 s'. list_clear s = (root, s1) \<and> list_ok s1 [] \<and> (root = None \<longleftrightarrow> vs = [])
     \<and> (case root of None \<Rightarrow> Some s1 | Some r \<Rightarrow> destroy_deallocate_sublist r s1) = Some s'
     \<and> list_ok s' [] \<and> length (ls_free s') = length vs + length (ls_free s)"
proof -
  obtain xs where xs: "map snd xs = vs" "lseg (ls_nodes s) 0 (ls_head s) xs" "distinct (map fst xs @ ls_free s)" "0 \<notin> set (ls_free s)"
    using assms by (auto simp: list_ok_def)
  define s1 where "s1 = s\<lparr> ls_size := 0, ls_head := 0 \<rparr>"
  have z: "0 \<notin> set (map fst xs)"
    by (rule lseg_nonzero [OF xs(2)])
  show ?thesis
  proof (cases xs)
    case Nil
    then show ?thesis
      using xs by (auto simp: list_clear_def Let_def list_ok_def)
  next
    case (Cons x ys)
    then have h: "ls_head s \<noteq> 0" "vs \<noteq> []"
      using xs by auto
    obtain s' where "destroy_deallocate_sublist (ls_head s) s1 = Some s'" "ls_free s' = rev (map fst xs) @ ls_free s"
      "ls_head s' = 0" "ls_size s' = 0"
      using destroy_sublist_ok [of s1 0 "ls_head s" xs] xs by (auto simp: s1_def)
    then show ?thesis
      using xs z h by (intro exI [of _ "Some (ls_head s)"] exI [of _ s1] exI [of _ s'])
        (auto simp: list_clear_def s1_def list_ok_def)
  qed
qed

lemma clear_frees_every_node_witness:
  "\<exists>root s1 s'. list_clear demo_list = (Some root, s1) \<and> destroy_deallocate_sublist root s1 = Some s' \<and> length (ls_free s') = 3"
  using clear_frees_every_node [OF demo_list_ok] by (auto simp: demo_list_def)

section \<open>Pushing from many threads\<close>

text \<open>
  The accesses of the transaction in \<open>emplace_front\<close> to variables other threads can reach: the head, the
  \<open>prev_\<close> of the old head and the size. The unsafe store to the new node's \<open>next_\<close> is private to the
  thread until the head points to the node.
\<close>

definition emplace_front_body :: "var_ref \<Rightarrow> var_ref \<Rightarrow> (var_storage \<Rightarrow> var_ref) \<Rightarrow> var_storage \<Rightarrow> unit stm_prog" where
  "emplace_front_body head_v size_v prev_v new_head =
     P_Get head_v (\<lambda>h.
       let rest = P_Get size_v (\<lambda>n. P_Set size_v (n + 1) (P_Set head_v new_head (P_Return ())))
       in if h \<noteq> 0 then P_Set (prev_v h) new_head rest else rest)"

lemma emplace_front_body_exec:
  assumes "head_v \<noteq> size_v" "\<And>n. prev_v n \<noteq> head_v" "\<And>n. prev_v n \<noteq> size_v"
  shows "\<exists>st'. p_exec (emplace_front_body head_v size_v prev_v n) st = (Inr (), st') \<and> st' head_v = n \<and> st' size_v = st size_v + 1
     \<and> (st head_v \<noteq> 0 \<longrightarrow> st' (prev_v (st head_v)) = n)"
  using assms by (auto simp: emplace_front_body_def Let_def)

text \<open>C28: However many threads push at the same time and however their steps interleave, \<open>size_\<close> has grown by
  the number of committed calls of \<open>emplace_front\<close> when no transaction runs.\<close>

theorem concurrent_pushes_counted:
  assumes "runs js st s" and "\<And>t. pc (threads s t) = Idle"
    and "\<And>t. set (js t) \<subseteq> range (\<lambda>n. (Read_write, emplace_front_body head_v size_v prev_v n))"
    and "head_v \<noteq> size_v" and "\<And>n. prev_v n \<noteq> head_v" and "\<And>n. prev_v n \<noteq> size_v"
  shows "storage_of s size_v = st size_v + of_nat (card (commits s (tickets s)))"
proof -
  have good: "good_jobs (js t)" for t
    using assms(3) by (fastforce simp: good_jobs_def)
  have one: "st' size_v = st size_v + 1" if j: "(kind, f) \<in> set (js t)" "p_exec f st = (Inr r, st')" for t kind f st r st'
  proof -
    obtain n where "f = emplace_front_body head_v size_v prev_v n"
      using subsetD [OF assms(3) j(1)] by auto
    then show ?thesis
      using emplace_front_body_exec [of head_v size_v prev_v n st] assms(4-6) j(2) by auto
  qed
  have "storage_of s size_v = st size_v + (\<Sum>m \<in> commits s (tickets s). 1)"
    by (rule idle_sum [OF assms(1) good assms(2), where amount = "\<lambda>_. 1"]) (rule one)
  then show ?thesis by simp
qed

text \<open>One thread with one call, on an empty list.\<close>

theorem concurrent_pushes_counted_witness:
  "\<exists>s n. runs (one_job (emplace_front_body 16 32 (\<lambda>_. 48) 64)) (\<lambda>_. 0) s
     \<and> returned (threads s 0) = [(Inr (), n)] \<and> storage_of s 32 = of_nat (card (commits s (tickets s)))"
proof -
  have "fst (p_exec (emplace_front_body 16 32 (\<lambda>_. 48) 64) (\<lambda>_. 0)) = Inr ()"
    using emplace_front_body_exec [of 16 32 "\<lambda>_. 48" 64 "\<lambda>_. 0"] by auto
  then obtain s n where s: "runs (one_job (emplace_front_body 16 32 (\<lambda>_. 48) 64)) (\<lambda>_. 0) s"
    "\<And>t. pc (threads s t) = Idle" "returned (threads s 0) = [(Inr (), n)]"
    using one_job_runs by (metis sum.distinct(1))
  have "storage_of s 32 = 0 + of_nat (card (commits s (tickets s)))"
    by (rule concurrent_pushes_counted [OF s(1,2), of 16 32 "\<lambda>_. 48"]) (auto simp: one_job_def)
  then show ?thesis
    using s(1,3) by auto
qed

end
