(* ===== verification/Easy_Var.thy ===== *)
theory Easy_Var
  imports Stm_Solo
begin

text \<open>
  \<^verbatim>\<open>easy_var.hpp\<close> and \<^verbatim>\<open>detail/easy_var_detail.hpp\<close>: a variable whose every operator is a transaction of
  its own. The value type is a 64-bit integral type, kept in the storage word. The lambda of each
  operator is a program of the concurrent machine; \<open>None\<close> stands for a lambda that returns nothing.
\<close>

section \<open>Operators\<close>

type_synonym easy_prog = "var_storage option stm_prog"

definition easy_get :: "var_ref \<Rightarrow> easy_prog" where
  "easy_get v = P_Get v (\<lambda>x. P_Return (Some x))"

text \<open>Assignment from another variable and from a value.\<close>

definition easy_assign_var :: "var_ref \<Rightarrow> var_ref \<Rightarrow> easy_prog" where
  "easy_assign_var v rhs = P_Get rhs (\<lambda>x. P_Set v x (P_Return None))"

definition easy_assign :: "var_ref \<Rightarrow> var_storage \<Rightarrow> easy_prog" where
  "easy_assign v rhs = P_Set v rhs (P_Return None)"

text \<open>The two forms of \<open>LSTM_ASSIGN_OP\<close>, for an operator \<open>f\<close>.\<close>

definition easy_op :: "(var_storage \<Rightarrow> var_storage \<Rightarrow> var_storage) \<Rightarrow> var_ref \<Rightarrow> var_storage \<Rightarrow> easy_prog" where
  "easy_op f v u = P_Get v (\<lambda>x. P_Set v (f x u) (P_Return None))"

definition easy_op_var :: "(var_storage \<Rightarrow> var_storage \<Rightarrow> var_storage) \<Rightarrow> var_ref \<Rightarrow> var_ref \<Rightarrow> easy_prog" where
  "easy_op_var f v uvar = P_Get v (\<lambda>x. P_Get uvar (\<lambda>y. P_Set v (f x y) (P_Return None)))"

text \<open>The two forms of \<open>LSTM_RMW_UNARY_OP\<close>: before and after.\<close>

definition easy_pre :: "(var_storage \<Rightarrow> var_storage \<Rightarrow> var_storage) \<Rightarrow> var_ref \<Rightarrow> easy_prog" where
  "easy_pre f v = P_Get v (\<lambda>x. P_Set v (f x 1) (P_Return None))"

definition easy_post :: "(var_storage \<Rightarrow> var_storage \<Rightarrow> var_storage) \<Rightarrow> var_ref \<Rightarrow> easy_prog" where
  "easy_post f v = P_Get v (\<lambda>result. P_Set v (f result 1) (P_Return (Some result)))"

lemmas easy_defs = easy_get_def easy_assign_var_def easy_assign_def easy_op_def easy_op_var_def easy_pre_def easy_post_def

section \<open>Updates from many threads\<close>

text \<open>The operators that add to a variable, with what they add.\<close>

datatype update = Add var_storage | Sub var_storage | Pre_Inc | Pre_Dec | Post_Inc | Post_Dec

primrec update_prog :: "var_ref \<Rightarrow> update \<Rightarrow> easy_prog" where
  "update_prog v (Add u) = easy_op (+) v u"
| "update_prog v (Sub u) = easy_op (-) v u"
| "update_prog v Pre_Inc = easy_pre (+) v"
| "update_prog v Pre_Dec = easy_pre (-) v"
| "update_prog v Post_Inc = easy_post (+) v"
| "update_prog v Post_Dec = easy_post (-) v"

primrec update_amount :: "update \<Rightarrow> var_storage" where
  "update_amount (Add u) = u"
| "update_amount (Sub u) = - u"
| "update_amount Pre_Inc = 1"
| "update_amount Pre_Dec = - 1"
| "update_amount Post_Inc = 1"
| "update_amount Post_Dec = - 1"

lemma update_exec:
  "p_exec (update_prog v u) st = (Inr (case u of Post_Inc \<Rightarrow> Some (st v) | Post_Dec \<Rightarrow> Some (st v) | _ \<Rightarrow> None),
     st(v := st v + update_amount u))"
  by (cases u) (simp_all add: easy_defs)

text \<open>What a program adds to a variable that is 0.\<close>

definition amount_of :: "var_ref \<Rightarrow> easy_prog \<Rightarrow> var_storage" where
  "amount_of v f = snd (p_exec f (\<lambda>_. 0)) v"

lemma amount_of_update [simp]: "amount_of v (update_prog v u) = update_amount u"
  by (simp add: amount_of_def update_exec)

text \<open>C29: No update is lost: however many threads apply \<open>+=\<close>, \<open>-=\<close>, \<open>++\<close> and \<open>--\<close> to the same variable and
  however their steps interleave, its value is the initial one plus the sum of all committed updates.\<close>

theorem easy_updates_not_lost:
  assumes "runs js st s" and "\<And>t. pc (threads s t) = Idle"
    and "\<And>t. set (js t) \<subseteq> range (\<lambda>u. (Read_write, update_prog v u))"
  shows "storage_of s v = st v + (\<Sum>m \<in> commits s (tickets s). amount_of v (e_func (the (log s m))))"
proof (rule idle_sum [OF assms(1) _ assms(2)])
  show "good_jobs (js t)" for t
    using assms(3) by (fastforce simp: good_jobs_def)
  fix t kind f st r st'
  assume j: "(kind, f) \<in> set (js t)" "p_exec f st = (Inr r, st')"
  obtain u where "f = update_prog v u"
    using subsetD [OF assms(3) j(1)] by auto
  then show "st' v = st v + amount_of v f"
    using j(2) by (auto simp: update_exec)
qed

theorem easy_updates_not_lost_witness:
  "\<exists>s n. runs (one_job (update_prog 16 (Add 5))) (\<lambda>_. 2) s \<and> returned (threads s 0) = [(Inr None, n)]
     \<and> storage_of s 16 = 2 + (\<Sum>m \<in> commits s (tickets s). amount_of 16 (e_func (the (log s m))))"
proof -
  have "fst (p_exec (update_prog 16 (Add 5)) (\<lambda>_. 2)) = Inr None"
    by (simp add: update_exec del: update_prog.simps)
  then obtain s n where s: "runs (one_job (update_prog 16 (Add 5))) (\<lambda>_. 2) s"
    "\<And>t. pc (threads s t) = Idle" "returned (threads s 0) = [(Inr None, n)]"
    using one_job_runs by (metis sum.distinct(1))
  have "storage_of s 16 = 2 + (\<Sum>m \<in> commits s (tickets s). amount_of 16 (e_func (the (log s m))))"
    by (rule easy_updates_not_lost [OF s(1,2)]) (auto simp: one_job_def simp del: update_prog.simps)
  then show ?thesis
    using s(1,3) by blast
qed

end
