(* ===== verification/Privatized_Future.thy ===== *)
theory Privatized_Future
  imports Prelude
begin

text \<open>
  \<^verbatim>\<open>privatized_future.hpp\<close>: the shared data of a future and the future that owns it. Every assertion is a
  predicate next to the operation, so both builds can be read off: with assertions an operation runs
  only where its predicate holds, without them it always runs. \<open>reclaim_at\<close>, which \<open>wait\<close> calls, is a
  member function the repository does not declare; it is a parameter. As it stands the header does not compile
  (the only file that includes it has the line commented out), and the assertions of the setters contradict each other, so
  nothing is claimed about what a future delivers.
\<close>

section \<open>The shared data\<close>

text \<open>The union: nothing yet, a value or an \<open>exception_ptr\<close>, which is null once it has been moved from.\<close>

datatype ('t, 'e) data_t = Uninitialized | Data_t 't | Data_exc "'e option"

record ('t, 'e) pf_data =
  pf_union :: "('t, 'e) data_t"
  pf_tls_td :: uword
  reclaim_buffer_idx :: "8 word"
  has_exception_flag :: bool
  is_ready_flag :: bool
  abandoned_flag :: bool

definition pf_data_new :: "uword \<Rightarrow> 8 word \<Rightarrow> ('t, 'e) pf_data" where
  "pf_data_new in_tls_td in_reclaim_buffer_idx = \<lparr> pf_union = Uninitialized, pf_tls_td = in_tls_td, reclaim_buffer_idx = in_reclaim_buffer_idx,
     has_exception_flag = False, is_ready_flag = False, abandoned_flag = False \<rparr>"

definition pf_is_ready :: "('t, 'e) pf_data \<Rightarrow> bool" where
  "pf_is_ready d = is_ready_flag d"

definition has_exception_assert :: "('t, 'e) pf_data \<Rightarrow> bool" where
  "has_exception_assert d \<longleftrightarrow> pf_is_ready d"

definition has_exception :: "('t, 'e) pf_data \<Rightarrow> bool" where
  "has_exception d = has_exception_flag d"

text \<open>The assertion of \<open>set_has_exception\<close> calls \<open>has_exception\<close>, with its own assertion.\<close>

definition set_has_exception_assert :: "('t, 'e) pf_data \<Rightarrow> bool" where
  "set_has_exception_assert d \<longleftrightarrow> has_exception_assert d \<and> \<not> has_exception d"

definition set_has_exception :: "('t, 'e) pf_data \<Rightarrow> ('t, 'e) pf_data" where
  "set_has_exception d = d\<lparr> has_exception_flag := True \<rparr>"

definition set_is_ready_assert :: "('t, 'e) pf_data \<Rightarrow> bool" where
  "set_is_ready_assert d \<longleftrightarrow> \<not> is_ready_flag d"

definition set_is_ready :: "('t, 'e) pf_data \<Rightarrow> ('t, 'e) pf_data" where
  "set_is_ready d = d\<lparr> is_ready_flag := True \<rparr>"

definition pf_abandoned :: "('t, 'e) pf_data \<Rightarrow> bool" where
  "pf_abandoned d = abandoned_flag d"

definition abandon_assert :: "('t, 'e) pf_data \<Rightarrow> bool" where
  "abandon_assert d \<longleftrightarrow> \<not> pf_is_ready d \<and> \<not> pf_abandoned d"

definition abandon :: "('t, 'e) pf_data \<Rightarrow> ('t, 'e) pf_data" where
  "abandon d = d\<lparr> abandoned_flag := True \<rparr>"

text \<open>The three assertions both setters begin with.\<close>

definition set_assert :: "('t, 'e) pf_data \<Rightarrow> bool" where
  "set_assert d \<longleftrightarrow> \<not> pf_abandoned d \<and> \<not> pf_is_ready d \<and> has_exception_assert d \<and> \<not> has_exception d"

definition set_exception :: "'e \<Rightarrow> ('t, 'e) pf_data \<Rightarrow> ('t, 'e) pf_data" where
  "set_exception in_exc d = set_is_ready (set_has_exception (d\<lparr> pf_union := Data_exc (Some in_exc) \<rparr>))"

definition set_value :: "'t \<Rightarrow> ('t, 'e) pf_data \<Rightarrow> ('t, 'e) pf_data" where
  "set_value in_t d = set_is_ready (d\<lparr> pf_union := Data_t in_t \<rparr>)"

text \<open>Reading a member of the union that is not the active one is the result \<open>None\<close>.\<close>

definition union_t :: "('t, 'e) pf_data \<Rightarrow> 't option" where
  "union_t d = (case pf_union d of Data_t x \<Rightarrow> Some x | _ \<Rightarrow> None)"

definition union_exc :: "('t, 'e) pf_data \<Rightarrow> 'e option option" where
  "union_exc d = (case pf_union d of Data_exc x \<Rightarrow> Some x | _ \<Rightarrow> None)"

type_synonym ('t, 'e) reclaim_fn = "uword \<Rightarrow> 8 word \<Rightarrow> ('t, 'e) pf_data \<Rightarrow> ('t, 'e) pf_data"

definition pf_wait :: "('t, 'e) reclaim_fn \<Rightarrow> ('t, 'e) pf_data \<Rightarrow> ('t, 'e) pf_data" where
  "pf_wait reclaim_at d =
     (if \<not> pf_is_ready d then reclaim_at (pf_tls_td d) (reclaim_buffer_idx d) d else d)"

text \<open>The assertion of \<open>get\<close> after it has waited.\<close>

definition pf_get_assert :: "('t, 'e) reclaim_fn \<Rightarrow> ('t, 'e) pf_data \<Rightarrow> bool" where
  "pf_get_assert reclaim_at d \<longleftrightarrow> pf_is_ready (pf_wait reclaim_at d)"

text \<open>
  \<open>get\<close> throws the exception or returns the value. The exception pointer is moved into the call of
  \<open>rethrow_exception\<close>, which leaves a null one behind; to rethrow a null pointer is undefined.
\<close>

definition pf_get :: "('t, 'e) reclaim_fn \<Rightarrow> ('t, 'e) pf_data \<Rightarrow> (('e + 't) \<times> ('t, 'e) pf_data) option" where
  "pf_get reclaim_at d =
     (let d1 = pf_wait reclaim_at d
      in if has_exception d1
         then (case union_exc d1 of
                 Some (Some e) \<Rightarrow> Some (Inl e, d1\<lparr> pf_union := Data_exc None \<rparr>)
               | _ \<Rightarrow> None)
         else map_option (\<lambda>x. (Inr x, d1)) (union_t d1))"

text \<open>What the destructor destroys.\<close>

definition pf_destroys :: "('t, 'e) pf_data \<Rightarrow> ('e option + 't) option option" where
  "pf_destroys d =
     (if pf_is_ready d
      then (if has_exception d then map_option (Some \<circ> Inl) (union_exc d) else map_option (Some \<circ> Inr) (union_t d))
      else Some None)"

section \<open>The future\<close>

text \<open>The pointer a future owns and the heap of shared data.\<close>

type_synonym ('t, 'e) pf_heap = "uword \<Rightarrow> ('t, 'e) pf_data option"

definition pf_valid :: "uword \<Rightarrow> bool" where
  "pf_valid p \<longleftrightarrow> p \<noteq> 0"

text \<open>The assertions of the constructor that takes the data.\<close>

definition future_new_assert :: "uword \<Rightarrow> ('t, 'e) pf_heap \<Rightarrow> bool" where
  "future_new_assert p h \<longleftrightarrow> pf_valid p \<and> (\<exists>d. h p = Some d \<and> \<not> pf_is_ready d)"

definition future_is_ready :: "uword \<Rightarrow> ('t, 'e) pf_heap \<Rightarrow> bool option" where
  "future_is_ready p h = (if pf_valid p then map_option pf_is_ready (h p) else None)"

text \<open>The overloads of \<open>get\<close> differ in the reference they return only.\<close>

definition future_get :: "('t, 'e) reclaim_fn \<Rightarrow> uword \<Rightarrow> ('t, 'e) pf_heap \<Rightarrow> (('e + 't) \<times> ('t, 'e) pf_heap) option" where
  "future_get reclaim_at p h =
     (if pf_valid p then
        (case h p of
           None \<Rightarrow> None
         | Some d \<Rightarrow> map_option (\<lambda>(r, d1). (r, h(p \<mapsto> d1))) (pf_get reclaim_at d))
      else None)"

definition future_wait :: "('t, 'e) reclaim_fn \<Rightarrow> uword \<Rightarrow> ('t, 'e) pf_heap \<Rightarrow> ('t, 'e) pf_heap option" where
  "future_wait reclaim_at p h =
     (if pf_valid p then map_option (\<lambda>d. h(p \<mapsto> pf_wait reclaim_at d)) (h p) else None)"

text \<open>The move constructor takes the pointer and leaves a future that is not valid.\<close>

definition future_move :: "uword \<Rightarrow> uword \<times> uword" where
  "future_move p = (p, 0)"

text \<open>
  The destructor releases data that is not ready, so it stays for the callback to free, and marks it
  abandoned; otherwise the data is destroyed and freed with the future. The second component is what is destroyed.
\<close>

definition future_destruct :: "uword \<Rightarrow> ('t, 'e) pf_heap \<Rightarrow> (('e option + 't) option \<times> ('t, 'e) pf_heap) option" where
  "future_destruct p h =
     (if pf_valid p then
        (case h p of
           None \<Rightarrow> None
         | Some d \<Rightarrow>
             if \<not> pf_is_ready d then Some (None, h(p \<mapsto> abandon d))
             else map_option (\<lambda>x. (x, h(p := None))) (pf_destroys d))
      else Some (None, h))"

section \<open>Properties\<close>

text \<open>A future that is destroyed before it is ready leaves its data, marked, to the callback; one that has been moved from
  leaves everything as it is.\<close>

lemma future_destruct_early:
  "pf_valid p \<Longrightarrow> h p = Some d \<Longrightarrow> \<not> pf_is_ready d \<Longrightarrow>
    future_destruct p h = Some (None, h(p \<mapsto> abandon d)) \<and> pf_abandoned (abandon d) \<and> \<not> pf_is_ready (abandon d)"
  "future_destruct (snd (future_move p)) h = Some (None, h)"
  by (simp_all add: future_destruct_def abandon_def pf_abandoned_def pf_is_ready_def future_move_def pf_valid_def)

text \<open>With assertions no future can ever be made ready: the setters assert that the data is not ready and
  then ask \<open>has_exception\<close>, which asserts that it is.\<close>

theorem set_value_asserts_contradict: "\<not> set_assert d"
  by (simp add: set_assert_def has_exception_assert_def)

end
