(* ===== verification/Thread_Registry.thy ===== *)
theory Thread_Registry
  imports Thread_Sync Fast_RW_Mutex Pod_Vector
begin

text \<open>
  The list of thread nodes of \<^verbatim>\<open>detail/thread_synchronization.hpp\<close> with any number of threads: a thread
  registers its node, announces the epochs of its critical sections, waits for a grace period and
  takes its node off the list again, while others do the same. The locks are the mutexes of
  \<open>Fast_RW_Mutex\<close>, one for the list and one in every node, stepped access by access; a load of another
  thread's epoch is a step of its own.

  Thread \<open>t\<close> owns node \<open>t\<close>. Two ghosts say what a grace period is: \<open>entered\<close> counts for each thread the
  epochs it has announced, and a call of \<open>synchronize_min_epoch\<close> remembers the counts it began with.
\<close>

section \<open>State\<close>

datatype reg_job = Register | Unregister

datatype reg_pc =
    Unborn
  | Lock_Self
  | Lock_List reg_job
  | Lock_Nodes reg_job nat nat
  | Modify reg_job
  | Unlock_Nodes reg_job nat nat
  | Unlock_List reg_job
  | Unlock_Self
  | Live
  | Share epoch_t "nat \<Rightarrow> nat"
  | Visit epoch_t epoch_t nat nat "nat \<Rightarrow> nat"
  | Wait_Node epoch_t epoch_t nat nat "nat \<Rightarrow> nat"
  | Unshare epoch_t epoch_t "nat \<Rightarrow> nat"
  | Destroyed
  | Undefined

text \<open>The mutex of the list is \<open>None\<close>, that of node \<open>t\<close> is \<open>Some t\<close>.\<close>

record sync_sys =
  muts :: "nat option \<Rightarrow> mutex_sys"
  nodes :: "nat pod_vector"
  announced :: "nat \<Rightarrow> sync_node"
  entered :: "nat \<Rightarrow> nat"
  place :: "nat \<Rightarrow> reg_pc"

definition goto :: "nat \<Rightarrow> reg_pc \<Rightarrow> sync_sys \<Rightarrow> sync_sys" where
  "goto t p s = s\<lparr> place := (place s)(t := p) \<rparr>"

section \<open>Steps\<close>

text \<open>One access of a call of \<open>lock\<close> or \<open>lock_shared\<close>; when it succeeds the thread goes on.\<close>

definition acquire :: "nat option \<Rightarrow> mutex_call \<Rightarrow> nat \<Rightarrow> bool \<Rightarrow> reg_pc \<Rightarrow> sync_sys \<Rightarrow> sync_sys" where
  "acquire m call t spurious next s =
     (let mx = mutex_tstep t call spurious (muts s m);
          s' = s\<lparr> muts := (muts s)(m := mx) \<rparr>
      in if mpc mx t = Held \<or> mpc mx t = Shared_Held then goto t next s' else s')"

definition release :: "nat option \<Rightarrow> nat \<Rightarrow> reg_pc \<Rightarrow> sync_sys \<Rightarrow> sync_sys" where
  "release m t next s =
     goto t next (s\<lparr> muts := (muts s)(m := mutex_tstep t Lock_Exclusive False (muts s m)) \<rparr>)"

definition step_construct :: "nat \<Rightarrow> sync_sys \<Rightarrow> sync_sys" where
  "step_construct t s =
     goto t Lock_Self (s\<lparr> muts := (muts s)(Some t := new_mutex), announced := (announced s)(t := new_node) \<rparr>)"

definition step_lock_self :: "nat \<Rightarrow> bool \<Rightarrow> sync_sys \<Rightarrow> sync_sys" where
  "step_lock_self t spurious s = acquire (Some t) Lock_Exclusive t spurious (Lock_List Register) s"

definition step_lock_list :: "nat \<Rightarrow> reg_job \<Rightarrow> bool \<Rightarrow> sync_sys \<Rightarrow> sync_sys" where
  "step_lock_list t job spurious s =
     acquire None Lock_Exclusive t spurious (Lock_Nodes job 0 (pv_end (nodes s))) s"

definition step_lock_nodes :: "nat \<Rightarrow> reg_job \<Rightarrow> nat \<Rightarrow> nat \<Rightarrow> bool \<Rightarrow> sync_sys \<Rightarrow> sync_sys" where
  "step_lock_nodes t job i last_it spurious s =
     (if i = last_it then goto t (Modify job) s
      else (case pv_deref (nodes s) i of
              None \<Rightarrow> goto t Undefined s
            | Some node \<Rightarrow> acquire (Some node) Lock_Exclusive t spurious (Lock_Nodes job (Suc i) last_it) s))"

text \<open>The search of the destructor; \<open>n\<close> is the number of elements left.\<close>

fun erase_node :: "nat \<Rightarrow> nat \<Rightarrow> nat \<Rightarrow> nat pod_vector \<Rightarrow> nat pod_vector option" where
  "erase_node t i 0 ns = Some ns"
| "erase_node t i (Suc n) ns =
     (case pv_deref ns i of
        None \<Rightarrow> None
      | Some node \<Rightarrow> if node = t then Some (unordered_erase i ns) else erase_node t (Suc i) n ns)"

definition step_modify :: "nat \<Rightarrow> reg_job \<Rightarrow> sync_sys \<Rightarrow> sync_sys" where
  "step_modify t job s =
     (case (case job of Register \<Rightarrow> Some (emplace_back t (nodes s))
                      | Unregister \<Rightarrow> erase_node t 0 (pv_end (nodes s)) (nodes s)) of
        None \<Rightarrow> goto t Undefined s
      | Some ns \<Rightarrow> goto t (Unlock_Nodes job 0 (pv_end ns)) (s\<lparr> nodes := ns \<rparr>))"

definition step_unlock_nodes :: "nat \<Rightarrow> reg_job \<Rightarrow> nat \<Rightarrow> nat \<Rightarrow> sync_sys \<Rightarrow> sync_sys" where
  "step_unlock_nodes t job i last_it s =
     (if i = last_it then goto t (Unlock_List job) s
      else (case pv_deref (nodes s) i of
              None \<Rightarrow> goto t Undefined s
            | Some node \<Rightarrow> release (Some node) t (Unlock_Nodes job (Suc i) last_it) s))"

definition step_unlock_list :: "nat \<Rightarrow> reg_job \<Rightarrow> sync_sys \<Rightarrow> sync_sys" where
  "step_unlock_list t job s =
     release None t (case job of Register \<Rightarrow> Live | Unregister \<Rightarrow> Unlock_Self) s"

definition step_unlock_self :: "nat \<Rightarrow> sync_sys \<Rightarrow> sync_sys" where
  "step_unlock_self t s = release (Some t) t Destroyed s"

text \<open>What a thread does outside these calls, each under the assertions of the callee.\<close>

datatype reg_call = Enter epoch_t | Reenter epoch_t | Leave | Synchronize epoch_t | Destruct

definition announce :: "nat \<Rightarrow> sync_node \<Rightarrow> sync_sys \<Rightarrow> sync_sys" where
  "announce t n s =
     s\<lparr> announced := (announced s)(t := n),
        entered := (if node_in_critical_section n then (entered s)(t := Suc (entered s t)) else entered s) \<rparr>"

definition synchronize_assert :: "epoch_t \<Rightarrow> sync_node \<Rightarrow> bool" where
  "synchronize_assert epoch n \<longleftrightarrow> \<not> node_in_critical_section n \<and> epoch \<noteq> off_state"

definition call_assert :: "reg_call \<Rightarrow> sync_node \<Rightarrow> bool" where
  "call_assert call n =
     (case call of
        Enter epoch \<Rightarrow> access_lock_assert epoch n
      | Reenter epoch \<Rightarrow> access_relock_assert epoch n
      | Leave \<Rightarrow> access_unlock_assert n
      | Synchronize epoch \<Rightarrow> synchronize_assert epoch n
      | Destruct \<Rightarrow> \<not> node_in_critical_section n)"

definition step_live :: "nat \<Rightarrow> reg_call \<Rightarrow> sync_sys \<Rightarrow> sync_sys" where
  "step_live t call s =
     (if call_assert call (announced s t) then
        (case call of
           Enter epoch \<Rightarrow> announce t (access_lock epoch (announced s t)) s
         | Reenter epoch \<Rightarrow> announce t (access_relock epoch (announced s t)) s
         | Leave \<Rightarrow> announce t (access_unlock (announced s t)) s
         | Synchronize epoch \<Rightarrow> goto t (Share epoch (entered s)) s
         | Destruct \<Rightarrow> goto t (Lock_List Unregister) s)
      else s)"

definition step_share :: "nat \<Rightarrow> epoch_t \<Rightarrow> (nat \<Rightarrow> nat) \<Rightarrow> bool \<Rightarrow> sync_sys \<Rightarrow> sync_sys" where
  "step_share t epoch sn spurious s =
     acquire (Some t) Lock_Shared t spurious (Visit epoch off_state 0 (pv_end (nodes s)) sn) s"

definition step_visit :: "nat \<Rightarrow> epoch_t \<Rightarrow> epoch_t \<Rightarrow> nat \<Rightarrow> nat \<Rightarrow> (nat \<Rightarrow> nat) \<Rightarrow> sync_sys \<Rightarrow> sync_sys" where
  "step_visit t epoch result i last_it sn s =
     (if i = last_it then goto t (Unshare epoch result sn) s
      else (case pv_deref (nodes s) i of
              None \<Rightarrow> goto t Undefined s
            | Some node \<Rightarrow>
                let td_epoch = active (announced s node)
                in if td_epoch \<le> epoch then goto t (Wait_Node epoch result i last_it sn) s
                   else goto t (Visit epoch (if td_epoch < result then td_epoch else result) (Suc i) last_it sn) s))"

definition step_wait_node :: "nat \<Rightarrow> epoch_t \<Rightarrow> epoch_t \<Rightarrow> nat \<Rightarrow> nat \<Rightarrow> (nat \<Rightarrow> nat) \<Rightarrow> sync_sys \<Rightarrow> sync_sys" where
  "step_wait_node t epoch result i last_it sn s =
     (case pv_deref (nodes s) i of
        None \<Rightarrow> goto t Undefined s
      | Some node \<Rightarrow>
          if epoch_less_equal_to epoch (announced s node) then s
          else goto t (Visit epoch result (Suc i) last_it sn) s)"

definition step_unshare :: "nat \<Rightarrow> sync_sys \<Rightarrow> sync_sys" where
  "step_unshare t s = release (Some t) t Live s"

definition reg_tstep :: "nat \<Rightarrow> reg_call \<Rightarrow> bool \<Rightarrow> sync_sys \<Rightarrow> sync_sys" where
  "reg_tstep t call spurious s =
     (case place s t of
        Unborn \<Rightarrow> step_construct t s
      | Lock_Self \<Rightarrow> step_lock_self t spurious s
      | Lock_List job \<Rightarrow> step_lock_list t job spurious s
      | Lock_Nodes job i e \<Rightarrow> step_lock_nodes t job i e spurious s
      | Modify job \<Rightarrow> step_modify t job s
      | Unlock_Nodes job i e \<Rightarrow> step_unlock_nodes t job i e s
      | Unlock_List job \<Rightarrow> step_unlock_list t job s
      | Unlock_Self \<Rightarrow> step_unlock_self t s
      | Live \<Rightarrow> step_live t call s
      | Share e sn \<Rightarrow> step_share t e sn spurious s
      | Visit e r i n sn \<Rightarrow> step_visit t e r i n sn s
      | Wait_Node e r i n sn \<Rightarrow> step_wait_node t e r i n sn s
      | Unshare e r sn \<Rightarrow> step_unshare t s
      | Destroyed \<Rightarrow> s
      | Undefined \<Rightarrow> s)"

definition new_sync_sys :: sync_sys where
  "new_sync_sys = \<lparr> muts = (\<lambda>_. new_mutex), nodes = pv_new, announced = (\<lambda>_. new_node), entered = (\<lambda>_. 0),
     place = (\<lambda>_. Unborn) \<rparr>"

definition reg_start :: "nat \<Rightarrow> sync_sys \<Rightarrow> bool" where
  "reg_start N s \<longleftrightarrow> N < 2 ^ 62 \<and> s = new_sync_sys"

definition reg_step :: "nat \<Rightarrow> sync_sys \<Rightarrow> sync_sys \<Rightarrow> bool" where
  "reg_step N s s' \<longleftrightarrow> (\<exists>t call spurious. t < N \<and> s' = reg_tstep t call spurious s)"

section \<open>What a thread holds\<close>

text \<open>The mutexes thread \<open>t\<close> holds exclusively at a place, for the nodes \<open>ns\<close> on the list.\<close>

fun holds :: "nat list \<Rightarrow> nat \<Rightarrow> reg_pc \<Rightarrow> nat option set" where
  "holds ns t (Lock_List Register) = {Some t}"
| "holds ns t (Lock_Nodes job i e) = {None} \<union> (if job = Register then {Some t} else {}) \<union> Some ` set (take i ns)"
| "holds ns t (Modify job) = {None, Some t} \<union> Some ` set ns"
| "holds ns t (Unlock_Nodes job i e) = {None} \<union> (if job = Unregister then {Some t} else {}) \<union> Some ` set (drop i ns)"
| "holds ns t (Unlock_List job) = {None} \<union> (if job = Unregister then {Some t} else {})"
| "holds ns t Unlock_Self = {Some t}"
| "holds ns t _ = {}"

fun shares :: "reg_pc \<Rightarrow> bool" where
  "shares (Visit _ _ _ _ _) = True"
| "shares (Wait_Node _ _ _ _ _) = True"
| "shares (Unshare _ _ _) = True"
| "shares _ = False"

fun wants :: "nat list \<Rightarrow> nat \<Rightarrow> reg_pc \<Rightarrow> nat option option" where
  "wants ns t Lock_Self = Some (Some t)"
| "wants ns t (Lock_List _) = Some None"
| "wants ns t (Lock_Nodes job i e) = (if i < length ns then Some (Some (ns ! i)) else None)"
| "wants ns t _ = None"

fun registered :: "reg_pc \<Rightarrow> bool" where
  "registered (Lock_List job) = (job = Unregister)"
| "registered (Lock_Nodes job _ _) = (job = Unregister)"
| "registered (Modify job) = (job = Unregister)"
| "registered (Unlock_Nodes job _ _) = (job = Register)"
| "registered (Unlock_List job) = (job = Register)"
| "registered Live = True"
| "registered (Share _ _) = True"
| "registered (Visit _ _ _ _ _) = True"
| "registered (Wait_Node _ _ _ _ _) = True"
| "registered (Unshare _ _ _) = True"
| "registered _ = False"

fun excl_waiting :: "mutex_pc \<Rightarrow> bool" where
  "excl_waiting Outside = True"
| "excl_waiting Request_Load = True"
| "excl_waiting (Request_Cas _) = True"
| "excl_waiting Wait_Readers = True"
| "excl_waiting _ = False"

fun share_waiting :: "mutex_pc \<Rightarrow> bool" where
  "share_waiting Outside = True"
| "share_waiting Undo_Increment = True"
| "share_waiting Shared_Load = True"
| "share_waiting (Shared_Cas _) = True"
| "share_waiting _ = False"

text \<open>Where thread \<open>t\<close> is in the mutex \<open>m\<close>.\<close>

definition mutex_place :: "nat list \<Rightarrow> nat \<Rightarrow> reg_pc \<Rightarrow> nat option \<Rightarrow> mutex_pc \<Rightarrow> bool" where
  "mutex_place ns t p m q \<longleftrightarrow>
     (if m \<in> holds ns t p then q = Held
      else if m = Some t \<and> shares p then q = Shared_Held
      else if wants ns t p = Some m then excl_waiting q
      else if m = Some t \<and> (\<exists>e sn. p = Share e sn) then share_waiting q
      else q = Outside)"

section \<open>The invariant\<close>

text \<open>A thread inside a critical section of an epoch below \<open>r\<close> has announced it since the counts \<open>sn\<close>.\<close>

definition new_section :: "sync_sys \<Rightarrow> (nat \<Rightarrow> nat) \<Rightarrow> epoch_t \<Rightarrow> nat \<Rightarrow> bool" where
  "new_section s sn r v \<longleftrightarrow> active (announced s v) < r \<longrightarrow> sn v < entered s v"

fun place_inv :: "sync_sys \<Rightarrow> nat list \<Rightarrow> reg_pc \<Rightarrow> bool" where
  "place_inv s ns (Lock_Nodes job i e) \<longleftrightarrow> e = length ns \<and> i \<le> e"
| "place_inv s ns (Unlock_Nodes job i e) \<longleftrightarrow> e = length ns \<and> i \<le> e"
| "place_inv s ns (Share c sn) \<longleftrightarrow> c \<noteq> off_state \<and> (\<forall>v. sn v \<le> entered s v)"
| "place_inv s ns (Visit c r i e sn) \<longleftrightarrow> e = length ns \<and> i \<le> e \<and> c < r \<and> (\<forall>v. sn v \<le> entered s v)
     \<and> (\<forall>v \<in> set (take i ns). new_section s sn r v)"
| "place_inv s ns (Wait_Node c r i e sn) \<longleftrightarrow> e = length ns \<and> i < e \<and> c < r \<and> (\<forall>v. sn v \<le> entered s v)
     \<and> (\<forall>v \<in> set (take i ns). new_section s sn r v)
     \<and> (active (announced s (ns ! i)) \<le> c \<or> new_section s sn off_state (ns ! i))"
| "place_inv s ns (Unshare c r sn) \<longleftrightarrow> c < r \<and> (\<forall>v. sn v \<le> entered s v) \<and> (\<forall>v. new_section s sn r v)"
| "place_inv s ns Undefined \<longleftrightarrow> False"
| "place_inv s ns _ \<longleftrightarrow> True"

definition thread_inv :: "sync_sys \<Rightarrow> nat \<Rightarrow> bool" where
  "thread_inv s t \<longleftrightarrow> (\<forall>m. mutex_place (pv_items (nodes s)) t (place s t) m (mpc (muts s m) t))
     \<and> (active (announced s t) = off_state \<or> place s t = Live)
     \<and> place_inv s (pv_items (nodes s)) (place s t)"

definition nodes_inv :: "nat \<Rightarrow> sync_sys \<Rightarrow> bool" where
  "nodes_inv N s \<longleftrightarrow> N < 2 ^ 62 \<and> (\<forall>m. mutex_inv N (muts s m)) \<and> pv_inv (nodes s)
     \<and> distinct (pv_items (nodes s)) \<and> set (pv_items (nodes s)) = {t. registered (place s t)}
     \<and> (\<forall>t \<ge> N. place s t = Unborn)"

definition reg_inv :: "nat \<Rightarrow> sync_sys \<Rightarrow> bool" where
  "reg_inv N s \<longleftrightarrow> nodes_inv N s \<and> (\<forall>t. thread_inv s t)"

section \<open>The mutexes\<close>

lemma mutex_tstep_inv: "mutex_inv N x \<Longrightarrow> t < N \<Longrightarrow> mutex_inv N (mutex_tstep t call spurious x)"
  by (rule mutex_step_inv) (auto simp: mutex_step_def)

lemma mutex_tstep_other: "u \<noteq> t \<Longrightarrow> mpc (mutex_tstep t call spurious x) u = mpc x u"
  by (simp add: mutex_tstep_def step_lock_shared_def step_lock_exclusive_def step_undo_increment_def step_shared_load_def
      step_shared_cas_def step_unlock_shared_def step_request_load_def step_request_cas_def step_wait_for_readers_def
      step_unlock_exclusive_def mput_def Let_def split: mutex_pc.split mutex_call.split)

lemma mutex_tstep_excl:
  "excl_waiting (mpc x t) \<Longrightarrow> mpc (mutex_tstep t Lock_Exclusive spurious x) t = Held
     \<or> excl_waiting (mpc (mutex_tstep t Lock_Exclusive spurious x) t)"
  by (cases "mpc x t") (auto simp: mutex_tstep_def step_lock_exclusive_def step_request_load_def step_request_cas_def
      step_wait_for_readers_def mput_def Let_def)

lemma mutex_tstep_share:
  "share_waiting (mpc x t) \<Longrightarrow> mpc (mutex_tstep t Lock_Shared spurious x) t = Shared_Held
     \<or> share_waiting (mpc (mutex_tstep t Lock_Shared spurious x) t)"
  by (cases "mpc x t") (auto simp: mutex_tstep_def step_lock_shared_def step_undo_increment_def step_shared_load_def
      step_shared_cas_def mput_def Let_def)

lemma mutex_tstep_unlock:
  "mpc x t = Held \<or> mpc x t = Shared_Held \<Longrightarrow> mpc (mutex_tstep t call spurious x) t = Outside"
  by (auto simp: mutex_tstep_def step_unlock_exclusive_def step_unlock_shared_def mput_def)

lemma mutex_one_holder:
  "mutex_inv N x \<Longrightarrow> mpc x t = Held \<Longrightarrow> mpc x u = Held \<Longrightarrow> t = u"
  unfolding mutex_inv_def writing_def by blast

lemma mutex_no_sharer:
  "mutex_inv N x \<Longrightarrow> mpc x t = Held \<Longrightarrow> mpc x u \<noteq> Shared_Held"
  unfolding mutex_inv_def by blast

lemma mutex_inv_new: "N < 2 ^ 62 \<Longrightarrow> mutex_inv N new_mutex"
  by (rule mutex_inv_start) (simp add: mutex_start_def)

lemma waiting_not_holding [simp]:
  "excl_waiting q \<Longrightarrow> q \<noteq> Held" "excl_waiting q \<Longrightarrow> q \<noteq> Shared_Held"
  "share_waiting q \<Longrightarrow> q \<noteq> Held" "share_waiting q \<Longrightarrow> q \<noteq> Shared_Held"
  by (cases q; simp)+

section \<open>Steps of one thread do not disturb the others\<close>

text \<open>The announcements another thread may see change: a new section is counted.\<close>

definition counts_sections :: "sync_sys \<Rightarrow> sync_sys \<Rightarrow> bool" where
  "counts_sections s s' \<longleftrightarrow> (\<forall>v. entered s v \<le> entered s' v
     \<and> (announced s' v = announced s v \<or> active (announced s' v) = off_state \<or> entered s v < entered s' v))"

lemma new_section_mono:
  assumes "counts_sections s s'" "new_section s sn r v" "sn v \<le> entered s v"
  shows "new_section s' sn r v"
  unfolding new_section_def
proof
  assume r: "active (announced s' v) < r"
  have c: "entered s v \<le> entered s' v"
    "announced s' v = announced s v \<or> active (announced s' v) = off_state \<or> entered s v < entered s' v"
    using assms(1) by (simp_all add: counts_sections_def)
  have "active (announced s' v) \<noteq> off_state"
    using r word_order.extremum_strict [of r] by (auto simp: off_state_def)
  then show "sn v < entered s' v"
    using c assms(2,3) r by (auto simp: new_section_def)
qed

lemma waited_mono:
  assumes "counts_sections s s'" "sn v \<le> entered s v"
    "active (announced s v) \<le> c \<or> new_section s sn off_state v"
  shows "active (announced s' v) \<le> c \<or> new_section s' sn off_state v"
proof (cases "new_section s sn off_state v")
  case True
  then show ?thesis using new_section_mono assms by blast
next
  case False
  have c: "entered s v \<le> entered s' v"
    "announced s' v = announced s v \<or> active (announced s' v) = off_state \<or> entered s v < entered s' v"
    using assms(1) by (simp_all add: counts_sections_def)
  show ?thesis
    using False c assms(2,3) by (auto simp: new_section_def)
qed

lemma sn_mono: "counts_sections s s' \<Longrightarrow> \<forall>v. sn v \<le> entered s v \<Longrightarrow> \<forall>v. sn v \<le> entered s' v"
  unfolding counts_sections_def by (meson le_trans)

lemma place_inv_mono:
  assumes "counts_sections s s'" "place_inv s ns p"
  shows "place_inv s' ns p"
proof (cases p)
  case (Visit c r i e sn)
  then show ?thesis
    using assms(2) new_section_mono [OF assms(1)] sn_mono [OF assms(1), of sn] by auto
next
  case (Wait_Node c r i e sn)
  then show ?thesis
    using assms(2) new_section_mono [OF assms(1)] sn_mono [OF assms(1), of sn]
      waited_mono [OF assms(1), of sn "ns ! i" c] by auto
next
  case (Unshare c r sn)
  then show ?thesis
    using assms(2) new_section_mono [OF assms(1)] sn_mono [OF assms(1), of sn] by auto
next
  case (Share c sn)
  then show ?thesis
    using assms(2) sn_mono [OF assms(1), of sn] by auto
qed (use assms in auto)

lemma thread_inv_frame:
  assumes "thread_inv s u" "counts_sections s s'" "nodes s' = nodes s" "place s' u = place s u"
    "announced s' u = announced s u" "\<And>m. mpc (muts s' m) u = mpc (muts s m) u"
  shows "thread_inv s' u"
  using assms place_inv_mono [OF assms(2)] by (simp add: thread_inv_def)

section \<open>Preservation\<close>

lemma reg_invD:
  assumes "reg_inv N s"
  shows "N < 2 ^ 62" "mutex_inv N (muts s m)" "pv_inv (nodes s)" "distinct (pv_items (nodes s))"
    "set (pv_items (nodes s)) = {t. registered (place s t)}" "N \<le> t \<Longrightarrow> place s t = Unborn"
    "mutex_place (pv_items (nodes s)) t (place s t) m (mpc (muts s m) t)"
    "active (announced s t) = off_state \<or> place s t = Live"
    "place_inv s (pv_items (nodes s)) (place s t)"
  using assms by (auto simp: reg_inv_def nodes_inv_def thread_inv_def)

lemma reg_held: "reg_inv N s \<Longrightarrow> m \<in> holds (pv_items (nodes s)) t (place s t) \<Longrightarrow> mpc (muts s m) t = Held"
  using reg_invD(7) [of N s t m] by (simp add: mutex_place_def)

lemma reg_shared: "reg_inv N s \<Longrightarrow> shares (place s t) \<Longrightarrow> mpc (muts s (Some t)) t = Shared_Held"
  using reg_invD(7) [of N s t "Some t"] by (cases "place s t") (auto simp: mutex_place_def)

lemma reg_one_lister:
  assumes "reg_inv N s" "None \<in> holds (pv_items (nodes s)) t (place s t)" "None \<in> holds (pv_items (nodes s)) u (place s u)"
  shows "t = u"
  using mutex_one_holder [OF reg_invD(2) [OF assms(1)] reg_held [OF assms(1,2)] reg_held [OF assms(1,3)]] .

lemma mutex_place_held: "m \<in> holds ns t q \<Longrightarrow> mutex_place ns t q m Held"
  by (simp add: mutex_place_def)

lemma mutex_place_out: "m \<notin> holds ns t q \<Longrightarrow> \<not> (m = Some t \<and> shares q) \<Longrightarrow> mutex_place ns t q m Outside"
  by (auto simp: mutex_place_def)

lemma place_inv_cong:
  "announced s' = announced s \<Longrightarrow> entered s' = entered s \<Longrightarrow> place_inv s' ns p = place_inv s ns p"
  using place_inv_mono [of s s' ns p] place_inv_mono [of s' s ns p] by (auto simp: counts_sections_def)

text \<open>What a step of thread \<open>t\<close> that leaves the list alone has to show.\<close>

lemma reg_inv_step:
  assumes i: "reg_inv N s" and t: "t < N" and n: "nodes s' = nodes s"
    and o: "\<And>u. u \<noteq> t \<Longrightarrow> place s' u = place s u \<and> announced s' u = announced s u \<and> (\<forall>m. mpc (muts s' m) u = mpc (muts s m) u)"
    and m: "\<And>m. mutex_inv N (muts s' m)" and c: "counts_sections s s'"
    and r: "registered (place s' t) = registered (place s t)" and th: "thread_inv s' t"
  shows "reg_inv N s'"
proof -
  have "thread_inv s' u" for u
  proof (cases "u = t")
    case False
    then show ?thesis
      using i o [OF False] by (intro thread_inv_frame [OF _ c n]) (auto simp: reg_inv_def)
  qed (use th in simp)
  moreover have reg: "registered (place s' u) = registered (place s u)" for u
    using r o by (cases "u = t") auto
  moreover have "place s' u = Unborn" if "N \<le> u" for u
    using reg_invD(6) [OF i that] o [of u] t that by auto
  ultimately show ?thesis
    using reg_invD [OF i] m by (simp add: reg_inv_def nodes_inv_def n)
qed

text \<open>A step that only changes the place.\<close>

lemma reg_goto:
  assumes i: "reg_inv N s" and t: "t < N" and p: "place s t = p" "\<And>e sn. p \<noteq> Share e sn"
    "wants (pv_items (nodes s)) t p = None"
    and q: "holds (pv_items (nodes s)) t q = holds (pv_items (nodes s)) t p" "shares q = shares p" "registered q = registered p"
    "place_inv s (pv_items (nodes s)) q" "active (announced s t) = off_state"
  shows "reg_inv N (goto t q s)"
proof (rule reg_inv_step [OF i t])
  have "mutex_place (pv_items (nodes s)) t q m (mpc (muts s m) t)" for m
    using reg_invD(7) [OF i, of t m] p q(1,2) by (auto simp: mutex_place_def split: if_splits)
  then show "thread_inv (goto t q s) t"
    using q place_inv_cong [of "goto t q s" s] by (simp add: thread_inv_def goto_def)
qed (use p q reg_invD(2) [OF i] in \<open>auto simp: goto_def counts_sections_def\<close>)

lemma acquire_fields:
  "nodes (acquire m c t sp q s) = nodes s" "announced (acquire m c t sp q s) = announced s"
  "entered (acquire m c t sp q s) = entered s" "u \<noteq> t \<Longrightarrow> place (acquire m c t sp q s) u = place s u"
  "muts (acquire m c t sp q s) = (muts s)(m := mutex_tstep t c sp (muts s m))"
  "place (acquire m c t sp q s) t = (if mpc (mutex_tstep t c sp (muts s m)) t = Held \<or> mpc (mutex_tstep t c sp (muts s m)) t = Shared_Held
     then q else place s t)"
  by (simp_all add: acquire_def goto_def Let_def)

lemma reg_acquire:
  assumes i: "reg_inv N s" and t: "t < N" and p: "place s t = p" "\<not> shares p" "\<And>e sn. p \<noteq> Share e sn" "p \<noteq> Live"
    "wants (pv_items (nodes s)) t p = Some m" "m \<notin> holds (pv_items (nodes s)) t p"
    and q: "holds (pv_items (nodes s)) t q = insert m (holds (pv_items (nodes s)) t p)" "\<not> shares q" "registered q = registered p"
    "place_inv s (pv_items (nodes s)) q"
  shows "reg_inv N (acquire m Lock_Exclusive t spurious q s)" (is "reg_inv N ?s")
proof (rule reg_inv_step [OF i t])
  let ?mx = "mutex_tstep t Lock_Exclusive spurious (muts s m)"
  have w: "excl_waiting (mpc (muts s m) t)"
    using reg_invD(7) [OF i, of t m] p by (simp add: mutex_place_def)
  have other: "mpc (muts s m') t = (if m' \<in> holds (pv_items (nodes s)) t p then Held else Outside)" if "m' \<noteq> m" for m'
    using reg_invD(7) [OF i, of t m'] p that by (auto simp: mutex_place_def split: if_splits)
  have a: "active (announced s t) = off_state"
    using reg_invD(8) [OF i, of t] p by auto
  have pl: "place_inv s (pv_items (nodes s)) p"
    using reg_invD(9) [OF i, of t] p by simp
  note cong = place_inv_cong [of ?s s]
  show "thread_inv ?s t"
  proof (cases "mpc ?mx t = Held")
    case True
    have "mutex_place (pv_items (nodes s)) t q m' (mpc (muts ?s m') t)" for m'
    proof (cases "m' = m")
      case True
      then show ?thesis using q \<open>mpc ?mx t = Held\<close> by (simp add: acquire_fields mutex_place_held)
    next
      case False
      then show ?thesis
        using other [OF False] q by (auto simp: acquire_fields intro: mutex_place_held mutex_place_out)
    qed
    then show ?thesis
      using True q a cong by (simp add: thread_inv_def acquire_fields)
  next
    case False
    then have e: "excl_waiting (mpc ?mx t)"
      using mutex_tstep_excl [OF w] by blast
    have "mutex_place (pv_items (nodes s)) t p m' (mpc (muts ?s m') t)" for m'
      using reg_invD(7) [OF i, of t m'] p e by (cases "m' = m") (auto simp: acquire_fields mutex_place_def)
    then show ?thesis
      using False e pl a cong p by (simp add: thread_inv_def acquire_fields)
  qed
  show "registered (place ?s t) = registered (place s t)"
    using p q by (simp add: acquire_fields)
qed (use reg_invD(2) [OF i] mutex_tstep_inv [OF reg_invD(2) [OF i] t] in
    \<open>auto simp: acquire_fields mutex_tstep_other counts_sections_def\<close>)

lemma release_fields:
  "nodes (release m t q s) = nodes s" "announced (release m t q s) = announced s"
  "entered (release m t q s) = entered s" "place (release m t q s) = (place s)(t := q)"
  "muts (release m t q s) = (muts s)(m := mutex_tstep t Lock_Exclusive False (muts s m))"
  by (simp_all add: release_def goto_def)

lemma reg_release:
  assumes i: "reg_inv N s" and t: "t < N" and p: "place s t = p" "\<And>e sn. p \<noteq> Share e sn" "p \<noteq> Live"
    "wants (pv_items (nodes s)) t p = None"
    and m: "m \<in> holds (pv_items (nodes s)) t p \<and> \<not> shares p \<or> m = Some t \<and> shares p"
    and q: "holds (pv_items (nodes s)) t q = holds (pv_items (nodes s)) t p - {m}" "\<not> shares q" "registered q = registered p"
    "place_inv s (pv_items (nodes s)) q"
  shows "reg_inv N (release m t q s)" (is "reg_inv N ?s")
proof (rule reg_inv_step [OF i t])
  have h: "mpc (muts s m) t = Held \<or> mpc (muts s m) t = Shared_Held"
    using reg_held [OF i, of m t] reg_shared [OF i, of t] m p(1) by auto
  have a: "active (announced s t) = off_state"
    using reg_invD(8) [OF i, of t] p by auto
  have "mutex_place (pv_items (nodes s)) t q m' (mpc (muts ?s m') t)" for m'
  proof (cases "m' = m")
    case True
    then show ?thesis
      using q mutex_tstep_unlock [OF h] by (simp add: release_fields mutex_place_out)
  next
    case False
    then have "mpc (muts s m') t = (if m' \<in> holds (pv_items (nodes s)) t p then Held else Outside)"
      using reg_invD(7) [OF i, of t m'] p m by (auto simp: mutex_place_def split: if_splits)
    then show ?thesis
      using q False by (auto simp: release_fields intro: mutex_place_held mutex_place_out)
  qed
  then show "thread_inv ?s t"
    using q a place_inv_cong [of ?s s] by (simp add: thread_inv_def release_fields)
  show "registered (place ?s t) = registered (place s t)"
    using p q by (simp add: release_fields)
qed (use reg_invD(2) [OF i] mutex_tstep_inv [OF reg_invD(2) [OF i] t] in
    \<open>auto simp: release_fields mutex_tstep_other counts_sections_def\<close>)

section \<open>Each step keeps the invariant\<close>

lemma reg_deref:
  "reg_inv N s \<Longrightarrow> i < length (pv_items (nodes s)) \<Longrightarrow> pv_deref (nodes s) i = Some (pv_items (nodes s) ! i)"
  using pv_deref_items [OF reg_invD(3)] by simp

lemma reg_end: "pv_end (nodes s) = length (pv_items (nodes s))"
  by (simp add: vec_simps)

lemma reg_items: "reg_inv N s \<Longrightarrow> t \<in> set (pv_items (nodes s)) \<longleftrightarrow> registered (place s t)"
  using reg_invD(5) [of N s] by simp

lemma reg_off: "reg_inv N s \<Longrightarrow> place s t \<noteq> Live \<Longrightarrow> active (announced s t) = off_state"
  using reg_invD(8) by blast

lemma holds_subset: "holds ns u p \<subseteq> {None, Some u} \<union> Some ` set ns"
  by (cases "(ns, u, p)" rule: holds.cases) (auto dest: in_set_takeD in_set_dropD)

lemma wants_subset: "wants ns u p = Some m \<Longrightarrow> m \<in> {None, Some u} \<union> Some ` set ns"
  by (cases p) (auto split: if_splits)

text \<open>Nobody but thread \<open>t\<close> is in the mutex of a node that is not on the list.\<close>

lemma foreign_outside:
  assumes i: "reg_inv N s" and tn: "t \<notin> set (pv_items (nodes s))" and u: "u \<noteq> t"
  shows "mpc (muts s (Some t)) u = Outside"
proof -
  let ?ns = "pv_items (nodes s)"
  have "Some t \<notin> holds ?ns u (place s u)" "wants ?ns u (place s u) \<noteq> Some (Some t)"
    using tn u holds_subset [of ?ns u "place s u"] wants_subset [of ?ns u "place s u"] by auto
  then show ?thesis
    using reg_invD(7) [OF i, of u "Some t"] u by (simp add: mutex_place_def)
qed

lemma step_construct_inv:
  assumes i: "reg_inv N s" and t: "t < N" and p: "place s t = Unborn"
  shows "reg_inv N (step_construct t s)" (is "reg_inv N ?s")
proof -
  let ?ns = "pv_items (nodes s)"
  have tn: "t \<notin> set ?ns"
    using reg_items [OF i, of t] p by simp
  have ann: "announced s t = new_node"
    using reg_off [OF i, of t] p by (simp add: new_node_def)
  have own: "mpc (muts s m) t = Outside" for m
    using reg_invD(7) [OF i, of t m] p by (simp add: mutex_place_def)
  have m: "muts ?s = (muts s)(Some t := new_mutex)" and a: "announced ?s = announced s"
    using ann by (auto simp: step_construct_def goto_def)
  show ?thesis
  proof (rule reg_inv_step [OF i t])
    show "mutex_inv N (muts ?s m)" for m
      using m reg_invD(2) [OF i] mutex_inv_new [OF reg_invD(1) [OF i]] by auto
    show "place ?s u = place s u \<and> announced ?s u = announced s u \<and> (\<forall>m. mpc (muts ?s m) u = mpc (muts s m) u)"
      if "u \<noteq> t" for u
      using that a m foreign_outside [OF i tn that] by (auto simp: step_construct_def goto_def new_mutex_def)
    have "mutex_place ?ns t Lock_Self k (mpc (muts ?s k) t)" for k
      using own by (auto simp: m mutex_place_def new_mutex_def)
    then show "thread_inv ?s t"
      using a ann by (simp add: thread_inv_def) (simp add: step_construct_def goto_def new_node_def)
  qed (use a p in \<open>auto simp: step_construct_def goto_def counts_sections_def\<close>)
qed

lemma step_lock_self_inv:
  assumes i: "reg_inv N s" and t: "t < N" and p: "place s t = Lock_Self"
  shows "reg_inv N (step_lock_self t spurious s)"
  unfolding step_lock_self_def by (rule reg_acquire [OF i t p]) auto

lemma step_lock_list_inv:
  assumes i: "reg_inv N s" and t: "t < N" and p: "place s t = Lock_List job"
  shows "reg_inv N (step_lock_list t job spurious s)"
  unfolding step_lock_list_def by (rule reg_acquire [OF i t p]; cases job) (auto simp: vec_simps)

lemma step_lock_nodes_inv:
  assumes i: "reg_inv N s" and t: "t < N" and p: "place s t = Lock_Nodes job k e"
  shows "reg_inv N (step_lock_nodes t job k e spurious s)"
proof -
  let ?ns = "pv_items (nodes s)"
  have e: "e = length ?ns" "k \<le> e"
    using reg_invD(9) [OF i, of t] p by simp_all
  have tn: "t \<in> set ?ns \<longleftrightarrow> job = Unregister"
    using reg_items [OF i, of t] p by simp
  show ?thesis
  proof (cases "k = e")
    case True
    have "reg_inv N (goto t (Modify job) s)"
      using e True tn reg_off [OF i, of t] p by (cases job; intro reg_goto [OF i t p]) auto
    then show ?thesis using True by (simp add: step_lock_nodes_def)
  next
    case False
    then have k: "k < length ?ns" using e by simp
    have fresh: "?ns ! k \<notin> set (take k ?ns)"
      using reg_invD(4) [OF i] k by (auto simp: in_set_conv_nth nth_eq_iff_index_eq)
    have own: "job = Register \<Longrightarrow> ?ns ! k \<noteq> t"
      using tn nth_mem [OF k] by auto
    have "reg_inv N (acquire (Some (?ns ! k)) Lock_Exclusive t spurious (Lock_Nodes job (Suc k) e) s)"
      using e k fresh own by (intro reg_acquire [OF i t p]) (auto simp: take_Suc_conv_app_nth)
    then show ?thesis using False reg_deref [OF i k] by (simp add: step_lock_nodes_def)
  qed
qed

lemma step_unlock_nodes_inv:
  assumes i: "reg_inv N s" and t: "t < N" and p: "place s t = Unlock_Nodes job k e"
  shows "reg_inv N (step_unlock_nodes t job k e s)"
proof -
  let ?ns = "pv_items (nodes s)"
  have e: "e = length ?ns" "k \<le> e"
    using reg_invD(9) [OF i, of t] p by simp_all
  have tn: "t \<in> set ?ns \<longleftrightarrow> job = Register"
    using reg_items [OF i, of t] p by simp
  show ?thesis
  proof (cases "k = e")
    case True
    have "reg_inv N (goto t (Unlock_List job) s)"
      using e True reg_off [OF i, of t] p by (intro reg_goto [OF i t p]) auto
    then show ?thesis using True by (simp add: step_unlock_nodes_def)
  next
    case False
    then have k: "k < length ?ns" using e by simp
    have fresh: "?ns ! k \<notin> set (drop (Suc k) ?ns)"
      using reg_invD(4) [OF i] k distinct_drop [of ?ns k] by (auto simp: Cons_nth_drop_Suc [symmetric])
    have own: "job = Unregister \<Longrightarrow> ?ns ! k \<noteq> t"
      using tn nth_mem [OF k] by auto
    have d: "set (drop k ?ns) = insert (?ns ! k) (set (drop (Suc k) ?ns))"
      using Cons_nth_drop_Suc [OF k, symmetric] by simp
    have "reg_inv N (release (Some (?ns ! k)) t (Unlock_Nodes job (Suc k) e) s)"
      using e k fresh own by (intro reg_release [OF i t p]) (auto simp: d)
    then show ?thesis using False reg_deref [OF i k] by (simp add: step_unlock_nodes_def)
  qed
qed

lemma step_unlock_list_inv:
  assumes i: "reg_inv N s" and t: "t < N" and p: "place s t = Unlock_List job"
  shows "reg_inv N (step_unlock_list t job s)"
  unfolding step_unlock_list_def by (rule reg_release [OF i t p]; cases job) auto

lemma step_unlock_self_inv:
  assumes i: "reg_inv N s" and t: "t < N" and p: "place s t = Unlock_Self"
  shows "reg_inv N (step_unlock_self t s)"
  unfolding step_unlock_self_def by (rule reg_release [OF i t p]) auto

lemma step_unshare_inv:
  assumes i: "reg_inv N s" and t: "t < N" and p: "place s t = Unshare c r sn"
  shows "reg_inv N (step_unshare t s)"
  unfolding step_unshare_def by (rule reg_release [OF i t p]) auto

subsection \<open>Changing the list\<close>

lemma erase_node_ok:
  assumes "pv_inv ns" "distinct (pv_items ns)" "t \<in> set (drop i (pv_items ns))" "i + n = length (pv_items ns)"
  shows "\<exists>ns'. erase_node t i n ns = Some ns' \<and> pv_inv ns' \<and> distinct (pv_items ns')
     \<and> set (pv_items ns') = set (pv_items ns) - {t}"
  using assms(3,4)
proof (induction n arbitrary: i)
  case (Suc n)
  let ?xs = "pv_items ns"
  have i: "i < length ?xs" using Suc.prems(2) by simp
  then have d: "pv_deref ns i = Some (?xs ! i)"
    using pv_deref_items [OF assms(1)] by simp
  show ?case
  proof (cases "?xs ! i = t")
    case True
    have a: "unordered_erase_assert i ns"
      using i by (simp add: unordered_erase_assert_def vec_simps)
    have it: "pv_items (unordered_erase i ns) = butlast (?xs[i := last ?xs])"
      by (rule unordered_erase_items [OF a])
    obtain ys x where xs: "?xs = ys @ [x]"
      using i by (cases ?xs rule: rev_cases) auto
    have "distinct (pv_items (unordered_erase i ns)) \<and> set (pv_items (unordered_erase i ns)) = set ?xs - {t}"
    proof (cases "i < length ys")
      case True
      have "distinct ys" "x \<notin> set ys" "ys ! i = t"
        using assms(2) xs \<open>?xs ! i = t\<close> True by (auto simp: nth_append)
      then show ?thesis
        using True xs set_update_distinct [of ys i x] distinct_list_update [of ys x i]
        by (auto simp: it list_update_append)
    next
      case False
      then have "x = t" "t \<notin> set ys"
        using assms(2) xs i \<open>?xs ! i = t\<close> by (auto simp: nth_append split: if_splits)
      then show ?thesis
        using False xs i assms(2) by (auto simp: it list_update_append)
    qed
    then show ?thesis
      using True d unordered_erase_inv [OF assms(1) a] by auto
  next
    case False
    have "drop i ?xs = ?xs ! i # drop (Suc i) ?xs"
      using Cons_nth_drop_Suc [OF i] by simp
    then have "t \<in> set (drop (Suc i) ?xs)"
      using Suc.prems(1) False by simp
    then show ?thesis
      using Suc.IH [of "Suc i"] Suc.prems(2) False d by simp
  qed
qed simp

text \<open>Places that do not speak of the list.\<close>

lemma elsewhere:
  assumes "None \<notin> holds ns u p" "\<not> shares p"
  shows "holds ns' u p = holds ns u p" "wants ns' u p = wants ns u p" "place_inv s ns p \<Longrightarrow> place_inv s ns' p"
proof -
  have "holds ns' u p = holds ns u p \<and> wants ns' u p = wants ns u p \<and> (place_inv s ns p \<longrightarrow> place_inv s ns' p)"
  proof (cases p)
    case (Lock_List job) then show ?thesis by (cases job) auto
  qed (use assms in auto)
  then show "holds ns' u p = holds ns u p" "wants ns' u p = wants ns u p" "place_inv s ns p \<Longrightarrow> place_inv s ns' p"
    by auto
qed

text \<open>While a thread may change the list, all others are elsewhere.\<close>

lemma others_elsewhere:
  assumes i: "reg_inv N s" and p: "place s t = Modify job" and u: "u \<noteq> t"
  shows "None \<notin> holds (pv_items (nodes s)) u (place s u)" "\<not> shares (place s u)"
proof -
  show "None \<notin> holds (pv_items (nodes s)) u (place s u)"
    using reg_one_lister [OF i, of t u] p u by auto
  show "\<not> shares (place s u)"
  proof
    assume sh: "shares (place s u)"
    then have "registered (place s u)" by (cases "place s u") auto
    then have "Some u \<in> holds (pv_items (nodes s)) t (place s t)"
      using reg_items [OF i, of u] p by auto
    then show False
      using mutex_no_sharer [OF reg_invD(2) [OF i] reg_held [OF i]] reg_shared [OF i sh] by blast
  qed
qed

lemma step_modify_inv:
  assumes i: "reg_inv N s" and t: "t < N" and p: "place s t = Modify job"
  shows "reg_inv N (step_modify t job s)"
proof -
  let ?xs = "pv_items (nodes s)"
  have tn: "t \<in> set ?xs \<longleftrightarrow> job = Unregister"
    using reg_items [OF i, of t] p by simp
  define new where "new = (case job of Register \<Rightarrow> Some (emplace_back t (nodes s))
    | Unregister \<Rightarrow> erase_node t 0 (pv_end (nodes s)) (nodes s))"
  have "\<exists>ns. new = Some ns \<and> pv_inv ns \<and> distinct (pv_items ns)
      \<and> set (pv_items ns) = (if job = Register then insert t (set ?xs) else set ?xs - {t})"
  proof (cases job)
    case Register
    then show ?thesis
      using reg_invD(4) [OF i] tn emplace_back_inv [OF reg_invD(3) [OF i], of t] by (auto simp: new_def vec_simps)
  next
    case Unregister
    then show ?thesis
      using erase_node_ok [OF reg_invD(3,4) [OF i], of t 0 "length ?xs"] tn by (simp add: new_def vec_simps)
  qed
  then obtain ns where ns: "new = Some ns" "pv_inv ns" "distinct (pv_items ns)"
    "set (pv_items ns) = (if job = Register then insert t (set ?xs) else set ?xs - {t})"
    by auto
  define s' where "s' = goto t (Unlock_Nodes job 0 (pv_end ns)) (s\<lparr> nodes := ns \<rparr>)"
  have s': "step_modify t job s = s'"
    using ns(1) by (simp add: step_modify_def s'_def flip: new_def)
  have f: "nodes s' = ns" "muts s' = muts s" "announced s' = announced s" "entered s' = entered s"
    "place s' = (place s)(t := Unlock_Nodes job 0 (pv_end ns))"
    by (simp_all add: s'_def goto_def)
  note cong = place_inv_cong [OF f(3,4)]
  have th: "thread_inv s' u" for u
  proof (cases "u = t")
    case True
    have h: "holds (pv_items ns) t (Unlock_Nodes job 0 (pv_end ns)) = holds ?xs t (place s t)"
      using ns(4) tn p by (cases job) auto
    have "mutex_place (pv_items ns) t (Unlock_Nodes job 0 (pv_end ns)) m (mpc (muts s m) t)" for m
      using reg_invD(7) [OF i, of t m] unfolding mutex_place_def h by (auto simp: p split: if_splits)
    then show ?thesis
      using True reg_off [OF i, of t] p by (simp add: thread_inv_def f cong vec_simps)
  next
    case False
    note e = others_elsewhere [OF i p False]
    have "mutex_place (pv_items ns) u (place s u) m (mpc (muts s m) u)" for m
      using reg_invD(7) [OF i, of u m] unfolding mutex_place_def elsewhere(1,2) [OF e, of "pv_items ns"] .
    then show ?thesis
      using False elsewhere(3) [OF e reg_invD(9) [OF i]] reg_invD(8) [OF i, of u] by (simp add: thread_inv_def f cong)
  qed
  have reg: "set (pv_items ns) = {u. registered (place s' u)}"
    using ns(4) reg_items [OF i] tn by (cases job) (auto simp: f)
  have "place s' u = Unborn" if "N \<le> u" for u
    using reg_invD(6) [OF i that] t that by (auto simp: f)
  then show ?thesis
    using th reg ns reg_invD(1,2) [OF i] by (simp add: s' reg_inv_def nodes_inv_def f)
qed

subsection \<open>Critical sections and grace periods\<close>

lemma announce_inv:
  assumes i: "reg_inv N s" and t: "t < N" and p: "place s t = Live"
  shows "reg_inv N (announce t n s)"
proof (rule reg_inv_step [OF i t])
  show "counts_sections s (announce t n s)"
    by (auto simp: counts_sections_def announce_def node_in_critical_section_def)
  show "thread_inv (announce t n s) t"
    using reg_invD(7) [OF i, of t] p by (simp add: thread_inv_def announce_def)
qed (use reg_invD(2) [OF i] in \<open>simp_all add: announce_def\<close>)

lemma step_live_inv:
  assumes i: "reg_inv N s" and t: "t < N" and p: "place s t = Live"
  shows "reg_inv N (step_live t call s)"
proof (cases "call_assert call (announced s t)")
  case True
  show ?thesis
  proof (cases call)
    case (Synchronize c)
    then have off: "active (announced s t) = off_state" "c \<noteq> off_state"
      using True by (simp_all add: call_assert_def synchronize_assert_def node_in_critical_section_def)
    have own: "mpc (muts s m) t = Outside" for m
      using reg_invD(7) [OF i, of t m] p by (simp add: mutex_place_def)
    have "reg_inv N (goto t (Share c (entered s)) s)"
    proof (rule reg_inv_step [OF i t])
      show "thread_inv (goto t (Share c (entered s)) s) t"
        using off own by (simp add: thread_inv_def goto_def mutex_place_def)
    qed (use p reg_invD(2) [OF i] in \<open>auto simp: goto_def counts_sections_def\<close>)
    then show ?thesis using True Synchronize by (simp add: step_live_def)
  next
    case Destruct
    then have off: "active (announced s t) = off_state"
      using True by (simp add: call_assert_def node_in_critical_section_def)
    have own: "mpc (muts s m) t = Outside" for m
      using reg_invD(7) [OF i, of t m] p by (simp add: mutex_place_def)
    have "reg_inv N (goto t (Lock_List Unregister) s)"
    proof (rule reg_inv_step [OF i t])
      show "thread_inv (goto t (Lock_List Unregister) s) t"
        using off own by (simp add: thread_inv_def goto_def mutex_place_def)
    qed (use p reg_invD(2) [OF i] in \<open>auto simp: goto_def counts_sections_def\<close>)
    then show ?thesis using True Destruct by (simp add: step_live_def)
  qed (use True announce_inv [OF i t p] in \<open>simp_all add: step_live_def\<close>)
qed (use i in \<open>simp add: step_live_def\<close>)

lemma step_share_inv:
  assumes i: "reg_inv N s" and t: "t < N" and p: "place s t = Share c sn"
  shows "reg_inv N (step_share t c sn spurious s)"
proof -
  let ?ns = "pv_items (nodes s)" and ?q = "Visit c off_state 0 (pv_end (nodes s)) sn"
  let ?s = "acquire (Some t) Lock_Shared t spurious ?q s"
  let ?mx = "mutex_tstep t Lock_Shared spurious (muts s (Some t))"
  have w: "share_waiting (mpc (muts s (Some t)) t)" and out: "m \<noteq> Some t \<Longrightarrow> mpc (muts s m) t = Outside" for m
    using reg_invD(7) [OF i, of t "Some t"] reg_invD(7) [OF i, of t m] p by (simp_all add: mutex_place_def)
  have a: "active (announced s t) = off_state"
    using reg_off [OF i, of t] p by simp
  have pl: "c \<noteq> off_state" "\<forall>v. sn v \<le> entered s v"
    using reg_invD(9) [OF i, of t] p by simp_all
  have lt: "c < off_state"
    using pl(1) by (simp add: off_state_def word_order.not_eq_extremum)
  have "reg_inv N ?s"
  proof (rule reg_inv_step [OF i t])
    show "thread_inv ?s t"
    proof (cases "mpc ?mx t = Shared_Held")
      case True
      then show ?thesis
        using out a pl lt by (simp add: thread_inv_def acquire_fields mutex_place_def vec_simps)
    next
      case False
      then have e: "share_waiting (mpc ?mx t)"
        using mutex_tstep_share [OF w] by blast
      then show ?thesis
        using False out a pl p by (simp add: thread_inv_def acquire_fields mutex_place_def)
    qed
  qed (use p reg_invD(2) [OF i] mutex_tstep_inv [OF reg_invD(2) [OF i] t] in
      \<open>auto simp: acquire_fields mutex_tstep_other counts_sections_def\<close>)
  then show ?thesis by (simp add: step_share_def)
qed

lemma set_take_Suc: "i < length xs \<Longrightarrow> set (take (Suc i) xs) = insert (xs ! i) (set (take i xs))"
  by (simp add: take_Suc_conv_app_nth)

lemma new_section_less: "new_section s sn r v \<Longrightarrow> r' \<le> r \<Longrightarrow> new_section s sn r' v"
  unfolding new_section_def by (meson order_less_le_trans)

lemma step_visit_inv:
  assumes i: "reg_inv N s" and t: "t < N" and p: "place s t = Visit c r k e sn"
  shows "reg_inv N (step_visit t c r k e sn s)"
proof -
  let ?ns = "pv_items (nodes s)"
  have e: "e = length ?ns" "k \<le> e" "c < r" "\<forall>v. sn v \<le> entered s v" "\<forall>v \<in> set (take k ?ns). new_section s sn r v"
    using reg_invD(9) [OF i, of t] p by simp_all
  have off: "active (announced s t) = off_state"
    using reg_off [OF i, of t] p by simp
  show ?thesis
  proof (cases "k = e")
    case True
    have "new_section s sn r v" for v
    proof (cases "v \<in> set ?ns")
      case False
      then have "active (announced s v) = off_state"
        using reg_items [OF i, of v] reg_off [OF i, of v] by (cases "place s v = Live") auto
      then show ?thesis by (simp add: new_section_def off_state_def)
    qed (use e True in simp)
    then have "reg_inv N (goto t (Unshare c r sn) s)"
      using e off by (intro reg_goto [OF i t p]) auto
    then show ?thesis using True by (simp add: step_visit_def)
  next
    case False
    then have k: "k < length ?ns" using e by simp
    let ?a = "active (announced s (?ns ! k))"
    show ?thesis
    proof (cases "?a \<le> c")
      case True
      then have "reg_inv N (goto t (Wait_Node c r k e sn) s)"
        using e k off by (intro reg_goto [OF i t p]) auto
      then show ?thesis using False True reg_deref [OF i k] by (simp add: step_visit_def Let_def)
    next
      case c: False
      define r' where "r' = (if ?a < r then ?a else r)"
      have r': "r' \<le> r" "r' \<le> ?a" "c < r'"
        using c e(3) by (auto simp: r'_def)
      have "new_section s sn r' (?ns ! k)"
        using r'(2) by (auto simp: new_section_def not_less [symmetric])
      then have "\<forall>v \<in> set (take (Suc k) ?ns). new_section s sn r' v"
        using e(5) new_section_less [OF _ r'(1)] by (simp add: set_take_Suc [OF k])
      then have "reg_inv N (goto t (Visit c r' (Suc k) e sn) s)"
        using e k off r' by (intro reg_goto [OF i t p]) auto
      then show ?thesis using False c reg_deref [OF i k] by (simp add: step_visit_def Let_def r'_def)
    qed
  qed
qed

lemma step_wait_node_inv:
  assumes i: "reg_inv N s" and t: "t < N" and p: "place s t = Wait_Node c r k e sn"
  shows "reg_inv N (step_wait_node t c r k e sn s)"
proof -
  let ?ns = "pv_items (nodes s)"
  have e: "e = length ?ns" "k < e" "c < r" "\<forall>v. sn v \<le> entered s v" "\<forall>v \<in> set (take k ?ns). new_section s sn r v"
    "active (announced s (?ns ! k)) \<le> c \<or> new_section s sn off_state (?ns ! k)"
    using reg_invD(9) [OF i, of t] p by simp_all
  have off: "active (announced s t) = off_state"
    using reg_off [OF i, of t] p by simp
  have k: "k < length ?ns" using e by simp
  show ?thesis
  proof (cases "epoch_less_equal_to c (announced s (?ns ! k))")
    case True
    then show ?thesis using i reg_deref [OF i k] by (simp add: step_wait_node_def)
  next
    case False
    then have "new_section s sn r (?ns ! k)"
      using e(6) new_section_less [of s sn off_state _ r] by (auto simp: epoch_less_equal_to_def off_state_def)
    then have "\<forall>v \<in> set (take (Suc k) ?ns). new_section s sn r v"
      using e(5) by (simp add: set_take_Suc [OF k])
    then have "reg_inv N (goto t (Visit c r (Suc k) e sn) s)"
      using e k off by (intro reg_goto [OF i t p]) auto
    then show ?thesis using False reg_deref [OF i k] by (simp add: step_wait_node_def)
  qed
qed

section \<open>The invariant holds\<close>

lemma reg_inv_start: "reg_start N s \<Longrightarrow> reg_inv N s"
  by (simp add: reg_start_def reg_inv_def nodes_inv_def thread_inv_def new_sync_sys_def pv_new_refines mutex_inv_new
      mutex_place_def new_mutex_def [of] new_node_def) (use mutex_inv_new in \<open>simp add: new_mutex_def\<close>)

lemma reg_step_inv:
  assumes i: "reg_inv N s" and "reg_step N s s'"
  shows "reg_inv N s'"
proof -
  obtain t call spurious where t: "t < N" and s': "s' = reg_tstep t call spurious s"
    using assms(2) by (auto simp: reg_step_def)
  note steps = step_construct_inv step_lock_self_inv step_lock_list_inv step_lock_nodes_inv step_modify_inv
    step_unlock_nodes_inv step_unlock_list_inv step_unlock_self_inv step_live_inv step_share_inv step_visit_inv
    step_wait_node_inv step_unshare_inv
  show ?thesis
    unfolding s' reg_tstep_def by (cases "place s t") (simp_all add: steps [OF i t] i)
qed

interpretation registry: invariant_system "reg_start N" "reg_step N" "reg_inv N" for N
  by unfold_locales (auto simp: reg_inv_start reg_step_inv)

section \<open>Properties\<close>

text \<open>C4: A grace period is one: when \<open>synchronize_min_epoch\<close> has its result \<open>r\<close>, which lies above the epoch \<open>c\<close> it waited for,
  every thread that is inside a critical section of an epoch below \<open>r\<close> announced it after the call began, however the
  steps of all threads interleave and whichever threads come and go. So what was unlinked at an epoch below \<open>r\<close>
  before the call can no longer be seen by anyone.\<close>

theorem grace_period_concurrent:
  assumes "reachable (reg_start N) (reg_step N) s" and "place s t = Unshare c r sn"
  shows "c < r \<and> (\<forall>v. \<not> active (announced s v) < r \<or> sn v < entered s v)"
  using reg_invD(9) [OF registry.reachable_inv [OF assms(1)], of t] assms(2) by (auto simp: new_section_def)

text \<open>The node on the list a thread is about to read or lock.\<close>

fun node_read :: "reg_pc \<Rightarrow> nat option" where
  "node_read (Lock_Nodes job i e) = (if i = e then None else Some i)"
| "node_read (Unlock_Nodes job i e) = (if i = e then None else Some i)"
| "node_read (Visit c r i e sn) = (if i = e then None else Some i)"
| "node_read (Wait_Node c r i e sn) = Some i"
| "node_read _ = None"

text \<open>C10: Iterating over the list is safe: no thread changes the list while another one waits for a grace period, a thread that
  reads or locks a node finds one on the list whose thread has been constructed and not destroyed, and a node that is
  destroyed is off the list and its mutex is free, as the destructor of the mutex asserts.\<close>

theorem list_iteration_safe:
  assumes "reachable (reg_start N) (reg_step N) s"
  shows "place s t \<noteq> Undefined \<and> (shares (place s t) \<longrightarrow> (\<forall>u job. place s u \<noteq> Modify job))
    \<and> (\<forall>i. node_read (place s t) = Some i \<longrightarrow>
         (\<exists>v. pv_deref (nodes s) i = Some v \<and> place s v \<noteq> Unborn \<and> place s v \<noteq> Destroyed))
    \<and> (place s t = Destroyed \<longrightarrow> t \<notin> set (pv_items (nodes s)) \<and> mutex_unlocked (read_count (muts s (Some t))))"
proof (intro conjI impI allI)
  note i = registry.reachable_inv [OF assms]
  show "place s t \<noteq> Undefined"
    using reg_invD(9) [OF i, of t] by auto
  show "place s u \<noteq> Modify job" if "shares (place s t)" for u job
    using others_elsewhere(2) [OF i, of u job t] that by (cases "t = u") auto
  show "\<exists>v. pv_deref (nodes s) k = Some v \<and> place s v \<noteq> Unborn \<and> place s v \<noteq> Destroyed"
    if "node_read (place s t) = Some k" for k
  proof -
    have k: "k < length (pv_items (nodes s))"
      using that reg_invD(9) [OF i, of t] by (cases "place s t") (auto split: if_splits)
    have "registered (place s (pv_items (nodes s) ! k))"
      using nth_mem [OF k] reg_items [OF i] by blast
    then show ?thesis
      using reg_deref [OF i k] by auto
  qed
  assume d: "place s t = Destroyed"
  show t: "t \<notin> set (pv_items (nodes s))"
    using reg_items [OF i, of t] d by simp
  have "mpc (muts s (Some t)) u = Outside" for u
  proof (cases "u = t")
    case True
    then show ?thesis using reg_invD(7) [OF i, of t "Some t"] d by (simp add: mutex_place_def)
  next
    case False
    then show ?thesis by (rule foreign_outside [OF i t])
  qed
  then show "mutex_unlocked (read_count (muts s (Some t)))"
    by (rule mutex_all_outside [OF reg_invD(2) [OF i]])
qed

text \<open>Thread 0 registers, thread 1 registers and enters a section at epoch 7, thread 0 waits for epoch 5.\<close>

definition demo_run :: "(nat \<times> reg_call) list" where
  "demo_run = replicate 8 (0, Leave) @ replicate 10 (1, Leave) @ [(1, Enter 7)]
     @ replicate 5 (0, Synchronize 5)"

definition demo_sync :: sync_sys where
  "demo_sync = fold (\<lambda>(t, call). reg_tstep t call False) demo_run new_sync_sys"

lemma demo_sync_place:
  "case place demo_sync 0 of Unshare c r sn \<Rightarrow> c = 5 \<and> r = 7 \<and> sn 1 = 1 | _ \<Rightarrow> False"
  by code_simp

lemma reachable_run:
  assumes "reachable (reg_start N) (reg_step N) s" "\<forall>x \<in> set xs. fst x < N"
  shows "reachable (reg_start N) (reg_step N) (fold (\<lambda>(t, call). reg_tstep t call False) xs s)"
  using assms
proof (induction xs arbitrary: s)
  case (Cons x xs)
  obtain t call where x: "x = (t, call)" by (cases x)
  have "reg_step N s (reg_tstep t call False s)"
    using Cons.prems(2) x by (auto simp: reg_step_def)
  then have "reachable (reg_start N) (reg_step N) (reg_tstep t call False s)"
    by (rule reach_step [OF Cons.prems(1)])
  then show ?case
    using Cons.IH Cons.prems(2) by (simp add: x)
qed simp

lemma demo_sync_reachable: "reachable (reg_start 2) (reg_step 2) demo_sync"
  unfolding demo_sync_def
proof (rule reachable_run)
  show "reachable (reg_start 2) (reg_step 2) new_sync_sys"
    by (rule reach_start) (simp add: reg_start_def)
qed (auto simp: demo_run_def)

theorem grace_period_concurrent_witness:
  "\<exists>sn. place demo_sync 0 = Unshare 5 7 sn \<and> (\<not> active (announced demo_sync 1) < 7 \<or> sn 1 < entered demo_sync 1)"
proof -
  obtain sn where sn: "place demo_sync 0 = Unshare 5 7 sn"
    using demo_sync_place by (cases "place demo_sync 0") auto
  then show ?thesis
    using grace_period_concurrent [OF demo_sync_reachable sn] by blast
qed

theorem list_iteration_safe_witness: "\<forall>u job. place demo_sync u \<noteq> Modify job"
proof -
  obtain sn where "place demo_sync 0 = Unshare 5 7 sn"
    using demo_sync_place by (cases "place demo_sync 0") auto
  then show ?thesis
    using list_iteration_safe [OF demo_sync_reachable, of 0] by simp
qed

end
