(* ===== verification/Stm_Reclaim.thy ===== *)
theory Stm_Reclaim imports Serializability begin

text \<open>
  Concurrent transactions over heap variables, with the memory they give back: the machine of
  \<^verbatim>\<open>Stm_System\<close> together with the callbacks \<^verbatim>\<open>destroy_deallocate\<close> that \<^verbatim>\<open>rw_write\<close> registers for the
  object it replaces (\<^verbatim>\<open>detail/transaction_base.hpp\<close>), the chunks in which \<^verbatim>\<open>tx_success\<close> queues
  them under the epoch of the commit (\<^verbatim>\<open>thread_data.hpp\<close>, \<^verbatim>\<open>detail/quiescence_buffer.hpp\<close>) and the
  end of a grace period, which runs a chunk. The storage word of a variable is the address of its object.

  Reading the storage word that is to be freed is an access of its own: on the fast path of \<^verbatim>\<open>rw_write\<close>
  after the version check, on the slow path before it. Two ghosts are added: \<open>sections\<close> counts the
  critical sections a thread has entered, as in \<^verbatim>\<open>Thread_Registry\<close>, and a chunk remembers the ticket of its
  transaction and the counts at the time it was queued.

  The result: when a grace period has ended and a chunk has run, no transaction that is still running
  has read any of the objects it freed, and none will.
\<close>

section \<open>State\<close>

record gp_chunk =
  ch_epoch :: epoch_t
  ch_replaced :: "var_ref \<rightharpoonup> var_storage"
  ch_ticket :: nat
  ch_entered :: "nat \<Rightarrow> nat"

text \<open>
  \<open>replaced\<close> is the working chunk of each thread: the callbacks registered so far, by variable. \<open>to_load\<close> and
  \<open>cur_storage\<close> are the places inside \<^verbatim>\<open>rw_write\<close> before and after the load of the storage word.
  \<open>sync_epoch_of\<close> is the result of \<^verbatim>\<open>try_commit\<close>.
\<close>

record 'r mem_sys =
  base :: "'r sys"
  to_load :: "nat \<Rightarrow> var_ref option"
  cur_storage :: "nat \<Rightarrow> var_storage option"
  replaced :: "nat \<Rightarrow> var_ref \<rightharpoonup> var_storage"
  sync_epoch_of :: "nat \<Rightarrow> epoch_t"
  sections :: "nat \<Rightarrow> nat"
  chunks :: "nat \<Rightarrow> gp_chunk list"
  freed :: "gp_chunk list"

section \<open>Steps\<close>

text \<open>The loads of \<^verbatim>\<open>cur_storage\<close>.\<close>

definition step_load_registered :: "nat \<Rightarrow> var_ref \<Rightarrow> 'r mem_sys \<Rightarrow> 'r mem_sys" where
  "step_load_registered t v m =
     m\<lparr> to_load := (to_load m)(t := None),
        replaced := (replaced m)(t := (replaced m t)(v \<mapsto> storage_of (base m) v)) \<rparr>"

definition step_load_cur :: "nat \<Rightarrow> var_ref \<Rightarrow> 'r mem_sys \<Rightarrow> 'r mem_sys" where
  "step_load_cur t v m = m\<lparr> cur_storage := (cur_storage m)(t := Some (storage_of (base m) v)) \<rparr>"

text \<open>What a step of the transaction does to the callbacks; \<open>l\<close> and \<open>l'\<close> are the thread before and after.\<close>

definition register_fast :: "nat \<Rightarrow> var_ref \<Rightarrow> 'r thread \<Rightarrow> 'r mem_sys \<Rightarrow> 'r mem_sys" where
  "register_fast t v l' m =
     (case pc l' of Body q \<Rightarrow> m\<lparr> to_load := (to_load m)(t := Some v) \<rparr> | _ \<Rightarrow> m)"

definition register_slow :: "nat \<Rightarrow> var_ref \<Rightarrow> 'r thread \<Rightarrow> 'r mem_sys \<Rightarrow> 'r mem_sys" where
  "register_slow t v l' m =
     (let m' = m\<lparr> cur_storage := (cur_storage m)(t := None) \<rparr>
      in case (pc l', cur_storage m t) of
           (Body q, Some w) \<Rightarrow> m'\<lparr> replaced := (replaced m)(t := (replaced m t)(v \<mapsto> w)) \<rparr>
         | _ \<Rightarrow> m')"

definition queue_chunk :: "nat \<Rightarrow> 'r thread \<Rightarrow> 'r mem_sys \<Rightarrow> 'r mem_sys" where
  "queue_chunk t l m =
     (if replaced m t = Map.empty then m
      else m\<lparr> chunks := (chunks m)(t := chunks m t @
                [\<lparr> ch_epoch = sync_epoch_of m t, ch_replaced = replaced m t, ch_ticket = ticket l, ch_entered = sections m \<rparr>]),
              replaced := (replaced m)(t := Map.empty) \<rparr>)"

text \<open>A failed attempt empties the working chunk; the epoch of the commit is the clock before it is advanced.\<close>

definition drop_callbacks :: "nat \<Rightarrow> 'r mem_sys \<Rightarrow> 'r mem_sys" where
  [simp]: "drop_callbacks t m = m\<lparr> replaced := (replaced m)(t := Map.empty) \<rparr>"

definition keep_sync_epoch :: "nat \<Rightarrow> transaction_domain \<Rightarrow> 'r mem_sys \<Rightarrow> 'r mem_sys" where
  [simp]: "keep_sync_epoch t c m = m\<lparr> sync_epoch_of := (sync_epoch_of m)(t := clock c) \<rparr>"

definition callbacks_step :: "nat \<Rightarrow> 'r mem_sys \<Rightarrow> 'r sys \<Rightarrow> 'r mem_sys" where
  "callbacks_step t m s' =
     (let l = threads (base m) t; l' = threads s' t; m1 = m\<lparr> base := s' \<rparr> in
      case pc l of
        Announce \<Rightarrow> m1\<lparr> sections := (sections m)(t := Suc (sections m t)) \<rparr>
      | Body p \<Rightarrow> (case p of P_Set v x q \<Rightarrow> register_fast t v l' m1 | _ \<Rightarrow> m1)
      | Set_Slow v x p \<Rightarrow> register_slow t v l' m1
      | Abort \<Rightarrow> drop_callbacks t m1
      | Unwind \<Rightarrow> drop_callbacks t m1
      | Bump \<Rightarrow> keep_sync_epoch t (the_clock (base m)) m1
      | Success \<Rightarrow> queue_chunk t l m1
      | _ \<Rightarrow> m1)"

text \<open>On the slow path the storage is loaded when the variable is not in the write set yet.\<close>

definition loads_cur :: "nat \<Rightarrow> 'r mem_sys \<Rightarrow> var_ref option" where
  "loads_cur t m =
     (let l = threads (base m) t in
      case pc l of
        Set_Slow v x p \<Rightarrow>
          if \<not> lookup_success (hs_lookup (ws l) v) \<and> cur_storage m t = None then Some v else None
      | _ \<Rightarrow> None)"

definition mem_tstep :: "nat \<Rightarrow> 'r mem_sys \<Rightarrow> 'r mem_sys option" where
  "mem_tstep t m =
     (case to_load m t of
        Some v \<Rightarrow> Some (step_load_registered t v m)
      | None \<Rightarrow>
          (case loads_cur t m of
             Some v \<Rightarrow> Some (step_load_cur t v m)
           | None \<Rightarrow> map_option (callbacks_step t m) (tstep t (base m))))"

text \<open>
  A thread is quiet for a chunk when it is outside every critical section of an epoch up to that of
  the chunk, or has entered one since the chunk was queued. When all threads are, the first chunk of
  an idle thread runs.
\<close>

definition chunk_quiet :: "'r mem_sys \<Rightarrow> gp_chunk \<Rightarrow> nat \<Rightarrow> bool" where
  "chunk_quiet m c u \<longleftrightarrow> td_epoch (td (threads (base m) u)) \<le> ch_epoch c \<longrightarrow> ch_entered c u < sections m u"

definition mem_free_step :: "nat \<Rightarrow> 'r mem_sys \<Rightarrow> 'r mem_sys \<Rightarrow> bool" where
  "mem_free_step t m m' \<longleftrightarrow> pc (threads (base m) t) = Idle \<and>
     (\<exists>c cs. chunks m t = c # cs \<and> (\<forall>u. chunk_quiet m c u)
        \<and> m' = m\<lparr> chunks := (chunks m)(t := cs), freed := c # freed m \<rparr>)"

definition mem_step :: "'r mem_sys \<Rightarrow> 'r mem_sys \<Rightarrow> bool" where
  "mem_step m m' \<longleftrightarrow> (\<exists>t. mem_tstep t m = Some m' \<or> mem_free_step t m m')"

text \<open>The step that runs a chunk, as a function.\<close>

definition run_chunk :: "nat \<Rightarrow> 'r mem_sys \<Rightarrow> 'r mem_sys" where
  "run_chunk t m = m\<lparr> chunks := (chunks m)(t := tl (chunks m t)), freed := hd (chunks m t) # freed m \<rparr>"

lemma run_chunk_step:
  "pc (threads (base m) t) = Idle \<Longrightarrow> chunks m t \<noteq> [] \<Longrightarrow> (\<And>u. chunk_quiet m (hd (chunks m t)) u) \<Longrightarrow> mem_step m (run_chunk t m)"
  unfolding mem_step_def mem_free_step_def run_chunk_def by (metis list.collapse)

definition new_mem :: "'r sys \<Rightarrow> 'r mem_sys" where
  "new_mem s = \<lparr> base = s, to_load = (\<lambda>_. None), cur_storage = (\<lambda>_. None), replaced = (\<lambda>_. Map.empty),
     sync_epoch_of = (\<lambda>_. 0), sections = (\<lambda>_. 0), chunks = (\<lambda>_. []), freed = [] \<rparr>"

definition mem_start :: "'r mem_sys \<Rightarrow> bool" where
  "mem_start m \<longleftrightarrow> (\<exists>s. stm_start s \<and> m = new_mem s)"

end
