(* ===== verification/Stm_Reclaim_Inv.thy ===== *)
theory Stm_Reclaim_Inv imports Stm_Reclaim begin

text \<open>
  The invariant of the machine with callbacks: what a chunk that waits for its grace period, and one
  that has run, says about the variables it concerns; which callbacks a running transaction has
  registered; and that every commit queues at most one chunk. The steps of the transactions enter
  through \<open>stm_inv\<close> and \<open>env\<close> only.
\<close>

section \<open>What a step does to its thread\<close>

definition in_section :: "'r thread \<Rightarrow> bool" where
  "in_section l \<longleftrightarrow> (case pc l of Idle \<Rightarrow> False | Start \<Rightarrow> False | Announce \<Rightarrow> False | _ \<Rightarrow> True)"

lemma in_section_active: "in_section l \<Longrightarrow> active_t l"
  by (simp add: in_section_def active_t_def split: pc.splits)

lemmas step_defs = step_idle_def step_get_clock_def step_access_lock_def step_get_def step_get_fast_def step_slow_get_def
  step_get_slow_def step_get_ro_def step_set_def step_set_slow_def step_return_def log_commit_def step_abort_def step_unwind_def
  step_lock_def step_lock_cas_def step_unlock_def step_unlock_store_def step_validate_def step_write_def step_bump_def
  step_publish_def step_success_def put_def

text \<open>A running transaction keeps its version; it reads a variable only while its version is valid.\<close>

lemma tstep_transaction:
  assumes "tstep t s = Some s'" and "active_t (threads s' t)"
  shows "pc (threads s t) = Start \<and> seen (threads s' t) = Map.empty \<and> start (threads s' t) = tickets s
      \<and> rv (threads s' t) = clock (the_clock s) \<and> pc (threads s' t) = Announce
    \<or> active_t (threads s t) \<and> tx (threads s' t) = tx (threads s t) \<and> start (threads s' t) = start (threads s t)
      \<and> snap (threads s' t) = snap (threads s t)
      \<and> (\<forall>v. seen (threads s' t) v = seen (threads s t) v \<or> version_of s v \<le> rv (threads s t))"
proof (cases "pc (threads s t)")
  case (Body p)
  then show ?thesis
    using assms by (cases p) (auto simp: tstep_def step_defs active_t_def Let_def split: if_splits)
qed (use assms in \<open>auto simp: tstep_def step_defs active_t_def Let_def rw_valid_def get_clock_def transaction_def read_transaction_def
      split: if_splits option.splits list.splits prod.splits\<close>)

text \<open>Its node holds the version between \<^verbatim>\<open>access_lock\<close> and \<^verbatim>\<open>access_unlock\<close>.\<close>

lemma remove_writes_from_node:
  "synchronization_node (remove_writes_from n d) = synchronization_node d"
  by (induction n d rule: remove_writes_from.induct) simp_all

lemma tstep_section:
  assumes "tstep t s = Some s'"
  shows "in_section (threads s' t) \<longleftrightarrow> pc (threads s t) = Announce
      \<or> in_section (threads s t) \<and> (case pc (threads s t) of Abort \<Rightarrow> False | Unwind \<Rightarrow> False | Success \<Rightarrow> False | _ \<Rightarrow> True)"
proof (cases "pc (threads s t)")
  case (Body p)
  then show ?thesis
    using assms by (cases p) (auto simp: tstep_def step_defs in_section_def Let_def split: if_splits)
qed (use assms in \<open>auto simp: tstep_def step_defs in_section_def Let_def
      split: if_splits option.splits list.splits prod.splits\<close>)

lemma tstep_node:
  assumes "tstep t s = Some s'"
  shows "td_epoch (td (threads s' t)) = (case pc (threads s t) of
      Announce \<Rightarrow> rv (threads s t) | Abort \<Rightarrow> off_state | Unwind \<Rightarrow> off_state | Success \<Rightarrow> off_state
    | _ \<Rightarrow> td_epoch (td (threads s t)))"
proof (cases "pc (threads s t)")
  case (Body p)
  then show ?thesis
    using assms by (cases p) (auto simp: tstep_def step_defs td_epoch_def node_epoch_def Let_def
      add_write_set_unchecked_def remove_writes_from_reads_def remove_writes_from_node split: if_splits)
qed (use assms in \<open>auto simp: tstep_def step_defs td_epoch_def node_epoch_def Let_def td_access_lock_def access_lock_def
      td_access_unlock_def access_unlock_def clear_read_write_sets_def add_write_set_def
      split: if_splits option.splits list.splits prod.splits\<close>)

section \<open>The invariant\<close>

text \<open>
  The objects a chunk frees were unlinked by a commit whose epoch is below the clock: every variable
  concerned is newer than that, held the object before the commit in the serial order, and a
  transaction that has loaded a later clock comes after the commit.
\<close>

definition replaces :: "'r sys \<Rightarrow> nat \<Rightarrow> (var_ref \<rightharpoonup> var_storage) \<Rightarrow> bool" where
  "replaces s n old \<longleftrightarrow> (\<exists>e. log s n = Some e \<and> dom (e_writes e) = dom old)"

definition chunk_ok :: "'r sys \<Rightarrow> epoch_t \<Rightarrow> (var_ref \<rightharpoonup> var_storage) \<Rightarrow> nat \<Rightarrow> bool" where
  "chunk_ok s e old n \<longleftrightarrow> e < clock (the_clock s) \<and> n < tickets s
     \<and> replaces s n old
     \<and> (\<forall>v x. old v = Some x \<longrightarrow> e < committed_version s v \<and> sig s n v = x \<and> \<not> pend s n v)
     \<and> (\<forall>u. active_t (threads s u) \<and> e < rv (threads s u) \<longrightarrow> n < start (threads s u))"

text \<open>A section entered after the chunk was queued has read none of its variables at an old version.\<close>

definition unread_since :: "'r mem_sys \<Rightarrow> gp_chunk \<Rightarrow> nat \<Rightarrow> bool" where
  "unread_since m c u \<longleftrightarrow>
     (let l = threads (base m) u in
      in_section l \<longrightarrow> rv l \<le> ch_epoch c \<longrightarrow> ch_entered c u < sections m u \<longrightarrow> (\<forall>v \<in> dom (ch_replaced c). seen l v = None))"

definition chunk_inv :: "'r mem_sys \<Rightarrow> gp_chunk \<Rightarrow> bool" where
  "chunk_inv m c \<longleftrightarrow> chunk_ok (base m) (ch_epoch c) (ch_replaced c) (ch_ticket c)
     \<and> (\<forall>u. ch_entered c u \<le> sections m u \<and> unread_since m c u)"

definition node_inv :: "'r sys \<Rightarrow> nat \<Rightarrow> bool" where
  "node_inv s t \<longleftrightarrow> td_epoch (td (threads s t)) = (if in_section (threads s t) then rv (threads s t) else off_state)"

text \<open>The callbacks a transaction has registered are for the variables it has written, and free what it found there.\<close>

definition committing_t :: "'r thread \<Rightarrow> bool" where
  "committing_t l \<longleftrightarrow> (case pc l of Write i \<Rightarrow> True | Bump \<Rightarrow> True | Publish i x \<Rightarrow> True | Success \<Rightarrow> True | _ \<Rightarrow> False)"

definition found_at :: "'r sys \<Rightarrow> nat \<Rightarrow> (var_ref \<rightharpoonup> var_storage) \<Rightarrow> bool" where
  "found_at s n old \<longleftrightarrow> n < tickets s \<and> (\<forall>v x. old v = Some x \<longrightarrow> sig s n v = x \<and> \<not> pend s n v)"

definition phase_inv :: "'r sys \<Rightarrow> 'r thread \<Rightarrow> (var_ref \<rightharpoonup> var_storage) \<Rightarrow> epoch_t \<Rightarrow> bool" where
  "phase_inv s l old e \<longleftrightarrow> (case pc l of
      Idle \<Rightarrow> old = Map.empty
    | Start \<Rightarrow> old = Map.empty
    | Validate j \<Rightarrow> found_at s (ticket l) old
    | Write i \<Rightarrow> found_at s (ticket l) old \<and> replaces s (ticket l) old
    | Bump \<Rightarrow> found_at s (ticket l) old \<and> replaces s (ticket l) old
    | Publish i x \<Rightarrow> chunk_ok s e old (ticket l)
    | Success \<Rightarrow> old = Map.empty \<or> chunk_ok s e old (ticket l)
    | _ \<Rightarrow> True)"

definition callbacks_inv :: "'r mem_sys \<Rightarrow> nat \<Rightarrow> bool" where
  "callbacks_inv m t \<longleftrightarrow>
     (let s = base m; l = threads s t; old = replaced m t in
      (\<forall>v. to_load m t = Some v \<longrightarrow> v \<in> set (dests l) \<and> (\<exists>q. pc l = Body q))
      \<and> (\<forall>x. cur_storage m t = Some x \<longrightarrow> (\<exists>v y p. pc l = Set_Slow v y p \<and> v \<notin> set (dests l) \<and> fresh s l v x))
      \<and> (cont l \<noteq> None \<or> committing_t l \<longrightarrow> dom old \<union> set_option (to_load m t) = set (dests l))
      \<and> (cont l \<noteq> None \<longrightarrow> (\<forall>v x. old v = Some x \<longrightarrow> fresh s l v x))
      \<and> phase_inv s l old (sync_epoch_of m t))"

definition reclaim_inv :: "'r mem_sys \<Rightarrow> bool" where
  "reclaim_inv m \<longleftrightarrow> stm_inv (base m) \<and> (\<forall>t. node_inv (base m) t \<and> callbacks_inv m t)
     \<and> (\<forall>t. \<forall>c \<in> set (chunks m t). chunk_inv m c)
     \<and> (\<forall>c \<in> set (freed m). chunk_inv m c \<and> (\<forall>u. chunk_quiet m c u))"

section \<open>What survives a step\<close>

lemma env_replaces: "env t s s' \<Longrightarrow> replaces s n old \<Longrightarrow> replaces s' n old"
  by (auto simp: replaces_def dest: env_log)

lemma chunk_ok_step:
  assumes i: "stm_inv s" and st: "tstep t s = Some s'" and c: "chunk_ok s e old n"
  shows "chunk_ok s' e old n"
proof -
  note env = tstep_env [OF i st]
  have e: "e < clock (the_clock s)" and n: "n < tickets s" using c by (simp_all add: chunk_ok_def)
  have old: "e < committed_version s' v \<and> sig s' n v = x \<and> \<not> pend s' n v" if "old v = Some x" for v x
  proof -
    have v: "e < committed_version s v" "sig s n v = x" "\<not> pend s n v"
      using c that by (auto simp: chunk_ok_def)
    then have "e < committed_version s' v"
      using env_committed [OF env, of v] e by (metis order.strict_trans)
    then show ?thesis
      using env_sig [OF env, of n v] v n by simp
  qed
  have "n < start (threads s' u)" if a: "active_t (threads s' u)" "e < rv (threads s' u)" for u
  proof (cases "u = t")
    case True
    then show ?thesis
      using tstep_transaction [OF st] a c n by (auto simp: chunk_ok_def)
  next
    case False
    then show ?thesis
      using env_threads [OF env False] a c by (simp add: chunk_ok_def)
  qed
  moreover have "replaces s' n old"
    using c env_replaces [OF env] by (simp add: chunk_ok_def)
  ultimately show ?thesis
    using old e n env_clock [OF env] env_tickets [OF env] by (simp add: chunk_ok_def)
qed

lemma found_at_step:
  "stm_inv s \<Longrightarrow> tstep t s = Some s' \<Longrightarrow> found_at s n old \<Longrightarrow> found_at s' n old"
  using env_sig [OF tstep_env] env_tickets [OF tstep_env] by (fastforce simp: found_at_def)

lemma phase_inv_step:
  assumes "stm_inv s" and "tstep t s = Some s'" and "phase_inv s l old e"
  shows "phase_inv s' l old e"
  using assms(3) chunk_ok_step [OF assms(1,2)] found_at_step [OF assms(1,2)] env_replaces [OF tstep_env [OF assms(1,2)]]
  by (cases "pc l") (auto simp: phase_inv_def)

lemma cont_active: "cont l \<noteq> None \<Longrightarrow> active_t l"
  by (auto simp: cont_def active_t_def split: pc.splits)

lemma fresh_step:
  assumes "stm_inv s" and "tstep t s = Some s'" and "active_t (threads s u)" and "fresh s (threads s u) v x"
  shows "fresh s' (threads s u) v x"
  using fresh_env [OF tstep_env [OF assms(1,2)] stm_invD(2) [OF assms(1,3)] assms(4)] .

text \<open>The parts of the state.\<close>

lemma callbacks_step_fields:
  "base (callbacks_step t m s') = s'" "freed (callbacks_step t m s') = freed m"
  "sections (callbacks_step t m s') u = (if u = t \<and> pc (threads (base m) t) = Announce then Suc (sections m t) else sections m u)"
  "u \<noteq> t \<Longrightarrow> to_load (callbacks_step t m s') u = to_load m u" "u \<noteq> t \<Longrightarrow> cur_storage (callbacks_step t m s') u = cur_storage m u"
  "u \<noteq> t \<Longrightarrow> replaced (callbacks_step t m s') u = replaced m u"
  "u \<noteq> t \<Longrightarrow> sync_epoch_of (callbacks_step t m s') u = sync_epoch_of m u"
  "u \<noteq> t \<Longrightarrow> chunks (callbacks_step t m s') u = chunks m u"
  "chunks (callbacks_step t m s') t = (if pc (threads (base m) t) = Success \<and> replaced m t \<noteq> Map.empty
     then chunks m t @ [\<lparr> ch_epoch = sync_epoch_of m t, ch_replaced = replaced m t, ch_ticket = ticket (threads (base m) t),
       ch_entered = sections m \<rparr>] else chunks m t)"
  by (auto simp: callbacks_step_def Let_def register_fast_def register_slow_def queue_chunk_def
      split: pc.splits stm_prog.splits option.splits)

lemma chunk_okD:
  assumes "chunk_ok s e old n"
  shows "e < clock (the_clock s)" "n < tickets s" "v \<in> dom old \<Longrightarrow> e < committed_version s v"
    "replaces s n old" "old v = Some x \<Longrightarrow> sig s n v = x"
    "active_t (threads s u) \<Longrightarrow> e < rv (threads s u) \<Longrightarrow> n < start (threads s u)"
  using assms by (auto simp: chunk_ok_def)

lemma seen_kept:
  assumes i: "stm_inv s" and st: "tstep t s = Some s'" and c: "chunk_ok s e old n" and v: "v \<in> dom old"
    and a: "active_t (threads s' t)" "rv (threads s' t) \<le> e"
  shows "pc (threads s t) = Start \<and> seen (threads s' t) v = None
    \<or> active_t (threads s t) \<and> rv (threads s t) = rv (threads s' t) \<and> seen (threads s' t) v = seen (threads s t) v"
proof -
  have "\<not> version_of s v \<le> rv (threads s t)" if "active_t (threads s t)" "rv (threads s t) \<le> e"
    using valid_unowned(2) [OF stm_inv_g [OF i] stm_invD(2) [OF i that(1)], of v] that(2) chunk_okD(3) [OF c v]
    by (meson leD order.trans)
  then show ?thesis using tstep_transaction [OF st a(1)] a(2) by auto
qed

lemma chunk_inv_step:
  assumes i: "stm_inv (base m)" and st: "tstep t (base m) = Some s'" and c: "chunk_inv m c"
  shows "chunk_inv (callbacks_step t m s') c"
proof -
  let ?l = "threads (base m) t" and ?l' = "threads s' t" and ?m' = "callbacks_step t m s'"
  have ok: "chunk_ok (base m) (ch_epoch c) (ch_replaced c) (ch_ticket c)" using c by (simp add: chunk_inv_def)
  have "ch_entered c u \<le> sections ?m' u \<and> unread_since ?m' c u" for u
  proof (cases "u = t")
    case False
    then show ?thesis
      using c env_threads [OF tstep_env [OF i st] False]
      by (auto simp: chunk_inv_def unread_since_def callbacks_step_fields Let_def)
  next
    case True
    have e: "ch_entered c t \<le> sections m t" "unread_since m c t" using c by (simp_all add: chunk_inv_def)
    have "seen ?l' v = None" if h: "in_section ?l'" "rv ?l' \<le> ch_epoch c" "ch_entered c t < sections ?m' t" "v \<in> dom (ch_replaced c)" for v
    proof (cases "pc ?l = Announce")
      case True
      then show ?thesis
        using seen_kept [OF i st ok h(4) in_section_active [OF h(1)] h(2)] stm_invD(3) [OF i, of t]
        by (auto simp: pc_inv_def)
    next
      case False
      then have "in_section ?l" using h(1) tstep_section [OF st] by simp
      then show ?thesis
        using False h seen_kept [OF i st ok h(4) in_section_active [OF h(1)] h(2)] e(2)
        by (auto simp: in_section_def unread_since_def callbacks_step_fields Let_def)
    qed
    then show ?thesis
      using e(1) by (auto simp: True unread_since_def callbacks_step_fields Let_def)
  qed
  then show ?thesis
    using chunk_ok_step [OF i st ok] by (simp add: chunk_inv_def callbacks_step_fields)
qed

lemma chunk_quiet_step:
  assumes i: "stm_inv (base m)" and st: "tstep t (base m) = Some s'" and c: "chunk_inv m c" and q: "chunk_quiet m c u"
  shows "chunk_quiet (callbacks_step t m s') c u"
proof (cases "u = t")
  case False
  then show ?thesis
    using q env_threads [OF tstep_env [OF i st] False] by (simp add: chunk_quiet_def callbacks_step_fields)
next
  case True
  have ok: "chunk_ok (base m) (ch_epoch c) (ch_replaced c) (ch_ticket c)" and e: "ch_entered c t \<le> sections m t"
    using c by (simp_all add: chunk_inv_def)
  have "\<not> locked (ch_epoch c)"
    by (rule unlocked_le [OF clock_at(2) [OF stm_inv_g [OF i]] less_imp_le [OF chunk_okD(1) [OF ok]]])
  then have "\<not> off_state \<le> ch_epoch c"
    by (metis locked_off_state off_state_le)
  then show ?thesis
    using q e unfolding True chunk_quiet_def callbacks_step_fields tstep_node [OF st]
    by (cases "pc (threads (base m) t)") auto
qed

lemma node_inv_step:
  assumes i: "stm_inv s" and st: "tstep t s = Some s'" and "node_inv s u"
  shows "node_inv s' u"
proof (cases "u = t")
  case False
  then show ?thesis
    using assms(3) env_threads [OF tstep_env [OF i st] False] by (simp add: node_inv_def)
next
  case True
  have rv: "rv (threads s' t) = rv (threads s t)" if "in_section (threads s' t)"
    using tstep_transaction [OF st in_section_active [OF that]] that by (auto simp: in_section_def)
  show ?thesis
    using assms(3) rv tstep_section [OF st] unfolding True node_inv_def tstep_node [OF st]
    by (cases "pc (threads s t)") (auto simp: in_section_def)
qed

lemma callbacks_inv_other:
  assumes i: "stm_inv (base m)" and st: "tstep t (base m) = Some s'" and "u \<noteq> t" and c: "callbacks_inv m u"
  shows "callbacks_inv (callbacks_step t m s') u"
proof -
  let ?l = "threads (base m) u"
  have l: "threads s' u = ?l" using env_threads [OF tstep_env [OF i st] assms(3)] .
  have f: "fresh (base m) ?l v x \<Longrightarrow> cont ?l \<noteq> None \<Longrightarrow> fresh s' ?l v x" for v x
    using fresh_step [OF i st cont_active] by blast
  have "\<exists>v y p. pc ?l = Set_Slow v y p \<and> v \<notin> set (dests ?l) \<and> fresh s' ?l v x" if cur: "cur_storage m u = Some x" for x
  proof -
    obtain v y p where p: "pc ?l = Set_Slow v y p" "v \<notin> set (dests ?l)" "fresh (base m) ?l v x"
      using c cur by (auto simp: callbacks_inv_def Let_def)
    then show ?thesis using f by (simp add: cont_def)
  qed
  then show ?thesis
    using c f phase_inv_step [OF i st, of ?l "replaced m u" "sync_epoch_of m u"] assms(3)
    by (simp add: callbacks_inv_def Let_def callbacks_step_fields l)
qed

section \<open>The thread that moves\<close>

lemma tstep_dests:
  assumes i: "stm_inv s" and st: "tstep t s = Some s'" and c: "cont (threads s' t) \<noteq> None \<or> committing_t (threads s' t)"
    and n: "\<And>v x p. pc (threads s t) \<noteq> Body (P_Set v x p)" "\<And>v x p. pc (threads s t) \<noteq> Set_Slow v x p"
  shows "pc (threads s t) = Start \<and> dests (threads s' t) = []
    \<or> (cont (threads s t) \<noteq> None \<or> committing_t (threads s t)) \<and> (cont (threads s' t) \<noteq> None \<longrightarrow> cont (threads s t) \<noteq> None)
      \<and> dests (threads s' t) = dests (threads s t)"
proof (cases "pc (threads s t)")
  case (Body p)
  obtain rs where "remove_writes_from_reads (td (threads s t)) = (td (threads s t))\<lparr> read_set := rs \<rparr>"
    using stm_invD(1) [OF i, of t] remove_writes_from_reads_spec unfolding own_data_def by metis
  then show ?thesis
    using st c n Body by (cases p) (auto simp: tstep_def step_defs cont_def committing_t_def Let_def split: if_splits)
next
  case Start
  then show ?thesis
    using st c stm_invD(1) [OF i, of t] by (auto simp: tstep_def step_defs own_data_def active_t_def Let_def)
qed (use st c n in \<open>auto simp: tstep_def step_defs cont_def committing_t_def Let_def td_access_lock_def
      split: if_splits option.splits list.splits prod.splits\<close>)

lemma tstep_set_fast:
  assumes i: "stm_inv s" and st: "tstep t s = Some s'" and p: "pc (threads s t) = Body (P_Set v x q)"
  shows "dests (threads s' t) = dests (threads s t) \<and> pc (threads s' t) = Set_Slow v x q
    \<or> v \<notin> set (dests (threads s t)) \<and> set (dests (threads s' t)) = insert v (set (dests (threads s t))) \<and> pc (threads s' t) = Body q"
proof -
  have inv: "hs_inv (ws (threads s t))" using stm_invD(1) [OF i, of t] by (simp add: own_data_def)
  show ?thesis
    using st p filter_miss [OF inv, of v]
    by (auto simp: tstep_def step_defs Let_def add_write_set_unchecked_def hs_unchecked_push_back_eq [OF inv] ws_simps
        split: if_splits)
qed

lemma tstep_set_slow:
  assumes i: "stm_inv s" and st: "tstep t s = Some s'" and p: "pc (threads s t) = Set_Slow v x q"
  shows "set (dests (threads s' t)) = insert v (set (dests (threads s t))) \<and> pc (threads s' t) = Body q \<or> pc (threads s' t) = Abort"
proof -
  have inv: "hs_inv (ws (threads s t))" using stm_invD(1) [OF i, of t] by (simp add: own_data_def)
  note w = looked_up_write [OF inv refl refl, of v x]
  have d: "set (dests l) = dom (hs_view (ws l))" for l :: "'a thread" by (simp add: ws_simps)
  show ?thesis
    using st p w(2) unfolding d
    by (auto simp: tstep_def step_defs Let_def split: if_splits)
qed

text \<open>The last lock: what has been found is what the serial order holds for all tickets up to this one.\<close>

lemma locked_found:
  assumes i: "stm_inv s" and p: "pc (threads s t) = Lock_Cas k y" and last: "Suc k = length (dests (threads s t))"
    and y: "version_of s (dests (threads s t) ! k) = y" and f: "fresh s (threads s t) v x" and v: "v \<in> set (dests (threads s t))"
  shows "sig s (tickets s) v = x \<and> \<not> pend s (tickets s) v"
proof -
  let ?l = "threads s t"
  note g = stm_inv_g [OF i]
  have a: "snap_inv s ?l" using stm_invD(2) [OF i, of t] p by (simp add: active_t_def)
  have pi: "old_versions s ?l" "y \<le> rv ?l" using stm_invD(3) [OF i, of t] p by (simp_all add: pc_inv_def)
  show ?thesis
  proof (cases "v = dests ?l ! k")
    case True
    then have "version_of s v \<le> rv ?l" using y pi(2) by simp
    note u = valid_unowned [OF g a this]
    have "sig s (tickets s) v = committed s v" using ser_at [OF g, of v] u(1) by simp
    moreover have "\<not> rv ?l < committed_version s v" using u(1,2) by simp
    ultimately show ?thesis using u f by (auto simp: fresh_def)
  next
    case False
    obtain j where j: "j < length (dests ?l)" "v = dests ?l ! j" using v by (metis in_set_conv_nth)
    then have "j < k" using last False by (cases "j = k") auto
    then have "v \<in> set (take k (dests ?l))"
      using j by (auto simp: in_set_conv_nth intro!: exI [of _ j])
    then have h: "v \<in> held ?l" using p by (simp add: held_def)
    then have o: "owner s v = Some t" using owner_held [OF g] by simp
    have nd: "\<not> decided_t ?l" "\<not> pending_t ?l" using p by (simp_all add: decided_t_def pending_t_def)
    have cv: "committed_version s v \<le> rv ?l" using pi(1) h by (simp add: old_versions_def)
    then have "committed s v = snap ?l v" using a by (simp add: snap_inv_def)
    moreover have "sig s (tickets s) v = committed s v" using ser_at [OF g, of v] o nd by simp
    moreover have "x = snap ?l v" using f cv o nd by (auto simp: fresh_def dec_def)
    moreover have "\<not> pend s (tickets s) v"
    proof
      assume "pend s (tickets s) v"
      then show False using pend_owned [of s "tickets s" v] g o nd by (auto simp: ginv_def)
    qed
    ultimately show ?thesis by simp
  qed
qed

lemma lock_cas_found:
  assumes i: "stm_inv s" and st: "tstep t s = Some s'" and p: "pc (threads s t) = Lock_Cas k y" and p': "pc (threads s' t) = Validate j"
    and f: "\<And>v x. old v = Some x \<Longrightarrow> fresh s (threads s t) v x" and d: "dom old \<subseteq> set (dests (threads s t))"
  shows "found_at s' (ticket (threads s' t)) old"
proof -
  let ?l = "threads s t"
  have k: "k < length (dests ?l)" and inv: "hs_inv (ws ?l)"
    using stm_invD [OF i, of t] p by (simp_all add: pc_inv_def own_data_def)
  have "hs_dest_at (ws ?l) k = dests ?l ! k" using k hs_dest_at_nth [OF inv] by (simp add: hs_end_dests)
  then have c: "Suc k = length (dests ?l)" "version_of s (dests ?l ! k) = y" "ticket (threads s' t) = tickets s" "tickets s' = Suc (tickets s)"
    using st p p' inv by (auto simp: tstep_def step_defs Let_def hs_end_dests split: if_splits)
  have "sig s' (tickets s) v = x \<and> \<not> pend s' (tickets s) v" if "old v = Some x" for v x
    using locked_found [OF i p c(1,2) f [OF that]] d that env_sig [OF tstep_env [OF i st], of "tickets s" v] by auto
  then show ?thesis by (simp add: found_at_def c)
qed

lemma decide_replaces:
  assumes st: "tstep t s = Some s'" and p: "pc (threads s t) = Validate j" and p': "pc (threads s' t) = Write k"
    and d: "dom old = set (dests (threads s t))"
  shows "replaces s' (ticket (threads s t)) old"
  using st p p' d by (auto simp: tstep_def step_defs Let_def replaces_def ws_simps split: if_splits option.splits)

lemma bump_chunk:
  assumes i: "stm_inv s" and st: "tstep t s = Some s'" and p: "pc (threads s t) = Bump"
    and f: "found_at s (ticket (threads s t)) old" and w: "replaces s (ticket (threads s t)) old"
    and d: "dom old \<subseteq> set (dests (threads s t))"
  shows "chunk_ok s' (clock (the_clock s)) old (ticket (threads s' t)) \<and> pc (threads s' t) = Publish 0 (clock (the_clock s) + bump_size)"
proof -
  let ?l = "threads s t" and ?e = "clock (the_clock s)"
  note env = tstep_env [OF i st]
  have b: "bump_assert ?e" and s': "clock (the_clock s') = ?e + bump_size" "ticket (threads s' t) = ticket ?l"
      "pc (threads s' t) = Publish 0 (?e + bump_size)" "rv (threads s' t) = rv ?l"
      "\<And>v. committed_version s' v = (if hs_view (ws ?l) v = None then committed_version s v else ?e + bump_size)"
    using st p by (auto simp: tstep_def step_defs Let_def fetch_and_bump_clock_def split: if_splits)
  have "?e < committed_version s' v" if "old v = Some x" for v x
  proof -
    have "hs_view (ws ?l) v \<noteq> None" using d that by (auto simp: ws_simps)
    then show ?thesis using s'(5) [of v] bump_facts(1) [OF b] by auto
  qed
  moreover have "\<not> ?e < rv (threads s' u)" if "active_t (threads s' u)" for u
  proof (cases "u = t")
    case True
    have "rv ?l \<le> ?e" using stm_invD(2) [OF i, of t] p by (simp add: active_t_def snap_inv_def)
    then show ?thesis by (simp add: True s')
  next
    case False
    then show ?thesis
      using stm_invD(2) [OF i, of u] that env_threads [OF env False] by (simp add: snap_inv_def not_less)
  qed
  moreover have "replaces s' (ticket ?l) old" by (rule env_replaces [OF env w])
  ultimately show ?thesis
    using found_at_step [OF i st f] bump_facts(1) [OF b] s' by (auto simp: chunk_ok_def found_at_def leD)
qed

lemma commit_empty:
  assumes i: "stm_inv s" and st: "tstep t s = Some s'" and p: "pc (threads s t) = Body p" and p': "pc (threads s' t) = Success"
  shows "dests (threads s t) = [] \<and> dests (threads s' t) = []"
proof -
  have "\<not> can_write (tx (threads s t)) \<Longrightarrow> dests (threads s t) = []"
    using p stm_invD(1) [OF i, of t] by (simp add: own_data_def active_t_def)
  then show ?thesis
    using st p p' by (cases p) (auto simp: tstep_def step_defs Let_def hs_empty_items hs_dests_def split: if_splits)
qed

lemma phase_self:
  assumes i: "stm_inv s" and st: "tstep t s = Some s'" and ph: "phase_inv s (threads s t) old e"
    and d: "cont (threads s t) \<noteq> None \<or> committing_t (threads s t) \<Longrightarrow> dom old = set (dests (threads s t))"
    and f: "\<And>v x. cont (threads s t) \<noteq> None \<Longrightarrow> old v = Some x \<Longrightarrow> fresh s (threads s t) v x"
    and n: "pc (threads s t) \<noteq> Abort" "pc (threads s t) \<noteq> Unwind" "pc (threads s t) \<noteq> Success" "pc (threads s t) \<noteq> Bump"
  shows "phase_inv s' (threads s' t) old e"
proof -
  let ?l = "threads s t" and ?l' = "threads s' t"
  note keep = phase_inv_step [OF i st ph]
  show ?thesis
  proof (cases "pc ?l")
    case (Body p)
    have "old = Map.empty" if "pc ?l' = Success"
      using commit_empty [OF i st Body that] d Body by (simp add: cont_def)
    then show ?thesis
      using st Body by (cases p) (auto simp: tstep_def step_defs phase_inv_def Let_def split: if_splits)
  next
    case (Lock_Cas k y)
    have "found_at s' (ticket ?l') old" if "pc ?l' = Validate j" for j
      by (rule lock_cas_found [OF i st Lock_Cas that]) (use d f Lock_Cas in \<open>simp_all add: cont_def\<close>)
    then show ?thesis
      using st Lock_Cas by (auto simp: tstep_def step_defs phase_inv_def Let_def split: if_splits)
  next
    case (Validate j)
    have "replaces s' (ticket ?l) old" if "pc ?l' = Write k" for k
      by (rule decide_replaces [OF st Validate that]) (use d Validate in \<open>simp add: cont_def\<close>)
    then show ?thesis
      using st keep Validate by (auto simp: tstep_def step_defs phase_inv_def Let_def split: if_splits option.splits)
  qed (use st keep n in \<open>auto simp: tstep_def step_defs phase_inv_def Let_def split: if_splits list.splits prod.splits\<close>)
qed

lemma fresh_self:
  assumes i: "stm_inv s" and st: "tstep t s = Some s'" and a: "active_t (threads s t)" "active_t (threads s' t)"
    and f: "fresh s (threads s t) v x"
  shows "fresh s' (threads s' t) v x"
proof -
  have "tx (threads s' t) = tx (threads s t)" "snap (threads s' t) = snap (threads s t)"
    using tstep_transaction [OF st a(2)] a(1) by (auto simp: active_t_def)
  then show ?thesis using fresh_step [OF i st a(1) f] by (simp add: fresh_def)
qed

definition special_t :: "'r thread \<Rightarrow> bool" where
  "special_t l \<longleftrightarrow> (case pc l of
      Body p \<Rightarrow> (case p of P_Set v x q \<Rightarrow> True | _ \<Rightarrow> False) | Set_Slow v x p \<Rightarrow> True
    | Abort \<Rightarrow> True | Unwind \<Rightarrow> True | Success \<Rightarrow> True | Bump \<Rightarrow> True | _ \<Rightarrow> False)"

lemma callbacks_step_plain:
  "\<not> special_t (threads (base m) t) \<Longrightarrow> replaced (callbacks_step t m s') t = replaced m t"
  "\<not> special_t (threads (base m) t) \<Longrightarrow> to_load (callbacks_step t m s') t = to_load m t"
  "\<not> special_t (threads (base m) t) \<Longrightarrow> cur_storage (callbacks_step t m s') t = cur_storage m t"
  "\<not> special_t (threads (base m) t) \<Longrightarrow> sync_epoch_of (callbacks_step t m s') t = sync_epoch_of m t"
  by (auto simp: callbacks_step_def special_t_def Let_def split: pc.splits stm_prog.splits)

text \<open>What is left when nothing is registered.\<close>

lemma callbacks_none:
  assumes "to_load m t = None" and "cur_storage m t = None"
  shows "callbacks_inv m t \<longleftrightarrow>
    (cont (threads (base m) t) \<noteq> None \<or> committing_t (threads (base m) t) \<longrightarrow> dom (replaced m t) = set (dests (threads (base m) t)))
    \<and> (cont (threads (base m) t) \<noteq> None \<longrightarrow> (\<forall>v x. replaced m t v = Some x \<longrightarrow> fresh (base m) (threads (base m) t) v x))
    \<and> phase_inv (base m) (threads (base m) t) (replaced m t) (sync_epoch_of m t)"
  using assms by (simp add: callbacks_inv_def Let_def)

lemma callbacks_inv_plain:
  assumes i: "stm_inv (base m)" and st: "tstep t (base m) = Some s'" and l: "to_load m t = None"
    and c: "callbacks_inv m t" and n: "\<not> special_t (threads (base m) t)"
  shows "callbacks_inv (callbacks_step t m s') t"
proof -
  let ?l = "threads (base m) t" and ?l' = "threads s' t"
  have ns: "pc ?l \<noteq> Body (P_Set v x q)" "pc ?l \<noteq> Set_Slow v x q" "pc ?l \<noteq> Abort" "pc ?l \<noteq> Unwind" "pc ?l \<noteq> Success" "pc ?l \<noteq> Bump" for v x q
    using n by (auto simp: special_t_def)
  then have cur: "cur_storage m t = None"
    using c by (cases "cur_storage m t") (auto simp: callbacks_inv_def Let_def)
  note inv = c [unfolded callbacks_none [OF l cur]]
  have d: "dom (replaced m t) = set (dests ?l)" if "cont ?l \<noteq> None \<or> committing_t ?l" using inv that by blast
  have f: "fresh (base m) ?l v x" if "cont ?l \<noteq> None" "replaced m t v = Some x" for v x using inv that by blast
  have ph: "phase_inv s' ?l' (replaced m t) (sync_epoch_of m t)"
    by (rule phase_self [OF i st _ d f ns(3-6)]) (use inv in auto)
  have "dom (replaced m t) = set (dests ?l')" if "cont ?l' \<noteq> None \<or> committing_t ?l'"
    using tstep_dests [OF i st that ns(1,2)] d inv by (auto simp: phase_inv_def)
  moreover have "fresh s' ?l' v x" if "cont ?l' \<noteq> None" "replaced m t v = Some x" for v x
  proof -
    have "cont ?l \<noteq> None" using tstep_dests [OF i st _ ns(1,2)] that inv by (auto simp: phase_inv_def)
    then show ?thesis using fresh_self [OF i st cont_active cont_active] f that by blast
  qed
  ultimately show ?thesis
    using ph l cur by (simp add: callbacks_none callbacks_step_plain [OF n] callbacks_step_fields)
qed

lemma callbacks_inv_set:
  assumes i: "stm_inv (base m)" and st: "tstep t (base m) = Some s'" and l: "to_load m t = None"
    and c: "callbacks_inv m t" and p: "pc (threads (base m) t) = Body (P_Set v x q)"
  shows "callbacks_inv (callbacks_step t m s') t"
proof -
  let ?l = "threads (base m) t" and ?l' = "threads s' t" and ?m' = "callbacks_step t m s'"
  have cur: "cur_storage m t = None" using c p by (cases "cur_storage m t") (auto simp: callbacks_inv_def Let_def)
  have co: "cont ?l \<noteq> None" using p by (simp add: cont_def)
  have old: "dom (replaced m t) = set (dests ?l)" "replaced m t u = Some y \<Longrightarrow> fresh (base m) ?l u y" for u y
    using c [unfolded callbacks_none [OF l cur]] co by blast+
  have same: "replaced ?m' t = replaced m t" "cur_storage ?m' t = None" "base ?m' = s'"
      "to_load ?m' t = (case pc ?l' of Body q' \<Rightarrow> Some v | _ \<Rightarrow> None)"
    using cur l p by (auto simp: callbacks_step_def Let_def register_fast_def split: pc.splits)
  have "cont ?l' \<noteq> None" using tstep_set_fast [OF i st p] by (auto simp: cont_def)
  then have f: "fresh s' ?l' u y" if "replaced m t u = Some y" for u y
    using fresh_self [OF i st cont_active [OF co] cont_active] old(2) [OF that] by blast
  show ?thesis
    using tstep_set_fast [OF i st p] f old(1) same by (auto simp: callbacks_inv_def Let_def phase_inv_def)
qed

lemma callbacks_inv_set_slow:
  assumes i: "stm_inv (base m)" and st: "tstep t (base m) = Some s'" and l: "to_load m t = None" "loads_cur t m = None"
    and c: "callbacks_inv m t" and p: "pc (threads (base m) t) = Set_Slow v x q"
  shows "callbacks_inv (callbacks_step t m s') t"
proof -
  let ?l = "threads (base m) t" and ?l' = "threads s' t" and ?m' = "callbacks_step t m s'" and ?old = "replaced m t"
  have co: "cont ?l \<noteq> None" using p by (simp add: cont_def)
  have old: "dom ?old = set (dests ?l)" "?old u = Some y \<Longrightarrow> fresh (base m) ?l u y" for u y
    using c l(1) co by (auto simp: callbacks_inv_def Let_def)
  have cur: "v \<notin> set (dests ?l) \<and> fresh (base m) ?l v w" if "cur_storage m t = Some w" for w
    using c that p by (auto simp: callbacks_inv_def Let_def)
  have inv: "hs_inv (ws ?l)" using stm_invD(1) [OF i, of t] by (simp add: own_data_def)
  have seen: "v \<in> set (dests ?l)" if "cur_storage m t = None"
    using l(2) that p hs_lookup_success [OF inv, of v] by (auto simp: loads_cur_def Let_def split: if_splits)
  have same: "to_load ?m' t = None" "cur_storage ?m' t = None" "base ?m' = s'"
      "pc ?l' = Body q' \<Longrightarrow> replaced ?m' t = (case cur_storage m t of None \<Rightarrow> ?old | Some w \<Rightarrow> ?old(v \<mapsto> w))" for q'
    using l(1) p by (auto simp: callbacks_step_def Let_def register_slow_def split: pc.splits option.splits)
  from tstep_set_slow [OF i st p] show ?thesis
  proof
    assume b: "set (dests ?l') = insert v (set (dests ?l)) \<and> pc ?l' = Body q"
    then have "cont ?l' \<noteq> None" by (simp add: cont_def)
    then have f: "fresh (base m) ?l u y \<Longrightarrow> fresh s' ?l' u y" for u y
      using fresh_self [OF i st cont_active [OF co] cont_active] by blast
    have r: "replaced ?m' t = (case cur_storage m t of None \<Rightarrow> ?old | Some w \<Rightarrow> ?old(v \<mapsto> w))" using same(4) b by blast
    have "dom (replaced ?m' t) = set (dests ?l')"
      using b old(1) seen unfolding r by (cases "cur_storage m t") auto
    moreover have "fresh s' ?l' u y" if "replaced ?m' t u = Some y" for u y
      using that f old(2) cur unfolding r by (cases "cur_storage m t") (auto split: if_splits)
    ultimately show ?thesis
      using b same(1-3) by (simp add: callbacks_inv_def Let_def phase_inv_def)
  next
    assume "pc ?l' = Abort"
    then show ?thesis using same(1-3) by (simp add: callbacks_inv_def Let_def phase_inv_def cont_def committing_t_def)
  qed
qed

lemma tstep_ends:
  assumes "tstep t s = Some s'" and "pc (threads s t) = Abort \<or> pc (threads s t) = Unwind \<or> pc (threads s t) = Success"
  shows "pc (threads s' t) = Start \<or> pc (threads s' t) = Idle"
  using assms by (auto simp: tstep_def step_abort_def step_unwind_def step_success_def put_def Let_def)

lemma callbacks_inv_end:
  assumes st: "tstep t (base m) = Some s'" and l: "to_load m t = None" and c: "callbacks_inv m t"
    and p: "pc (threads (base m) t) = Abort \<or> pc (threads (base m) t) = Unwind \<or> pc (threads (base m) t) = Success"
  shows "callbacks_inv (callbacks_step t m s') t"
proof -
  have cur: "cur_storage m t = None" using c p by (cases "cur_storage m t") (auto simp: callbacks_inv_def Let_def)
  have "replaced (callbacks_step t m s') t = Map.empty" "to_load (callbacks_step t m s') t = None" "cur_storage (callbacks_step t m s') t = None"
    using p l cur by (auto simp: callbacks_step_def Let_def queue_chunk_def)
  then show ?thesis
    using tstep_ends [OF st p] by (auto simp: callbacks_none callbacks_step_fields phase_inv_def cont_def committing_t_def)
qed

lemma callbacks_inv_bump:
  assumes i: "stm_inv (base m)" and st: "tstep t (base m) = Some s'" and l: "to_load m t = None"
    and c: "callbacks_inv m t" and p: "pc (threads (base m) t) = Bump"
  shows "callbacks_inv (callbacks_step t m s') t"
proof -
  let ?l = "threads (base m) t" and ?m' = "callbacks_step t m s'"
  have cur: "cur_storage m t = None" using c p by (cases "cur_storage m t") (auto simp: callbacks_inv_def Let_def)
  have co: "committing_t ?l" using p by (simp add: committing_t_def)
  have old: "dom (replaced m t) = set (dests ?l)" "found_at (base m) (ticket ?l) (replaced m t)"
      "replaces (base m) (ticket ?l) (replaced m t)"
    using c [unfolded callbacks_none [OF l cur]] co p by (auto simp: phase_inv_def)
  note b = bump_chunk [OF i st p old(2,3) equalityD1 [OF old(1)]]
  have d: "dests (threads s' t) = dests ?l"
    using tstep_dests [OF i st, unfolded p] b by (auto simp: committing_t_def)
  have "replaced ?m' t = replaced m t" "sync_epoch_of ?m' t = clock (the_clock (base m))" "to_load ?m' t = None" "cur_storage ?m' t = None"
    using p l cur by (simp_all add: callbacks_step_def Let_def)
  then show ?thesis
    using b old(1) d by (simp add: callbacks_none callbacks_step_fields phase_inv_def cont_def)
qed

lemma callbacks_inv_self:
  assumes "stm_inv (base m)" and "tstep t (base m) = Some s'" and "to_load m t = None" "loads_cur t m = None" and "callbacks_inv m t"
  shows "callbacks_inv (callbacks_step t m s') t"
proof (cases "special_t (threads (base m) t)")
  case True
  then show ?thesis
    using callbacks_inv_set [OF assms(1-3,5)] callbacks_inv_set_slow [OF assms] callbacks_inv_end [OF assms(2,3,5)]
      callbacks_inv_bump [OF assms(1-3,5)]
    by (auto simp: special_t_def split: pc.splits stm_prog.splits)
qed (rule callbacks_inv_plain [OF assms(1-3,5)])

section \<open>All steps\<close>

lemma chunk_inv_cong: "base m' = base m \<Longrightarrow> sections m' = sections m \<Longrightarrow> chunk_inv m' c \<longleftrightarrow> chunk_inv m c"
  by (simp add: chunk_inv_def unread_since_def)

lemma chunk_quiet_cong: "base m' = base m \<Longrightarrow> sections m' = sections m \<Longrightarrow> chunk_quiet m' c u \<longleftrightarrow> chunk_quiet m c u"
  by (simp add: chunk_quiet_def)

lemma queued_chunk_inv:
  assumes i: "stm_inv (base m)" and st: "tstep t (base m) = Some s'" and p: "pc (threads (base m) t) = Success"
    and c: "callbacks_inv m t" and r: "replaced m t \<noteq> Map.empty"
  shows "chunk_inv (callbacks_step t m s') \<lparr> ch_epoch = sync_epoch_of m t, ch_replaced = replaced m t,
    ch_ticket = ticket (threads (base m) t), ch_entered = sections m \<rparr>"
proof -
  have "chunk_ok (base m) (sync_epoch_of m t) (replaced m t) (ticket (threads (base m) t))"
    using c r p by (simp add: callbacks_inv_def Let_def phase_inv_def)
  from chunk_ok_step [OF i st this] show ?thesis
    using p by (simp add: chunk_inv_def unread_since_def callbacks_step_fields Let_def)
qed

lemma reclaim_inv_tstep:
  assumes inv: "reclaim_inv m" and st: "tstep t (base m) = Some s'" and l: "to_load m t = None" "loads_cur t m = None"
  shows "reclaim_inv (callbacks_step t m s')"
proof -
  let ?m' = "callbacks_step t m s'"
  have i: "stm_inv (base m)" using inv by (simp add: reclaim_inv_def)
  have cb: "node_inv (base m) u" "callbacks_inv m u" for u using inv by (simp_all add: reclaim_inv_def)
  have ch: "c \<in> set (chunks m u) \<Longrightarrow> chunk_inv m c" and fr: "c \<in> set (freed m) \<Longrightarrow> chunk_inv m c \<and> (\<forall>v. chunk_quiet m c v)" for c u
    using inv by (auto simp: reclaim_inv_def)
  have "callbacks_inv ?m' u" for u
    using callbacks_inv_self [OF i st l cb(2)] callbacks_inv_other [OF i st _ cb(2)] by (cases "u = t") auto
  moreover have "node_inv s' u" for u by (rule node_inv_step [OF i st cb(1)])
  moreover have "chunk_inv ?m' c" if "c \<in> set (chunks ?m' u)" for c u
  proof (cases "c \<in> set (chunks m u)")
    case False
    then show ?thesis
      using that queued_chunk_inv [OF i st _ cb(2)]
      by (cases "u = t") (auto simp: callbacks_step_fields split: if_splits)
  qed (rule chunk_inv_step [OF i st ch])
  moreover have "chunk_inv ?m' c \<and> chunk_quiet ?m' c u" if "c \<in> set (freed m)" for c u
    using chunk_inv_step [OF i st] chunk_quiet_step [OF i st] fr [OF that] by blast
  ultimately show ?thesis
    using tstep_inv [OF i st] unfolding reclaim_inv_def callbacks_step_fields by blast
qed

text \<open>The loads.\<close>

lemma reclaim_inv_local:
  assumes inv: "reclaim_inv m" and "base m' = base m" "sections m' = sections m" "chunks m' = chunks m" "freed m' = freed m"
    and "callbacks_inv m' t" and "\<And>u. u \<noteq> t \<Longrightarrow> callbacks_inv m' u \<longleftrightarrow> callbacks_inv m u"
  shows "reclaim_inv m'"
proof -
  have "callbacks_inv m' u" for u using assms(6,7) inv by (cases "u = t") (auto simp: reclaim_inv_def)
  then show ?thesis
    using inv assms(2-5) chunk_inv_cong [OF assms(2,3)] chunk_quiet_cong [OF assms(2,3)] by (simp add: reclaim_inv_def)
qed

lemma loaded_fresh: "stm_inv s \<Longrightarrow> active_t (threads s t) \<Longrightarrow> fresh s (threads s t) v (storage_of s v)"
  by (rule storage_fresh [OF stm_inv_g stm_invD(2)])

lemma reclaim_inv_load_registered:
  assumes inv: "reclaim_inv m" and l: "to_load m t = Some v"
  shows "reclaim_inv (step_load_registered t v m)"
proof (rule reclaim_inv_local [OF inv, where t = t])
  have i: "stm_inv (base m)" and c: "callbacks_inv m t" using inv by (simp_all add: reclaim_inv_def)
  obtain q where q: "pc (threads (base m) t) = Body q" using c l by (auto simp: callbacks_inv_def Let_def)
  then have "fresh (base m) (threads (base m) t) v (storage_of (base m) v)"
    by (intro loaded_fresh [OF i]) (simp add: active_t_def)
  then show "callbacks_inv (step_load_registered t v m) t"
    using c l q by (auto simp: callbacks_inv_def step_load_registered_def Let_def phase_inv_def cont_def)
qed (simp_all add: step_load_registered_def callbacks_inv_def Let_def)

lemma reclaim_inv_load_cur:
  assumes inv: "reclaim_inv m" and l: "to_load m t = None" "loads_cur t m = Some v"
  shows "reclaim_inv (step_load_cur t v m)"
proof (rule reclaim_inv_local [OF inv, where t = t])
  have i: "stm_inv (base m)" and c: "callbacks_inv m t" using inv by (simp_all add: reclaim_inv_def)
  have w: "hs_inv (ws (threads (base m) t))" using stm_invD(1) [OF i, of t] by (simp add: own_data_def)
  obtain x p where p: "pc (threads (base m) t) = Set_Slow v x p" "v \<notin> set (dests (threads (base m) t))"
    using l(2) hs_lookup_success [OF w] by (auto simp: loads_cur_def Let_def split: pc.splits if_splits)
  then have "fresh (base m) (threads (base m) t) v (storage_of (base m) v)"
    by (intro loaded_fresh [OF i]) (simp add: active_t_def)
  then show "callbacks_inv (step_load_cur t v m) t"
    using c l(1) p by (auto simp: callbacks_inv_def step_load_cur_def Let_def)
qed (simp_all add: step_load_cur_def callbacks_inv_def Let_def)

lemma reclaim_inv_free: "reclaim_inv m \<Longrightarrow> mem_free_step t m m' \<Longrightarrow> reclaim_inv m'"
proof -
  assume inv: "reclaim_inv m" and "mem_free_step t m m'"
  then obtain c cs where c: "chunks m t = c # cs" "\<forall>u. chunk_quiet m c u"
    and m': "m' = m\<lparr> chunks := (chunks m)(t := cs), freed := c # freed m \<rparr>"
    by (auto simp: mem_free_step_def)
  have same: "base m' = base m" "sections m' = sections m" by (simp_all add: m')
  have "set (chunks m' u) \<subseteq> set (chunks m u)" for u using c(1) by (auto simp: m')
  then have "chunk_inv m' d" if "d \<in> set (chunks m' u)" for d u
    using that inv chunk_inv_cong [OF same] unfolding reclaim_inv_def by blast
  moreover have "chunk_inv m' d \<and> (\<forall>u. chunk_quiet m' d u)" if "d \<in> set (freed m')" for d
  proof (cases "d = c")
    case True
    have "c \<in> set (chunks m t)" using c(1) by simp
    then show ?thesis
      using True inv c(2) chunk_inv_cong [OF same] chunk_quiet_cong [OF same] by (auto simp: reclaim_inv_def)
  next
    case False
    then show ?thesis
      using that inv chunk_inv_cong [OF same] chunk_quiet_cong [OF same] by (auto simp: reclaim_inv_def m')
  qed
  moreover have "callbacks_inv m' u \<longleftrightarrow> callbacks_inv m u" for u by (simp add: callbacks_inv_def m')
  ultimately show "reclaim_inv m'" using inv same unfolding reclaim_inv_def by auto
qed

lemma reclaim_inv_start: "mem_start m \<Longrightarrow> reclaim_inv m"
proof -
  assume "mem_start m"
  then obtain s where s: "stm_start s" and m: "m = new_mem s" by (auto simp: mem_start_def)
  obtain js st where n: "s = new_sys js st" using s by (auto simp: stm_start_def)
  have "node_inv s t" "callbacks_inv m t" for t
    by (simp_all add: node_inv_def callbacks_inv_def phase_inv_def in_section_def m n new_mem_def new_sys_def new_thread_def
        new_thread_data_def td_epoch_def node_epoch_def new_node_def cont_def committing_t_def)
  then show ?thesis
    using stm_inv_start [OF s] by (simp add: reclaim_inv_def m new_mem_def)
qed

section \<open>Every commit queues one chunk\<close>

definition draws_t :: "'r thread \<Rightarrow> bool" where
  "draws_t l \<longleftrightarrow> committing_t l \<or> pending_t l"

definition own_tickets :: "'r mem_sys \<Rightarrow> nat \<Rightarrow> nat list" where
  "own_tickets m t = (if draws_t (threads (base m) t) \<and> replaced m t \<noteq> Map.empty then [ticket (threads (base m) t)] else [])
     @ map ch_ticket (chunks m t)"

definition freed_tickets :: "'r mem_sys \<Rightarrow> nat list" where
  "freed_tickets m = map ch_ticket (freed m)"

definition ticket_inv :: "'r mem_sys \<Rightarrow> bool" where
  "ticket_inv m \<longleftrightarrow> (\<forall>t. distinct (own_tickets m t @ freed_tickets m))
     \<and> (\<forall>t u. t \<noteq> u \<longrightarrow> set (own_tickets m t) \<inter> set (own_tickets m u) = {})
     \<and> (\<forall>t. \<forall>n \<in> set (own_tickets m t @ freed_tickets m). n < tickets (base m))"

lemma ticket_inv_move:
  assumes inv: "ticket_inv m" and fr: "freed m' = freed m" and le: "tickets (base m) \<le> tickets (base m')"
    and o: "\<And>u. u \<noteq> t \<Longrightarrow> own_tickets m' u = own_tickets m u" and d: "distinct (own_tickets m' t)"
    and n: "\<And>n. n \<in> set (own_tickets m' t) \<Longrightarrow> n \<in> set (own_tickets m t) \<or> n = tickets (base m) \<and> n < tickets (base m')"
  shows "ticket_inv m'"
proof -
  have old: "k < tickets (base m)" if "k \<in> set (own_tickets m u @ freed_tickets m)" for k u
    using inv that by (auto simp: ticket_inv_def)
  have F: "freed_tickets m' = freed_tickets m" by (simp add: freed_tickets_def fr)
  have df: "set (own_tickets m' t) \<inter> set (freed_tickets m) = {}"
    using n old inv unfolding ticket_inv_def distinct_append by fastforce
  have du: "set (own_tickets m' t) \<inter> set (own_tickets m u) = {}" if "u \<noteq> t" for u
    using n old [of _ u] inv that unfolding ticket_inv_def by fastforce
  have "distinct (own_tickets m' u @ freed_tickets m')" for u
    using inv d df o [of u] unfolding F ticket_inv_def by (cases "u = t") auto
  moreover have "set (own_tickets m' a) \<inter> set (own_tickets m' b) = {}" if "a \<noteq> b" for a b
    using that du [of a] du [of b] o [of a] o [of b] inv unfolding ticket_inv_def
    by (cases "a = t"; cases "b = t") (auto simp: Int_commute)
  moreover have "k < tickets (base m')" if "k \<in> set (own_tickets m' u @ freed_tickets m')" for k u
    using that n [of k] o [of u] old [of k u] le unfolding F by (cases "u = t") auto
  ultimately show ?thesis unfolding ticket_inv_def by blast
qed

lemma tstep_ticket:
  assumes i: "stm_inv s" and st: "tstep t s = Some s'" and d: "draws_t (threads s' t)"
  shows "draws_t (threads s t) \<and> ticket (threads s' t) = ticket (threads s t)
    \<or> ticket (threads s' t) = tickets s \<and> tickets s' = Suc (tickets s)
    \<or> dests (threads s' t) = [] \<and> committing_t (threads s' t)"
proof (cases "pc (threads s t)")
  case (Body p)
  have "pc (threads s' t) = Success"
    using st d Body by (cases p) (auto simp: tstep_def step_defs draws_t_def committing_t_def pending_t_def Let_def split: if_splits)
  then show ?thesis using commit_empty [OF i st Body] by (simp add: committing_t_def)
qed (use st d in \<open>auto simp: tstep_def step_defs draws_t_def committing_t_def pending_t_def Let_def
      split: if_splits option.splits list.splits prod.splits\<close>)

lemma own_tickets_step:
  assumes r: "reclaim_inv m" and st: "tstep t (base m) = Some s'" and c: "callbacks_inv (callbacks_step t m s') t"
    and l: "to_load m t = None" and d: "distinct (own_tickets m t @ freed_tickets m)"
    and lt: "\<forall>n \<in> set (own_tickets m t). n < tickets (base m)"
  shows "distinct (own_tickets (callbacks_step t m s') t)"
    and "n \<in> set (own_tickets (callbacks_step t m s') t) \<Longrightarrow> n \<in> set (own_tickets m t) \<or> n = tickets (base m) \<and> n < tickets s'"
proof -
  let ?l = "threads (base m) t" and ?l' = "threads s' t" and ?m' = "callbacks_step t m s'"
  define cs where "cs = map ch_ticket (chunks m t)"
  have i: "stm_inv (base m)" using r by (simp add: reclaim_inv_def)
  have "own_tickets ?m' t = cs \<or> own_tickets m t = ticket ?l # cs \<and> own_tickets ?m' t \<in> {ticket ?l # cs, cs @ [ticket ?l]}
      \<or> own_tickets ?m' t = tickets (base m) # cs \<and> tickets s' = Suc (tickets (base m))"
  proof (cases "pc ?l = Success")
    case True
    then have "\<not> draws_t ?l'" using tstep_ends [OF st] by (auto simp: draws_t_def committing_t_def pending_t_def)
    then show ?thesis
      using True by (auto simp: own_tickets_def cs_def callbacks_step_fields draws_t_def committing_t_def)
  next
    case False
    have dm: "dom (replaced ?m' t) \<subseteq> set (dests ?l')" if "committing_t ?l'"
      using c that by (auto simp: callbacks_inv_def Let_def callbacks_step_fields)
    have "replaced ?m' t = replaced m t" if dr: "draws_t ?l'"
    proof (cases "special_t ?l")
      case True
      have "pc ?l = Bump"
        using True False dr tstep_set_fast [OF i st] tstep_set_slow [OF i st] tstep_ends [OF st]
        by (cases "pc ?l") (auto simp: special_t_def draws_t_def committing_t_def pending_t_def split: stm_prog.splits)
      then show ?thesis by (simp add: callbacks_step_def Let_def)
    qed (rule callbacks_step_plain)
    then show ?thesis
      using False tstep_ticket [OF i st] dm by (auto simp: own_tickets_def cs_def callbacks_step_fields)
  qed
  moreover have "distinct cs" "set cs \<subseteq> set (own_tickets m t)" using d by (auto simp: own_tickets_def cs_def)
  moreover have "tickets (base m) \<notin> set (own_tickets m t)" "distinct (own_tickets m t)" using d lt by auto
  ultimately show "distinct (own_tickets ?m' t)"
    and "n \<in> set (own_tickets ?m' t) \<Longrightarrow> n \<in> set (own_tickets m t) \<or> n = tickets (base m) \<and> n < tickets s'"
    by auto
qed

lemma own_tickets_other:
  assumes "stm_inv (base m)" and "tstep t (base m) = Some s'" and "u \<noteq> t"
  shows "own_tickets (callbacks_step t m s') u = own_tickets m u"
  using env_threads [OF tstep_env [OF assms(1,2)] assms(3)] assms(3) by (simp add: own_tickets_def callbacks_step_fields)

lemma ticket_inv_tstep:
  assumes r: "reclaim_inv m" and t: "ticket_inv m" and st: "tstep t (base m) = Some s'" and l: "to_load m t = None" "loads_cur t m = None"
  shows "ticket_inv (callbacks_step t m s')"
proof -
  have i: "stm_inv (base m)" using r by (simp add: reclaim_inv_def)
  have c: "callbacks_inv (callbacks_step t m s') t" using reclaim_inv_tstep [OF r st l] by (simp add: reclaim_inv_def)
  have "distinct (own_tickets m t @ freed_tickets m)" "\<forall>n \<in> set (own_tickets m t). n < tickets (base m)"
    using t unfolding ticket_inv_def by auto
  note own = own_tickets_step [OF r st c l(1) this]
  show ?thesis
    by (rule ticket_inv_move [OF t, where t = t])
      (use own env_tickets [OF tstep_env [OF i st]] own_tickets_other [OF i st] in \<open>auto simp: callbacks_step_fields\<close>)
qed

text \<open>A load registers a callback only while the program runs, so before the ticket is drawn.\<close>

lemma ticket_inv_load:
  assumes r: "reclaim_inv m" and t: "ticket_inv m"
  shows "to_load m t = Some v \<Longrightarrow> ticket_inv (step_load_registered t v m)"
    and "ticket_inv (step_load_cur t v m)"
proof -
  assume l: "to_load m t = Some v"
  have "callbacks_inv m t" using r by (simp add: reclaim_inv_def)
  then have "\<not> draws_t (threads (base m) t)"
    using l by (auto simp: callbacks_inv_def Let_def draws_t_def committing_t_def pending_t_def)
  then have o: "own_tickets (step_load_registered t v m) u = own_tickets m u" for u
    by (cases "u = t") (auto simp: own_tickets_def step_load_registered_def)
  show "ticket_inv (step_load_registered t v m)"
    using t unfolding ticket_inv_def o by (simp add: freed_tickets_def step_load_registered_def)
next
  show "ticket_inv (step_load_cur t v m)"
    using t by (simp add: ticket_inv_def own_tickets_def freed_tickets_def step_load_cur_def)
qed

lemma ticket_inv_free:
  assumes t: "ticket_inv m" and "mem_free_step t m m'"
  shows "ticket_inv m'"
proof -
  obtain c cs where c: "chunks m t = c # cs" and m': "m' = m\<lparr> chunks := (chunks m)(t := cs), freed := c # freed m \<rparr>"
    using assms(2) by (auto simp: mem_free_step_def)
  obtain a where a: "own_tickets m t = a @ ch_ticket c # map ch_ticket cs" "own_tickets m' t = a @ map ch_ticket cs"
    by (auto simp: own_tickets_def c m')
  have o: "own_tickets m' u = own_tickets m u" if "u \<noteq> t" for u using that by (simp add: own_tickets_def m')
  have f: "freed_tickets m' = ch_ticket c # freed_tickets m" "base m' = base m" by (simp_all add: freed_tickets_def m')
  have sub: "set (own_tickets m' u) \<subseteq> set (own_tickets m u)" for u using a o by (cases "u = t") auto
  have "distinct (own_tickets m' u @ freed_tickets m')" for u
  proof (cases "u = t")
    case True
    have "distinct (own_tickets m t @ freed_tickets m)" using t by (simp add: ticket_inv_def)
    then show ?thesis by (auto simp: True a f)
  next
    case False
    have "distinct (own_tickets m u @ freed_tickets m)" "set (own_tickets m u) \<inter> set (own_tickets m t) = {}"
      "distinct (own_tickets m t @ freed_tickets m)"
      using t False by (simp_all add: ticket_inv_def)
    then show ?thesis by (auto simp: o [OF False] f a)
  qed
  moreover have "set (own_tickets m' x) \<inter> set (own_tickets m' y) = {}" if "x \<noteq> y" for x y
    using t sub [of x] sub [of y] that unfolding ticket_inv_def by blast
  moreover have "n < tickets (base m')" if "n \<in> set (own_tickets m' u @ freed_tickets m')" for n u
  proof -
    have "n \<in> set (own_tickets m u @ freed_tickets m) \<or> n \<in> set (own_tickets m t @ freed_tickets m)"
      using that sub [of u] by (auto simp: f a(1))
    then show ?thesis using t f(2) by (auto simp: ticket_inv_def)
  qed
  ultimately show ?thesis unfolding ticket_inv_def by blast
qed

section \<open>The chunks of a thread are queued in the order of their epochs\<close>

definition published_t :: "'r thread \<Rightarrow> bool" where
  "published_t l \<longleftrightarrow> (case pc l of Publish i x \<Rightarrow> True | Success \<Rightarrow> True | _ \<Rightarrow> False)"

definition epochs_inv :: "'r mem_sys \<Rightarrow> nat \<Rightarrow> bool" where
  "epochs_inv m t \<longleftrightarrow> sorted_wrt (<) (map ch_epoch (chunks m t))
     \<and> (published_t (threads (base m) t) \<and> replaced m t \<noteq> Map.empty \<longrightarrow> (\<forall>c \<in> set (chunks m t). ch_epoch c < sync_epoch_of m t))"

lemma tstep_published:
  assumes i: "stm_inv s" and st: "tstep t s = Some s'" and p: "published_t (threads s' t)"
  shows "pc (threads s t) = Bump \<or> (\<exists>i x. pc (threads s t) = Publish i x) \<or> dests (threads s' t) = [] \<and> committing_t (threads s' t)"
proof (cases "pc (threads s t)")
  case (Body p)
  have "pc (threads s' t) = Success"
    using st assms(3) Body by (cases p) (auto simp: tstep_def step_defs published_t_def Let_def split: if_splits)
  then show ?thesis using commit_empty [OF i st Body] by (simp add: committing_t_def)
qed (use st p in \<open>auto simp: tstep_def step_defs published_t_def Let_def split: if_splits option.splits list.splits prod.splits\<close>)

lemma epochs_inv_self:
  assumes r: "reclaim_inv m" and e: "epochs_inv m t" and st: "tstep t (base m) = Some s'" and l: "to_load m t = None" "loads_cur t m = None"
  shows "epochs_inv (callbacks_step t m s') t"
proof -
  let ?l = "threads (base m) t" and ?l' = "threads s' t" and ?m' = "callbacks_step t m s'"
  have i: "stm_inv (base m)" using r by (simp add: reclaim_inv_def)
  have c: "callbacks_inv ?m' t" using reclaim_inv_tstep [OF r st l] by (simp add: reclaim_inv_def)
  have old: "ch_epoch c < clock (the_clock (base m))" if "c \<in> set (chunks m t)" for c
    using r that by (auto simp: reclaim_inv_def chunk_inv_def chunk_ok_def)
  show ?thesis
  proof (cases "pc ?l = Success")
    case True
    then have "\<not> published_t ?l'" using tstep_ends [OF st] by (auto simp: published_t_def)
    then show ?thesis
      using True e by (auto simp: epochs_inv_def callbacks_step_fields published_t_def sorted_wrt_append)
  next
    case False
    then have same: "chunks ?m' t = chunks m t" by (simp add: callbacks_step_fields)
    have "ch_epoch c < sync_epoch_of ?m' t"
      if p: "published_t ?l'" and d: "replaced ?m' t \<noteq> Map.empty" and ch: "c \<in> set (chunks m t)" for c
    proof -
      have "dests ?l' = [] \<and> committing_t ?l' \<Longrightarrow> replaced ?m' t = Map.empty"
        using c by (auto simp: callbacks_inv_def Let_def callbacks_step_fields)
      then consider "pc ?l = Bump" | k x where "pc ?l = Publish k x"
        using tstep_published [OF i st p] d by blast
      then show ?thesis
      proof cases
        case 1
        then show ?thesis using old [OF ch] by (simp add: callbacks_step_def Let_def)
      next
        case 2
        then have "\<not> special_t ?l" by (simp add: special_t_def)
        then show ?thesis using 2 e d ch by (auto simp: callbacks_step_plain epochs_inv_def published_t_def)
      qed
    qed
    then show ?thesis using e same by (simp add: epochs_inv_def callbacks_step_fields)
  qed
qed

lemma epochs_inv_tstep:
  assumes r: "reclaim_inv m" and e: "\<forall>u. epochs_inv m u" and st: "tstep t (base m) = Some s'" and l: "to_load m t = None" "loads_cur t m = None"
  shows "epochs_inv (callbacks_step t m s') u"
proof (cases "u = t")
  case True
  then show ?thesis using epochs_inv_self [OF r _ st l] e by blast
next
  case False
  have "stm_inv (base m)" using r by (simp add: reclaim_inv_def)
  then show ?thesis
    using e env_threads [OF tstep_env [OF _ st] False] False by (simp add: epochs_inv_def callbacks_step_fields)
qed

lemma epochs_inv_load:
  assumes r: "reclaim_inv m" and e: "epochs_inv m u"
  shows "to_load m t = Some v \<Longrightarrow> epochs_inv (step_load_registered t v m) u" and "epochs_inv (step_load_cur t v m) u"
proof -
  assume l: "to_load m t = Some v"
  have "callbacks_inv m t" using r by (simp add: reclaim_inv_def)
  then have "\<not> published_t (threads (base m) t)" using l by (auto simp: callbacks_inv_def Let_def published_t_def)
  then show "epochs_inv (step_load_registered t v m) u"
    using e by (cases "u = t") (simp_all add: epochs_inv_def step_load_registered_def)
next
  show "epochs_inv (step_load_cur t v m) u" using e by (simp add: epochs_inv_def step_load_cur_def)
qed

lemma epochs_inv_free: "epochs_inv m u \<Longrightarrow> mem_free_step t m m' \<Longrightarrow> epochs_inv m' u"
  by (cases "u = t") (auto simp: epochs_inv_def mem_free_step_def)

section \<open>The whole invariant\<close>

definition memory_inv :: "'r mem_sys \<Rightarrow> bool" where
  "memory_inv m \<longleftrightarrow> reclaim_inv m \<and> ticket_inv m \<and> (\<forall>t. epochs_inv m t)"

lemma memory_inv_start: "mem_start m \<Longrightarrow> memory_inv m"
  using reclaim_inv_start
  by (auto simp: memory_inv_def mem_start_def new_mem_def ticket_inv_def own_tickets_def freed_tickets_def draws_t_def committing_t_def
      pending_t_def stm_start_def new_sys_def new_thread_def epochs_inv_def)

lemma memory_inv_tstep:
  assumes "memory_inv m" and "mem_tstep t m = Some m'"
  shows "memory_inv m'"
proof (cases "to_load m t")
  case (Some v)
  then show ?thesis
    using assms reclaim_inv_load_registered [of m t v] ticket_inv_load(1) [of m t v] epochs_inv_load(1) [of m] by (auto simp: mem_tstep_def memory_inv_def)
next
  case n: None
  show ?thesis
  proof (cases "loads_cur t m")
    case (Some v)
    then show ?thesis
      using assms n reclaim_inv_load_cur [of m t v] ticket_inv_load(2) [of m t v] epochs_inv_load(2) [of m] by (auto simp: mem_tstep_def memory_inv_def)
  next
    case None
    then obtain s' where "tstep t (base m) = Some s'" "m' = callbacks_step t m s'"
      using assms(2) n by (auto simp: mem_tstep_def)
    then show ?thesis using assms(1) reclaim_inv_tstep [OF _ _ n None] ticket_inv_tstep [OF _ _ _ n None] epochs_inv_tstep [OF _ _ _ n None]
      by (auto simp: memory_inv_def)
  qed
qed

lemma memory_inv_free: "memory_inv m \<Longrightarrow> mem_free_step t m m' \<Longrightarrow> memory_inv m'"
  using reclaim_inv_free ticket_inv_free epochs_inv_free by (fastforce simp: memory_inv_def)

interpretation mem: invariant_system mem_start mem_step memory_inv
  by unfold_locales (auto simp: mem_step_def intro: memory_inv_start memory_inv_tstep memory_inv_free)

end
