(* ===== verification/Stm_Reclaim_Props.thy ===== *)
theory Stm_Reclaim_Props imports Stm_Reclaim_Inv begin

text \<open>
  Reclamation of the objects of heap variables: a run of three threads, and what the invariant of
  \<^verbatim>\<open>Stm_Reclaim_Inv\<close> says about the objects that have been freed.
\<close>

section \<open>Objects\<close>

text \<open>The word of a heap variable stands for an object: a fresh one has a word the variable has not held before.\<close>

definition new_objects :: "(nat \<Rightarrow> 'r log_entry option) \<Rightarrow> store \<Rightarrow> var_ref \<Rightarrow> bool" where
  "new_objects L st v \<longleftrightarrow> (\<forall>n e x. L n = Some e \<and> e_writes e v = Some x \<longrightarrow> (\<forall>k \<le> n. sigma L st k v \<noteq> x))"

lemma replaced_for_good:
  assumes "new_objects L st v" and "writes L a v" and "a < b"
  shows "sigma L st b v \<noteq> sigma L st a v"
  using assms(3)
proof (induction b)
  case (Suc b)
  show ?case
  proof (cases "writes L b v")
    case True
    then obtain e x where e: "L b = Some e" "e_writes e v = Some x" by (auto simp: writes_def)
    then have "sigma L st a v \<noteq> x" using assms(1) Suc.prems unfolding new_objects_def by (metis less_Suc_eq_le)
    then show ?thesis using e by simp
  next
    case False
    then have "a < b" using assms(2) Suc.prems by (metis less_antisym)
    then show ?thesis using Suc.IH sigma_step [OF False] by metis
  qed
qed simp

text \<open>The same for a set of heap variables together: no two of them hold the same object, and a new object is one that
  none of them has held.\<close>

definition fresh_objects :: "(nat \<Rightarrow> 'r log_entry option) \<Rightarrow> store \<Rightarrow> var_ref set \<Rightarrow> bool" where
  "fresh_objects L st H \<longleftrightarrow> inj_on st H
     \<and> (\<forall>n e. L n = Some e \<longrightarrow> dom (e_writes e) \<subseteq> H \<and> inj_on (e_writes e) (dom (e_writes e)))
     \<and> (\<forall>n e v x. L n = Some e \<and> e_writes e v = Some x \<longrightarrow> (\<forall>k \<le> n. \<forall>u \<in> H. sigma L st k u \<noteq> x))"

lemma fresh_objectsD:
  assumes "fresh_objects L st H" and "L n = Some e" and "e_writes e v = Some x"
  shows "v \<in> H" "k \<le> n \<Longrightarrow> u \<in> H \<Longrightarrow> sigma L st k u \<noteq> x" "e_writes e u = Some x \<Longrightarrow> u = v"
  using assms unfolding fresh_objects_def inj_on_def by (blast, blast, metis domI)

lemma objects_apart:
  assumes "fresh_objects L st H"
  shows "inj_on (sigma L st k) H"
proof (induction k)
  case 0
  then show ?case using assms by (simp add: fresh_objects_def)
next
  case (Suc k)
  show ?case
  proof (cases "L k")
    case (Some e)
    have new: "e_writes e v = Some x \<Longrightarrow> u \<in> H \<Longrightarrow> sigma L st k u \<noteq> x" for u v x
      using fresh_objectsD(2) [OF assms Some] by blast
    have own: "e_writes e v = Some x \<Longrightarrow> e_writes e u = Some x \<Longrightarrow> u = v" for u v x
      using fresh_objectsD(3) [OF assms Some] by blast
    have val: "sigma L st (Suc k) u = (case e_writes e u of None \<Rightarrow> sigma L st k u | Some x \<Rightarrow> x)" for u
      by (simp add: Some overlay_def split: option.split)
    show ?thesis
    proof (rule inj_onI)
      fix u v assume uv: "u \<in> H" "v \<in> H" and eq: "sigma L st (Suc k) u = sigma L st (Suc k) v"
      show "u = v"
      proof (cases "e_writes e u")
        case None
        then show ?thesis using eq new [of v _ u] uv inj_onD [OF Suc _ uv] unfolding val by (cases "e_writes e v") simp_all
      next
        case (Some x)
        then show ?thesis using eq new [OF Some uv(2)] own [of v x u] unfolding val by (cases "e_writes e v") simp_all
      qed
    qed
  qed (use Suc in simp)
qed

lemma replaced_object_gone:
  assumes f: "fresh_objects L st H" and w: "L a = Some e" "e_writes e v = Some y" and u: "u \<in> H" and "a < b"
  shows "sigma L st b u \<noteq> sigma L st a v"
  using \<open>a < b\<close>
proof (induction b)
  case (Suc b)
  have v: "v \<in> H" by (rule fresh_objectsD(1) [OF f w])
  show ?case
  proof (cases "L b")
    case None
    then have "a \<noteq> b" using w(1) by auto
    then show ?thesis using Suc None by simp
  next
    case (Some d)
    show ?thesis
    proof (cases "e_writes d u")
      case None
      show ?thesis
      proof (cases "a = b")
        case True
        then have "u \<noteq> v" using w Some None by auto
        then show ?thesis using inj_onD [OF objects_apart [OF f, of a] _ u v] Some None True by (auto simp: overlay_def)
      qed (use Suc Some None in \<open>simp add: overlay_def\<close>)
    next
      case (Some x)
      then show ?thesis
        using fresh_objectsD(2) [OF f \<open>L b = Some d\<close> Some, of a v] v Suc.prems \<open>L b = Some d\<close> by (auto simp: overlay_def)
    qed
  qed
qed simp

lemma replaces_writes: "replaces s n old \<Longrightarrow> writes (log s) n v \<longleftrightarrow> v \<in> dom old"
  by (metis (mono_tags, lifting) domIff option.inject replaces_def writes_def)

lemma freed_chunk:
  assumes "reachable mem_start mem_step m" and "c \<in> set (freed m)"
  shows "chunk_inv m c" "chunk_quiet m c u" "chunk_ok (base m) (ch_epoch c) (ch_replaced c) (ch_ticket c)"
  using mem.reachable_inv [OF assms(1)] assms(2) by (auto simp: memory_inv_def reclaim_inv_def chunk_inv_def)

lemma freed_before:
  assumes r: "reachable mem_start mem_step m" and c: "c \<in> set (freed m)" and t: "in_section (threads (base m) t)"
    and v: "seen (threads (base m) t) v \<noteq> None" "v \<in> dom (ch_replaced c)"
  shows "ch_ticket c < start (threads (base m) t)"
proof -
  let ?l = "threads (base m) t"
  note f = freed_chunk [OF r c]
  have n: "td_epoch (td ?l) = rv ?l" using mem.reachable_inv [OF r] t by (simp add: memory_inv_def reclaim_inv_def node_inv_def)
  have u: "unread_since m c t" using f(1) by (simp add: chunk_inv_def)
  have "\<not> rv ?l \<le> ch_epoch c"
  proof
    assume le: "rv ?l \<le> ch_epoch c"
    then have "ch_entered c t < sections m t" using f(2) [of t] n by (simp add: chunk_quiet_def)
    then show False using u t le v by (simp add: unread_since_def Let_def)
  qed
  then show ?thesis using f(3) in_section_active [OF t] by (simp add: chunk_ok_def)
qed

section \<open>A run\<close>

primrec mem_schedule :: "nat list \<Rightarrow> 'r mem_sys \<Rightarrow> 'r mem_sys" where
  "mem_schedule [] m = m"
| "mem_schedule (t # ts) m = mem_schedule ts (case mem_tstep t m of None \<Rightarrow> m | Some m' \<Rightarrow> m')"

lemma mem_schedule_reachable:
  "reachable mem_start mem_step m \<Longrightarrow> reachable mem_start mem_step (mem_schedule ts m)"
proof (induction ts arbitrary: m)
  case (Cons t ts)
  show ?case
  proof (cases "mem_tstep t m")
    case None
    then show ?thesis using Cons by simp
  next
    case (Some m')
    then have "mem_step m m'" by (auto simp: mem_step_def)
    then show ?thesis using Cons Some reach_step by fastforce
  qed
qed simp

text \<open>Thread 0 replaces the object 5 by 9, thread 2 replaces 9 by 11; then thread 1 reads, and 5 and 9 are freed.\<close>

definition mem_demo :: "var_storage mem_sys" where
  "mem_demo = mem_schedule ([0, 0, 0, 0, 0, 0, 0, 0, 0, 0, 0, 0, 0] @ [2, 2, 2, 2, 2, 2, 2, 2, 2, 2, 2, 2, 2] @ [1, 1, 1, 1, 1])
     (new_mem (new_sys (\<lambda>t. if t = 0 then [(Read_write, setter)] else if t = 1 then [(Read_only, getter)]
        else if t = 2 then [(Read_write, P_Set 16 11 (P_Return 8))] else []) (\<lambda>_. 5)))"

definition freed_demo :: "var_storage mem_sys" where
  "freed_demo = run_chunk 2 (run_chunk 0 mem_demo)"

lemmas mem_run_defs = run_defs new_mem_def mem_tstep_def loads_cur_def step_load_registered_def callbacks_step_def
  register_fast_def queue_chunk_def

text \<open>The run is evaluated once.\<close>

lemma mem_demo_run:
  "let m = mem_demo in
    chunks m 0 = [\<lparr> ch_epoch = 0, ch_replaced = [16 \<mapsto> 5], ch_ticket = 1, ch_entered = (\<lambda>_. 0)(0 := 1) \<rparr>]
    \<and> chunks m 2 = [\<lparr> ch_epoch = 1, ch_replaced = [16 \<mapsto> 9], ch_ticket = 3, ch_entered = (\<lambda>_. 0)(0 := 1, 2 := 1) \<rparr>]
    \<and> seen (threads (base m) 1) = [16 \<mapsto> 11] \<and> pc (threads (base m) 1) = Body (P_Return 11)
    \<and> pc (threads (base m) 0) = Idle \<and> pc (threads (base m) 2) = Idle \<and> freed m = [] \<and> initial (base m) = (\<lambda>_. 5)
    \<and> (\<forall>u. td_epoch (td (threads (base m) u)) = (if u = 1 then 2 else off_state))
    \<and> log (base m) = [1 \<mapsto> \<lparr> e_func = setter, e_result = 7, e_seen = Map.empty, e_writes = [16 \<mapsto> 9], e_start = 0, e_end = 2 \<rparr>,
         3 \<mapsto> \<lparr> e_func = P_Set 16 11 (P_Return 8), e_result = 8, e_seen = Map.empty, e_writes = [16 \<mapsto> 11], e_start = 2, e_end = 4 \<rparr>]"
  by (simp add: mem_demo_def mem_run_defs td_epoch_def node_epoch_def access_lock_def td_access_unlock_def access_unlock_def
      clear_read_write_sets_def new_node_def) (simp add: eval_nat_numeral)

lemmas mem_demo_state = mem_demo_run [unfolded Let_def]

lemma freed_demo_reachable: "reachable mem_start mem_step freed_demo"
proof -
  let ?m1 = "run_chunk 0 mem_demo"
  have le: "\<not> (2 :: epoch_t) \<le> 1" "\<not> off_state \<le> 1" "\<not> off_state \<le> 0" by code_simp+
  have "mem_start (new_mem (new_sys (\<lambda>t. if t = 0 then [(Read_write, setter)] else if t = 1 then [(Read_only, getter)]
        else if t = 2 then [(Read_write, P_Set 16 11 (P_Return 8))] else []) (\<lambda>_. 5)))"
    unfolding mem_start_def stm_start_def by (intro exI conjI) (auto simp: good_jobs_def)
  then have "reachable mem_start mem_step mem_demo"
    unfolding mem_demo_def by (intro mem_schedule_reachable reach_start)
  moreover have "chunk_quiet mem_demo (hd (chunks mem_demo 0)) u" for u
    using mem_demo_state le by (simp add: chunk_quiet_def)
  then have "mem_step mem_demo ?m1" using mem_demo_state by (intro run_chunk_step) simp_all
  moreover have "chunk_quiet ?m1 (hd (chunks ?m1 2)) u" for u
    using mem_demo_state le by (simp add: chunk_quiet_def run_chunk_def)
  then have "mem_step ?m1 freed_demo"
    unfolding freed_demo_def using mem_demo_state by (intro run_chunk_step) (simp_all add: run_chunk_def)
  ultimately show ?thesis using reach_step by metis
qed

lemma freed_demo_state:
  "freed freed_demo = [\<lparr> ch_epoch = 1, ch_replaced = [16 \<mapsto> 9], ch_ticket = 3, ch_entered = (\<lambda>_. 0)(0 := 1, 2 := 1) \<rparr>,
     \<lparr> ch_epoch = 0, ch_replaced = [16 \<mapsto> 5], ch_ticket = 1, ch_entered = (\<lambda>_. 0)(0 := 1) \<rparr>]"
  "base freed_demo = base mem_demo"
  using mem_demo_state by (simp_all add: freed_demo_def run_chunk_def)

lemma freed_demo_new_objects: "new_objects (log (base freed_demo)) (initial (base freed_demo)) 16"
proof -
  let ?s = "\<lambda>k. sig (base mem_demo) k 16"
  have w: "(5 :: var_storage) \<noteq> 9" "(5 :: var_storage) \<noteq> 11" "(9 :: var_storage) \<noteq> 11" by simp_all
  have v: "?s 0 = 5" "?s (Suc 0) = 5" "?s (Suc (Suc 0)) = 9" "?s (Suc (Suc (Suc 0))) = 9"
    using mem_demo_state by simp_all
  have "?s k \<noteq> 9" if "k \<le> Suc 0" for k
    using that v w(1) by (auto simp only: le_Suc_eq le_zero_eq)
  moreover have "?s k \<noteq> 11" if "k \<le> 3" for k
    using that v w(2,3) by (auto simp only: numeral_3_eq_3 le_Suc_eq le_zero_eq)
  ultimately show ?thesis
    using mem_demo_state unfolding new_objects_def freed_demo_state(2) by (auto split: if_splits)
qed

lemma freed_demo_fresh_objects: "fresh_objects (log (base freed_demo)) (initial (base freed_demo)) {16}"
  unfolding fresh_objects_def
proof (intro conjI allI impI)
  have only: "dom (e_writes e) = {16}" if "log (base freed_demo) n = Some e" for n e
    using that mem_demo_state unfolding freed_demo_state(2) by (auto split: if_splits)
  show "inj_on (initial (base freed_demo)) {16}" by simp
  show "dom (e_writes e) \<subseteq> {16}" "inj_on (e_writes e) (dom (e_writes e))" if "log (base freed_demo) n = Some e" for n e
    using only [OF that] by simp_all
  show "\<forall>u \<in> {16}. sigma (log (base freed_demo)) (initial (base freed_demo)) k u \<noteq> x"
    if w: "log (base freed_demo) n = Some e \<and> e_writes e v = Some x" and k: "k \<le> n" for n e v x k
  proof -
    have "v = 16" using only w by blast
    then show ?thesis using freed_demo_new_objects w k unfolding new_objects_def by blast
  qed
qed

section \<open>Properties\<close>

text \<open>C6: Reclamation is safe for the readers: once the callbacks of a commit have run, a transaction in its critical
  section that has read one of the variables concerned began after the commit in the serial order, and what
  it has read is not the object that has been freed. So no reference a transaction holds dangles.\<close>

theorem freed_objects_unread:
  assumes "reachable mem_start mem_step m" and "c \<in> set (freed m)" and "ch_replaced c v = Some w"
    and "in_section (threads (base m) t)" and "seen (threads (base m) t) v = Some x"
    and "new_objects (log (base m)) (initial (base m)) v"
  shows "ch_ticket c < start (threads (base m) t) \<and> x \<noteq> w"
proof -
  have lt: "ch_ticket c < start (threads (base m) t)"
    by (rule freed_before [OF assms(1,2,4)]) (use assms(3,5) in auto)
  have ok: "chunk_ok (base m) (ch_epoch c) (ch_replaced c) (ch_ticket c)" by (rule freed_chunk(3) [OF assms(1,2)])
  have "snap_inv (base m) (threads (base m) t)"
    using mem.reachable_inv [OF assms(1)] in_section_active [OF assms(4)]
    by (simp add: memory_inv_def reclaim_inv_def stm_inv_def tinv_def)
  then have x: "sig (base m) (start (threads (base m) t)) v = x" using assms(5) by (simp add: snap_inv_def)
  have w: "sig (base m) (ch_ticket c) v = w" "writes (log (base m)) (ch_ticket c) v"
    using chunk_okD(4,5) [OF ok] assms(3) replaces_writes by blast+
  show ?thesis using replaced_for_good [OF assms(6) w(2) lt] x w(1) lt by simp
qed

theorem freed_objects_unread_witness:
  "(3::nat) < start (threads (base freed_demo) 1) \<and> (11::var_storage) \<noteq> 9"
proof -
  have c: "hd (freed freed_demo) \<in> set (freed freed_demo)" "ch_replaced (hd (freed freed_demo)) 16 = Some 9"
    "ch_ticket (hd (freed freed_demo)) = 3" by (simp_all add: freed_demo_state)
  have t: "in_section (threads (base freed_demo) 1)" "seen (threads (base freed_demo) 1) 16 = Some 11"
    using mem_demo_state by (simp_all add: freed_demo_state in_section_def)
  show ?thesis by (rule freed_objects_unread [OF freed_demo_reachable c(1,2) t freed_demo_new_objects, unfolded c(3)])
qed

text \<open>C7: Nothing is lost and nothing is freed twice: the callbacks of a chunk that has run are for exactly the variables
  its commit has written and free the objects these held before it, and no two chunks are of the same commit.
  When heap variables do not share objects, which is what makes them owners of their objects, no object is freed by two
  callbacks, of one chunk or of two, and no variable holds a freed object from its commit on.\<close>

theorem freed_objects_exact:
  assumes "reachable mem_start mem_step m" and "i < length (freed m)"
  shows "\<exists>e. log (base m) (ch_ticket (freed m ! i)) = Some e
    \<and> ch_replaced (freed m ! i) = (\<lambda>v. if e_writes e v = None then None
          else Some (sigma (log (base m)) (initial (base m)) (ch_ticket (freed m ! i)) v))
    \<and> distinct (map ch_ticket (freed m))
    \<and> (fresh_objects (log (base m)) (initial (base m)) H \<longrightarrow>
        (\<forall>v x. ch_replaced (freed m ! i) v = Some x \<longrightarrow>
           (\<forall>j < length (freed m). \<forall>u. ch_replaced (freed m ! j) u = Some x \<longrightarrow> j = i \<and> u = v)
           \<and> (\<forall>u \<in> H. \<forall>k > ch_ticket (freed m ! i). sigma (log (base m)) (initial (base m)) k u \<noteq> x)))"
proof -
  have exact: "\<exists>e. log (base m) (ch_ticket c) = Some e \<and> ch_replaced c = (\<lambda>v. if e_writes e v = None then None else Some (sig (base m) (ch_ticket c) v))"
    if "c \<in> set (freed m)" for c
  proof -
    note ok = chunk_okD(4,5) [OF freed_chunk(3) [OF assms(1) that]]
    obtain e where e: "log (base m) (ch_ticket c) = Some e" "dom (e_writes e) = dom (ch_replaced c)" using ok(1) by (auto simp: replaces_def)
    have "ch_replaced c v = (if e_writes e v = None then None else Some (sig (base m) (ch_ticket c) v))" for v
      using e(2) ok(2) [of v] by (cases "ch_replaced c v") (auto simp: dom_def set_eq_iff)
    then show ?thesis using e(1) by blast
  qed
  have tickets: "distinct (map ch_ticket (freed m))"
    using mem.reachable_inv [OF assms(1)] by (simp add: memory_inv_def ticket_inv_def freed_tickets_def)
  have once: "j = i \<and> u = v"
    if f: "fresh_objects (log (base m)) (initial (base m)) H" and j: "j < length (freed m)"
      and x: "ch_replaced (freed m ! i) v = Some x" "ch_replaced (freed m ! j) u = Some x" for j u v x
  proof -
    let ?a = "ch_ticket (freed m ! i)" and ?b = "ch_ticket (freed m ! j)"
    obtain e d y z where e: "log (base m) ?a = Some e" "e_writes e v = Some y" "sig (base m) ?a v = x"
      and d: "log (base m) ?b = Some d" "e_writes d u = Some z" "sig (base m) ?b u = x"
      using exact [of "freed m ! i"] exact [of "freed m ! j"] assms(2) j x by (auto split: if_splits)
    note h = fresh_objectsD(1) [OF f e(1,2)] fresh_objectsD(1) [OF f d(1,2)]
    have "?a = ?b"
      using replaced_object_gone [OF f e(1,2) h(2), of ?b] replaced_object_gone [OF f d(1,2) h(1), of ?a] e(3) d(3)
      by (metis linorder_neqE_nat)
    then show ?thesis
      using tickets assms(2) j inj_onD [OF objects_apart [OF f, of ?a] _ h] e(3) d(3) by (auto simp: distinct_conv_nth)
  qed
  have gone: "sig (base m) k u \<noteq> x"
    if f: "fresh_objects (log (base m)) (initial (base m)) H" and x: "ch_replaced (freed m ! i) v = Some x"
      and k: "ch_ticket (freed m ! i) < k" and u: "u \<in> H" for k u v x
  proof -
    obtain e y where "log (base m) (ch_ticket (freed m ! i)) = Some e" "e_writes e v = Some y"
      "sig (base m) (ch_ticket (freed m ! i)) v = x"
      using exact [of "freed m ! i"] assms(2) x by (auto split: if_splits)
    then show ?thesis using replaced_object_gone [OF f _ _ u k, of e v y] by simp
  qed
  obtain e where "log (base m) (ch_ticket (freed m ! i)) = Some e"
    "ch_replaced (freed m ! i) = (\<lambda>v. if e_writes e v = None then None else Some (sig (base m) (ch_ticket (freed m ! i)) v))"
    using exact [of "freed m ! i"] assms(2) by auto
  then show ?thesis using tickets once gone by blast
qed

theorem freed_objects_exact_witness:
  "sigma (log (base freed_demo)) (initial (base freed_demo)) 3 16 = 9 \<and> freed freed_demo ! 0 \<noteq> freed freed_demo ! 1
    \<and> sigma (log (base freed_demo)) (initial (base freed_demo)) 4 16 \<noteq> 9"
proof -
  have 0: "0 < length (freed freed_demo)" "freed freed_demo ! 0 = hd (freed freed_demo)" "ch_ticket (hd (freed freed_demo)) = 3"
    "ch_replaced (hd (freed freed_demo)) 16 = Some 9" "freed freed_demo ! 1 = last (freed freed_demo)"
    "ch_ticket (last (freed freed_demo)) = 1"
    by (simp_all add: freed_demo_state)
  show ?thesis
    using freed_objects_exact [OF freed_demo_reachable 0(1), of "{16}"] freed_demo_fresh_objects 0
    by (auto split: if_splits)
qed

end
