(* ===== verification/Stm_Whole.thy ===== *)
theory Stm_Whole imports Stm_Reclaim_Props Thread_Registry begin

text \<open>
  The library as a whole: transactions over heap variables (\<^verbatim>\<open>Stm_Reclaim\<close>) on top of the list of thread
  nodes and its grace periods (\<^verbatim>\<open>Thread_Registry\<close>). A thread registers before its first transaction and
  takes its node off the list when it has no callbacks left; entering and leaving a critical section are
  calls on its node; an idle thread with queued chunks may call \<open>reclaim_slow_path\<close> or \<open>reclaim_all\<close>
  (\<^verbatim>\<open>thread_data.hpp\<close>), which wait for a grace period, mutex by mutex and node by node, and then run chunks
  in a loop. Every step is one step of one thread.

  In \<open>Stm_Reclaim\<close> a chunk runs when no thread is in its way, which no thread can observe. Here it runs when
  \<open>synchronize_min_epoch\<close> has returned. The result is that the second implies the first: the composition is a
  refinement, and with it everything proved about the freed objects holds for the algorithm of the code.
\<close>

section \<open>State\<close>

text \<open>
  What a thread is doing besides transactions: waiting in \<open>reclaim_slow_path\<close> or \<open>reclaim_all\<close>, or in the loop
  after it. The counts a call of \<open>synchronize_min_epoch\<close> began with are kept as a ghost.
\<close>

datatype reclaim_job = No_Job | Sync_First | Sync_All | Run_Below epoch_t "nat \<Rightarrow> nat" | Run_All "nat \<Rightarrow> nat"

record 'r whole =
  mem :: "'r mem_sys"
  sync :: sync_sys
  job :: "nat \<Rightarrow> reclaim_job"

abbreviation thread_of :: "'r whole \<Rightarrow> nat \<Rightarrow> 'r thread" where
  "thread_of w t \<equiv> threads (base (mem w)) t"

section \<open>Steps\<close>

text \<open>The calls a transaction makes on its node.\<close>

definition node_call :: "'r thread \<Rightarrow> reg_call option" where
  "node_call l = (case pc l of Announce \<Rightarrow> Some (Enter (rv l)) | Abort \<Rightarrow> Some Leave | Unwind \<Rightarrow> Some Leave
     | Success \<Rightarrow> Some Leave | _ \<Rightarrow> None)"

definition transaction_step :: "nat \<Rightarrow> 'r whole \<Rightarrow> 'r whole option" where
  "transaction_step t w =
     (if job w t = No_Job \<and> place (sync w) t = Live then
        (case mem_tstep t (mem w) of
           None \<Rightarrow> None
         | Some m \<Rightarrow> Some (w\<lparr> mem := m, sync := (case node_call (thread_of w t) of None \<Rightarrow> sync w
                                                | Some call \<Rightarrow> reg_tstep t call False (sync w)) \<rparr>))
      else None)"

text \<open>A thread outside its transactions: construction, registration and destruction.\<close>

definition lifetime_step :: "nat \<Rightarrow> bool \<Rightarrow> 'r whole \<Rightarrow> 'r whole option" where
  "lifetime_step t spurious w =
     (if job w t = No_Job \<and> pc (thread_of w t) = Idle \<and> (place (sync w) t = Live \<longrightarrow> chunks (mem w) t = [])
      then Some (w\<lparr> sync := reg_tstep t Destruct spurious (sync w) \<rparr>) else None)"

text \<open>\<open>reclaim_slow_path\<close> and \<open>reclaim_all\<close>: the call, the wait and the loop.\<close>

definition reclaim_slow_path_step :: "nat \<Rightarrow> 'r whole \<Rightarrow> 'r whole option" where
  "reclaim_slow_path_step t w =
     (if job w t = No_Job \<and> pc (thread_of w t) = Idle \<and> place (sync w) t = Live \<and> chunks (mem w) t \<noteq> []
      then Some (w\<lparr> sync := reg_tstep t (Synchronize (ch_epoch (hd (chunks (mem w) t)))) False (sync w),
                   job := (job w)(t := Sync_First) \<rparr>) else None)"

definition reclaim_all_step :: "nat \<Rightarrow> 'r whole \<Rightarrow> 'r whole option" where
  "reclaim_all_step t w =
     (if job w t = No_Job \<and> pc (thread_of w t) = Idle \<and> place (sync w) t = Live \<and> chunks (mem w) t \<noteq> []
      then Some (w\<lparr> sync := reg_tstep t (Synchronize (ch_epoch (last (chunks (mem w) t)))) False (sync w),
                   job := (job w)(t := Sync_All) \<rparr>) else None)"

definition synchronize_step :: "nat \<Rightarrow> bool \<Rightarrow> 'r whole \<Rightarrow> 'r whole option" where
  "synchronize_step t spurious w =
     (if job w t = Sync_First \<or> job w t = Sync_All then
        Some (w\<lparr> sync := reg_tstep t Leave spurious (sync w),
                job := (case place (sync w) t of
                          Unshare c r sn \<Rightarrow> (job w)(t := if job w t = Sync_First then Run_Below r sn else Run_All sn)
                        | _ \<Rightarrow> job w) \<rparr>)
      else None)"

definition run_step :: "nat \<Rightarrow> 'r whole \<Rightarrow> 'r whole option" where
  "run_step t w =
     (case (job w t, chunks (mem w) t) of
        (Run_Below r sn, c # cs) \<Rightarrow>
          Some (w\<lparr> mem := run_chunk t (mem w),
                  job := (job w)(t := if cs \<noteq> [] \<and> ch_epoch (hd cs) < r then Run_Below r sn else No_Job) \<rparr>)
      | (Run_All sn, c # cs) \<Rightarrow>
          Some (w\<lparr> mem := run_chunk t (mem w), job := (job w)(t := if cs \<noteq> [] then Run_All sn else No_Job) \<rparr>)
      | _ \<Rightarrow> None)"

definition whole_step :: "nat \<Rightarrow> 'r whole \<Rightarrow> 'r whole \<Rightarrow> bool" where
  "whole_step N w w' \<longleftrightarrow> (\<exists>t spurious. t < N \<and>
     (transaction_step t w = Some w' \<or> lifetime_step t spurious w = Some w' \<or> reclaim_slow_path_step t w = Some w'
      \<or> reclaim_all_step t w = Some w' \<or> synchronize_step t spurious w = Some w' \<or> run_step t w = Some w'))"

definition whole_start :: "nat \<Rightarrow> 'r whole \<Rightarrow> bool" where
  "whole_start N w \<longleftrightarrow> N < 2 ^ 62 \<and> (\<exists>m. mem_start m \<and> w = \<lparr> mem = m, sync = new_sync_sys, job = (\<lambda>_. No_Job) \<rparr>)"

section \<open>Steps of the thread list\<close>

lemmas reg_step_defs = reg_tstep_def step_construct_def step_lock_self_def step_lock_list_def step_lock_nodes_def step_modify_def
  step_unlock_nodes_def step_unlock_list_def step_unlock_self_def step_share_def step_visit_def step_wait_node_def step_unshare_def
  acquire_def release_def goto_def Let_def

lemma reg_tstep_place: "u \<noteq> t \<Longrightarrow> place (reg_tstep t call spurious s) u = place s u"
  by (auto simp: reg_step_defs step_live_def announce_def split: reg_pc.splits option.splits reg_call.splits)

lemma reg_tstep_announced:
  "place s t \<noteq> Live \<Longrightarrow> place s t \<noteq> Unborn \<Longrightarrow>
    announced (reg_tstep t call spurious s) = announced s \<and> entered (reg_tstep t call spurious s) = entered s"
  by (auto simp: reg_step_defs split: reg_pc.splits option.splits)

lemma reg_tstep_construct:
  "place s t = Unborn \<Longrightarrow> announced (reg_tstep t call spurious s) = (announced s)(t := new_node)
    \<and> entered (reg_tstep t call spurious s) = entered s"
  by (simp add: reg_step_defs)

lemma reg_tstep_other:
  "u \<noteq> t \<Longrightarrow> announced (reg_tstep t call spurious s) u = announced s u \<and> entered (reg_tstep t call spurious s) u = entered s u"
  by (auto simp: reg_step_defs step_live_def announce_def split: reg_pc.splits option.splits reg_call.splits)

lemma reg_tstep_live:
  assumes "place s t = Live" and "call_assert call (announced s t)"
  shows "call = Enter e \<Longrightarrow> reg_tstep t call spurious s = announce t (access_lock e (announced s t)) s"
    and "call = Leave \<Longrightarrow> reg_tstep t call spurious s = announce t (access_unlock (announced s t)) s"
    and "call = Synchronize e \<Longrightarrow> reg_tstep t call spurious s = goto t (Share e (entered s)) s"
    and "call = Destruct \<Longrightarrow> reg_tstep t call spurious s = goto t (Lock_List Unregister) s"
  using assms by (auto simp: reg_tstep_def step_live_def)

lemma reg_tstep_counts: "counts_sections s (reg_tstep t call spurious s)"
proof (cases "place s t")
  case Unborn
  then show ?thesis using reg_tstep_construct [OF Unborn] by (auto simp: counts_sections_def new_node_def)
next
  case Live
  then show ?thesis
    by (auto simp: counts_sections_def reg_tstep_def step_live_def announce_def node_in_critical_section_def goto_def split: reg_call.splits)
qed (use reg_tstep_announced [of s t call spurious] in \<open>simp_all add: counts_sections_def\<close>)

text \<open>A thread that waits for the epoch \<open>e\<close>, with the counts its call began with.\<close>

fun awaits :: "reg_pc \<Rightarrow> epoch_t \<Rightarrow> (nat \<Rightarrow> nat) \<Rightarrow> bool" where
  "awaits (Share c sn) e k \<longleftrightarrow> c = e \<and> sn = k"
| "awaits (Visit c r i n sn) e k \<longleftrightarrow> c = e \<and> sn = k"
| "awaits (Wait_Node c r i n sn) e k \<longleftrightarrow> c = e \<and> sn = k"
| "awaits (Unshare c r sn) e k \<longleftrightarrow> c = e \<and> sn = k"
| "awaits _ e k \<longleftrightarrow> False"

lemma awaits_step:
  assumes "awaits (place s t) e sn" and "\<And>c r k. place s t \<noteq> Unshare c r k" and "place (reg_tstep t call spurious s) t \<noteq> Undefined"
  shows "awaits (place (reg_tstep t call spurious s) t) e sn"
  using assms by (cases "place s t") (auto simp: reg_step_defs split: option.splits if_splits)

section \<open>Steps of the transactions\<close>

lemma mem_tstep_other:
  assumes "memory_inv m" and "mem_tstep t m = Some m'" and "u \<noteq> t"
  shows "threads (base m') u = threads (base m) u" and "chunks m' u = chunks m u" and "sections m' u = sections m u"
proof -
  have i: "stm_inv (base m)" using assms(1) by (simp add: memory_inv_def reclaim_inv_def)
  show "threads (base m') u = threads (base m) u" "chunks m' u = chunks m u" "sections m' u = sections m u"
    using assms(2,3) env_threads [OF tstep_env [OF i] assms(3)]
    by (auto simp: mem_tstep_def step_load_registered_def step_load_cur_def callbacks_step_fields split: option.splits)
qed

lemma mem_tstep_self:
  assumes "memory_inv m" and "mem_tstep t m = Some m'"
  shows "td_epoch (td (threads (base m') t)) = (case node_call (threads (base m) t) of
      Some (Enter e) \<Rightarrow> e | Some c \<Rightarrow> off_state | None \<Rightarrow> td_epoch (td (threads (base m) t)))"
    and "sections m' t = (case node_call (threads (base m) t) of Some (Enter e) \<Rightarrow> Suc (sections m t) | _ \<Rightarrow> sections m t)"
proof -
  have c: "callbacks_inv m t" using assms(1) by (simp add: memory_inv_def reclaim_inv_def)
  have body: "\<exists>q. pc (threads (base m) t) = Body q" if "to_load m t = Some v" for v
    using c that by (auto simp: callbacks_inv_def Let_def)
  have slow: "\<exists>v x q. pc (threads (base m) t) = Set_Slow v x q" if "loads_cur t m = Some u" for u
    using that by (auto simp: loads_cur_def Let_def split: pc.splits)
  show "td_epoch (td (threads (base m') t)) = (case node_call (threads (base m) t) of
      Some (Enter e) \<Rightarrow> e | Some c \<Rightarrow> off_state | None \<Rightarrow> td_epoch (td (threads (base m) t)))"
    using assms(2) body slow
    by (cases "pc (threads (base m) t)")
      (auto simp: mem_tstep_def step_load_registered_def step_load_cur_def callbacks_step_fields node_call_def tstep_node split: option.splits)
  show "sections m' t = (case node_call (threads (base m) t) of Some (Enter e) \<Rightarrow> Suc (sections m t) | _ \<Rightarrow> sections m t)"
    using assms(2) body slow
    by (cases "pc (threads (base m) t)")
      (auto simp: mem_tstep_def step_load_registered_def step_load_cur_def callbacks_step_fields node_call_def split: option.splits)
qed

section \<open>The invariant of the composition\<close>

definition covered :: "'r whole \<Rightarrow> nat \<Rightarrow> (nat \<Rightarrow> nat) \<Rightarrow> bool" where
  "covered w t sn \<longleftrightarrow> (\<forall>c \<in> set (chunks (mem w) t). \<forall>u. ch_entered c u \<le> sn u)"

definition granted :: "'r whole \<Rightarrow> nat \<Rightarrow> epoch_t \<Rightarrow> (nat \<Rightarrow> nat) \<Rightarrow> bool" where
  "granted w t r sn \<longleftrightarrow> covered w t sn \<and> (\<forall>u. sn u \<le> entered (sync w) u \<and> new_section (sync w) sn r u)"

text \<open>The node of a thread announces what the transaction of the thread has stored in it.\<close>

definition agree :: "'r whole \<Rightarrow> bool" where
  "agree w \<longleftrightarrow> (\<forall>u. active (announced (sync w) u) = td_epoch (td (thread_of w u)) \<and> entered (sync w) u = sections (mem w) u)"

definition job_inv :: "'r whole \<Rightarrow> nat \<Rightarrow> bool" where
  "job_inv w t \<longleftrightarrow> (let cs = chunks (mem w) t in
     case job w t of
       No_Job \<Rightarrow> pc (thread_of w t) = Idle \<or> place (sync w) t = Live
     | Sync_First \<Rightarrow> pc (thread_of w t) = Idle \<and> cs \<noteq> [] \<and> (\<exists>sn. awaits (place (sync w) t) (ch_epoch (hd cs)) sn \<and> covered w t sn)
     | Sync_All \<Rightarrow> pc (thread_of w t) = Idle \<and> cs \<noteq> [] \<and> (\<exists>sn. awaits (place (sync w) t) (ch_epoch (last cs)) sn \<and> covered w t sn)
     | Run_Below r sn \<Rightarrow> pc (thread_of w t) = Idle \<and> cs \<noteq> [] \<and> ch_epoch (hd cs) < r \<and> granted w t r sn
     | Run_All sn \<Rightarrow> pc (thread_of w t) = Idle \<and> cs \<noteq> [] \<and> (\<exists>r. (\<forall>c \<in> set cs. ch_epoch c < r) \<and> granted w t r sn))"

definition whole_inv :: "nat \<Rightarrow> 'r whole \<Rightarrow> bool" where
  "whole_inv N w \<longleftrightarrow> reachable mem_start mem_step (mem w) \<and> reachable (reg_start N) (reg_step N) (sync w)
     \<and> agree w \<and> (\<forall>t. job_inv w t)"

lemma whole_invD:
  assumes "whole_inv N w"
  shows "memory_inv (mem w)" "reg_inv N (sync w)" "agree w" "job_inv w t"
    "reachable mem_start mem_step (mem w)" "reachable (reg_start N) (reg_step N) (sync w)"
  using assms mem.reachable_inv registry.reachable_inv by (auto simp: whole_inv_def)

text \<open>What a thread waits for or has been granted survives the steps of the others.\<close>

lemma job_inv_mono:
  assumes "job_inv w u" and "job w' u = job w u" "chunks (mem w') u = chunks (mem w) u" "thread_of w' u = thread_of w u"
      "place (sync w') u = place (sync w) u"
    and c: "counts_sections (sync w) (sync w')"
  shows "job_inv w' u"
proof -
  have cnt: "covered w' u sn \<longleftrightarrow> covered w u sn" for sn by (simp add: covered_def assms(3))
  have "granted w' u r sn" if "granted w u r sn" for r sn
    using that new_section_mono [OF c] c by (auto simp: granted_def cnt counts_sections_def intro: le_trans)
  then show ?thesis
    using assms(1) unfolding job_inv_def Let_def assms(2-5) cnt by (auto split: reclaim_job.splits)
qed

lemma whole_inv_step:
  assumes inv: "whole_inv N w" and t: "t < N"
    and m: "mem w' = mem w \<or> mem_step (mem w) (mem w')" and s: "sync w' = sync w \<or> (\<exists>call sp. sync w' = reg_tstep t call sp (sync w))"
    and o: "\<And>u. u \<noteq> t \<Longrightarrow> job w' u = job w u \<and> chunks (mem w') u = chunks (mem w) u \<and> thread_of w' u = thread_of w u
      \<and> sections (mem w') u = sections (mem w) u"
    and a: "active (announced (sync w') t) = td_epoch (td (thread_of w' t))" "entered (sync w') t = sections (mem w') t"
    and j: "job_inv w' t"
  shows "whole_inv N w'"
proof -
  have c: "counts_sections (sync w) (sync w')" using s by (elim disjE exE) (simp_all add: reg_tstep_counts counts_sections_def [of "sync w" "sync w"])
  have p: "place (sync w') u = place (sync w) u" "announced (sync w') u = announced (sync w) u \<and> entered (sync w') u = entered (sync w) u"
    if "u \<noteq> t" for u
    using s that by (auto simp: reg_tstep_place reg_tstep_other)
  have "job_inv w' u" for u
    using job_inv_mono [OF whole_invD(4) [OF inv, of u]] o p(1) c j by (cases "u = t") auto
  moreover have "agree w'"
    unfolding agree_def
  proof
    fix u show "active (announced (sync w') u) = td_epoch (td (thread_of w' u)) \<and> entered (sync w') u = sections (mem w') u"
      using whole_invD(3) [OF inv] o [of u] p(2) [of u] a by (cases "u = t") (simp_all add: agree_def)
  qed
  moreover have "reachable mem_start mem_step (mem w')" using m whole_invD(5) [OF inv] reach_step by metis
  moreover have "reachable (reg_start N) (reg_step N) (sync w')"
  proof (cases "sync w' = sync w")
    case False
    then have "reg_step N (sync w) (sync w')" using s t unfolding reg_step_def by blast
    then show ?thesis by (rule reach_step [OF whole_invD(6) [OF inv]])
  qed (use whole_invD(6) [OF inv] in simp)
  ultimately show ?thesis by (simp add: whole_inv_def)
qed

section \<open>Every step keeps it\<close>

lemma idle_off: "whole_inv N w \<Longrightarrow> pc (thread_of w t) = Idle \<Longrightarrow> active (announced (sync w) t) = off_state"
  using whole_invD(1) [of N w] whole_invD(3) [of N w]
  by (simp add: memory_inv_def reclaim_inv_def node_inv_def in_section_def agree_def)

lemma run_off: "e \<le> c \<Longrightarrow> \<not> locked c \<Longrightarrow> e \<noteq> off_state"
  by (metis unlocked_le locked_off_state)

lemma transaction_step_inv:
  assumes inv: "whole_inv N w" and t: "t < N" and st: "transaction_step t w = Some w'"
  shows "whole_inv N w'"
proof -
  let ?l = "thread_of w t"
  obtain m where j: "job w t = No_Job" "place (sync w) t = Live" and m: "mem_tstep t (mem w) = Some m"
    and w': "w' = w\<lparr> mem := m, sync := (case node_call ?l of None \<Rightarrow> sync w | Some call \<Rightarrow> reg_tstep t call False (sync w)) \<rparr>"
    using st by (auto simp: transaction_step_def split: if_splits option.splits)
  note mi = whole_invD(1) [OF inv]
  have i: "stm_inv (base (mem w))" and n: "node_inv (base (mem w)) t" using mi by (simp_all add: memory_inv_def reclaim_inv_def)
  have ag: "active (announced (sync w) t) = td_epoch (td ?l)" "entered (sync w) t = sections (mem w) t"
    using whole_invD(3) [OF inv] by (simp_all add: agree_def)
  have ok: "rv ?l \<noteq> off_state" if "active_t ?l"
    using stm_invD(2) [OF i that] clock_at(2) [OF stm_inv_g [OF i]] by (intro run_off) (auto simp: snap_inv_def)
  have sy: "place (sync w') t = Live \<and> active (announced (sync w') t) = td_epoch (td (thread_of w' t)) \<and> entered (sync w') t = sections (mem w') t"
  proof (cases "node_call ?l")
    case None
    then show ?thesis using ag j mem_tstep_self [OF mi m] by (simp add: w')
  next
    case (Some call)
    have ca: "call = Enter (rv ?l) \<and> pc ?l = Announce \<or> call = Leave \<and> in_section ?l"
      using Some by (auto simp: node_call_def in_section_def split: pc.splits)
    then show ?thesis
    proof (elim disjE conjE)
      assume c: "call = Enter (rv ?l)" "pc ?l = Announce"
      then have "call_assert call (announced (sync w) t)"
        using n ag(1) ok by (auto simp: call_assert_def access_lock_assert_def node_in_critical_section_def node_inv_def in_section_def active_t_def)
      then have "reg_tstep t call False (sync w) = announce t (access_lock (rv ?l) (announced (sync w) t)) (sync w)"
        using reg_tstep_live(1) [OF j(2) _ c(1)] by blast
      then show ?thesis
        using c Some ag(2) j(2) ok mem_tstep_self [OF mi m]
        by (auto simp: w' announce_def access_lock_def node_in_critical_section_def active_t_def)
    next
      assume c: "call = Leave" "in_section ?l"
      then have "call_assert call (announced (sync w) t)"
        using n ag(1) ok [OF in_section_active [OF c(2)]]
        by (simp add: call_assert_def access_unlock_assert_def node_in_critical_section_def node_inv_def)
      then have "reg_tstep t call False (sync w) = announce t (access_unlock (announced (sync w) t)) (sync w)"
        using reg_tstep_live(2) [OF j(2) _ c(1)] by blast
      then show ?thesis
        using c Some ag(2) j(2) mem_tstep_self [OF mi m]
        by (simp add: w' announce_def access_unlock_def node_in_critical_section_def)
    qed
  qed
  show ?thesis
  proof (rule whole_inv_step [OF inv t])
    show "mem w' = mem w \<or> mem_step (mem w) (mem w')" using m by (auto simp: w' mem_step_def)
    show "sync w' = sync w \<or> (\<exists>call sp. sync w' = reg_tstep t call sp (sync w))" by (auto simp: w' split: option.splits)
    show "job_inv w' t" using j sy by (simp add: job_inv_def w')
  qed (use sy mem_tstep_other [OF mi m] in \<open>simp_all add: w'\<close>)
qed

lemma not_undefined:
  assumes "whole_inv N w" and "t < N"
  shows "place (reg_tstep t call sp (sync w)) t \<noteq> Undefined"
proof -
  have "reg_step N (sync w) (reg_tstep t call sp (sync w))" unfolding reg_step_def using assms(2) by blast
  then show ?thesis using reg_invD(9) [OF reg_step_inv [OF whole_invD(2) [OF assms(1)]], of _ t] by fastforce
qed

text \<open>Steps of an idle thread on its node only.\<close>

lemma sync_only_inv:
  assumes inv: "whole_inv N w" and t: "t < N" and idle: "pc (thread_of w t) = Idle"
    and w': "mem w' = mem w" "sync w' = reg_tstep t call sp (sync w)" "\<And>u. u \<noteq> t \<Longrightarrow> job w' u = job w u"
    and a: "active (announced (sync w') t) = off_state" "entered (sync w') t = entered (sync w) t" and j: "job_inv w' t"
  shows "whole_inv N w'"
proof (rule whole_inv_step [OF inv t _ _ _ _ _ j])
  have "active (announced (sync w) t) = td_epoch (td (thread_of w t))" "entered (sync w) t = sections (mem w) t"
    using whole_invD(3) [OF inv] by (simp_all add: agree_def)
  then show "active (announced (sync w') t) = td_epoch (td (thread_of w' t))" "entered (sync w') t = sections (mem w') t"
    using a w'(1) idle_off [OF inv idle] by simp_all
qed (use w' in auto)

lemma lifetime_step_inv:
  assumes inv: "whole_inv N w" and t: "t < N" and st: "lifetime_step t sp w = Some w'"
  shows "whole_inv N w'"
proof -
  have j: "job w t = No_Job" "pc (thread_of w t) = Idle" and w': "w' = w\<lparr> sync := reg_tstep t Destruct sp (sync w) \<rparr>"
    using st by (auto simp: lifetime_step_def split: if_splits)
  note off = idle_off [OF inv j(2)]
  show ?thesis
  proof (rule sync_only_inv [OF inv t j(2)])
    show "active (announced (sync w') t) = off_state" "entered (sync w') t = entered (sync w) t"
      using off reg_tstep_announced [of "sync w" t Destruct sp] reg_tstep_construct [of "sync w" t Destruct sp]
        reg_tstep_live(4) [of "sync w" t Destruct sp]
      by (cases "place (sync w) t = Live"; cases "place (sync w) t = Unborn";
          simp add: w' new_node_def call_assert_def node_in_critical_section_def goto_def)+
    show "job_inv w' t" using j by (simp add: job_inv_def w')
  qed (simp_all add: w')
qed

text \<open>The epochs of the queued chunks are below the clock, so they can be waited for.\<close>

lemma chunk_epoch_off: "whole_inv N w \<Longrightarrow> c \<in> set (chunks (mem w) t) \<Longrightarrow> ch_epoch c \<noteq> off_state"
proof -
  assume inv: "whole_inv N w" and c: "c \<in> set (chunks (mem w) t)"
  have m: "reclaim_inv (mem w)" using whole_invD(1) [OF inv] by (simp add: memory_inv_def)
  then have ok: "chunk_ok (base (mem w)) (ch_epoch c) (ch_replaced c) (ch_ticket c)" and g: "ginv (base (mem w))"
    using c by (auto simp: reclaim_inv_def chunk_inv_def stm_inv_def)
  show ?thesis by (rule run_off [OF less_imp_le [OF chunk_okD(1) [OF ok]] clock_at(2) [OF g]])
qed

text \<open>When the call begins, every section a chunk has covered is in the counts of the call.\<close>

lemma synchronize_begins:
  assumes inv: "whole_inv N w" and p: "pc (thread_of w t) = Idle" "place (sync w) t = Live" and e: "e \<noteq> off_state"
  shows "reg_tstep t (Synchronize e) sp (sync w) = goto t (Share e (entered (sync w))) (sync w)"
    and "covered w t (entered (sync w))"
proof -
  have "call_assert (Synchronize e) (announced (sync w) t)"
    using idle_off [OF inv p(1)] e by (simp add: call_assert_def synchronize_assert_def node_in_critical_section_def)
  then show "reg_tstep t (Synchronize e) sp (sync w) = goto t (Share e (entered (sync w))) (sync w)"
    using reg_tstep_live(3) [OF p(2)] by blast
  have "chunk_inv (mem w) c" if "c \<in> set (chunks (mem w) t)" for c
    using whole_invD(1) [OF inv] that by (auto simp: memory_inv_def reclaim_inv_def)
  then show "covered w t (entered (sync w))"
    using whole_invD(3) [OF inv] by (simp add: covered_def agree_def chunk_inv_def)
qed

lemma reclaim_begins_inv:
  assumes inv: "whole_inv N w" and t: "t < N"
    and p: "pc (thread_of w t) = Idle" "place (sync w) t = Live" "chunks (mem w) t \<noteq> []"
    and q: "q = Sync_First \<and> c = hd (chunks (mem w) t) \<or> q = Sync_All \<and> c = last (chunks (mem w) t)"
  shows "whole_inv N (w\<lparr> sync := reg_tstep t (Synchronize (ch_epoch c)) False (sync w), job := (job w)(t := q) \<rparr>)"
proof -
  have "c \<in> set (chunks (mem w) t)" using q p(3) by auto
  note b = synchronize_begins [OF inv p(1,2) chunk_epoch_off [OF inv this]]
  show ?thesis
  proof (rule sync_only_inv [OF inv t p(1), where call = "Synchronize (ch_epoch c)" and sp = False])
    show "job_inv (w\<lparr> sync := reg_tstep t (Synchronize (ch_epoch c)) False (sync w), job := (job w)(t := q) \<rparr>) t"
      using p q b(2) by (auto simp: job_inv_def Let_def b(1) goto_def covered_def)
  qed (use idle_off [OF inv p(1)] b(1) in \<open>simp_all add: goto_def\<close>)
qed

lemma reclaim_slow_path_step_inv: "whole_inv N w \<Longrightarrow> t < N \<Longrightarrow> reclaim_slow_path_step t w = Some w' \<Longrightarrow> whole_inv N w'"
  using reclaim_begins_inv [of N w t Sync_First "hd (chunks (mem w) t)"] by (auto simp: reclaim_slow_path_step_def split: if_splits)

lemma reclaim_all_step_inv: "whole_inv N w \<Longrightarrow> t < N \<Longrightarrow> reclaim_all_step t w = Some w' \<Longrightarrow> whole_inv N w'"
  using reclaim_begins_inv [of N w t Sync_All "last (chunks (mem w) t)"] by (auto simp: reclaim_all_step_def split: if_splits)

lemma sorted_map_last: "sorted_wrt (<) (map f xs) \<Longrightarrow> x \<in> set xs \<Longrightarrow> f x \<le> (f (last xs) :: 'a :: preorder)"
  by (induction xs rule: rev_induct) (auto simp: sorted_wrt_append less_imp_le)

lemma synchronize_step_inv:
  assumes inv: "whole_inv N w" and t: "t < N" and st: "synchronize_step t sp w = Some w'"
  shows "whole_inv N w'"
proof -
  let ?cs = "chunks (mem w) t" and ?y = "reg_tstep t Leave sp (sync w)" and ?p = "place (sync w) t"
  have j: "job w t = Sync_First \<or> job w t = Sync_All" and w': "w' = w\<lparr> sync := ?y,
      job := (case ?p of Unshare c r sn \<Rightarrow> (job w)(t := if job w t = Sync_First then Run_Below r sn else Run_All sn) | _ \<Rightarrow> job w) \<rparr>"
    using st by (auto simp: synchronize_step_def split: if_splits)
  define d where "d = (if job w t = Sync_First then hd ?cs else last ?cs)"
  obtain sn where idle: "pc (thread_of w t) = Idle" and cs: "?cs \<noteq> []" and a: "awaits ?p (ch_epoch d) sn" and cn: "covered w t sn"
    using whole_invD(4) [OF inv, of t] j by (auto simp: job_inv_def Let_def d_def)
  have np: "?p \<noteq> Live" "?p \<noteq> Unborn" using a by auto
  note same = reg_tstep_announced [OF np, of Leave sp]
  have cn': "covered w' t sn" using cn by (simp add: covered_def w')
  show ?thesis
  proof (rule sync_only_inv [OF inv t idle])
    show "active (announced (sync w') t) = off_state" "entered (sync w') t = entered (sync w) t"
      using idle_off [OF inv idle] same by (simp_all add: w')
    show "job_inv w' t"
    proof (cases "\<exists>c r k. ?p = Unshare c r k")
      case True
      then obtain r where r: "?p = Unshare (ch_epoch d) r sn" using a by auto
      have g: "ch_epoch d < r" "\<forall>v. sn v \<le> entered (sync w) v" "\<forall>v. new_section (sync w) sn r v"
        using reg_invD(9) [OF whole_invD(2) [OF inv], of t] r by simp_all
      have gr: "granted w' t r sn" using g(2,3) same cn' by (simp add: granted_def new_section_def w')
      have "sorted_wrt (<) (map ch_epoch ?cs)" using whole_invD(1) [OF inv] by (simp add: memory_inv_def epochs_inv_def)
      then have "ch_epoch c \<le> ch_epoch (last ?cs)" if "c \<in> set ?cs" for c
        using sorted_map_last [of ch_epoch ?cs c] that by simp
      then have "ch_epoch c < r" if "c \<in> set ?cs" "job w t = Sync_All" for c
        using that g(1) d_def by fastforce
      then show ?thesis
        using j idle cs gr g(1) r by (auto simp: job_inv_def Let_def w' d_def intro!: exI [of _ r])
    next
      case False
      then have "awaits (place ?y t) (ch_epoch d) sn" using awaits_step [OF a] not_undefined [OF inv t] by blast
      moreover have "job w' = job w" using False by (auto simp: w' split: reg_pc.splits)
      ultimately show ?thesis
        using j idle cs cn' by (auto simp: job_inv_def Let_def w' d_def)
    qed
  qed (auto simp: w' split: reg_pc.splits)
qed

text \<open>The first chunk of a thread whose grace period has ended may run.\<close>

lemma run_chunk_quiet:
  assumes inv: "whole_inv N w" and c: "c \<in> set (chunks (mem w) t)" and g: "granted w t r sn" and lt: "ch_epoch c < r"
  shows "chunk_quiet (mem w) c u"
  unfolding chunk_quiet_def
proof
  assume "td_epoch (td (thread_of w u)) \<le> ch_epoch c"
  then have "active (announced (sync w) u) < r" using whole_invD(3) [OF inv] lt by (simp add: agree_def)
  then have "sn u < entered (sync w) u" using g by (simp add: granted_def new_section_def)
  then show "ch_entered c u < sections (mem w) u"
    using g c whole_invD(3) [OF inv] by (auto simp: granted_def covered_def agree_def intro: le_less_trans)
qed

lemma run_step_inv:
  assumes inv: "whole_inv N w" and t: "t < N" and st: "run_step t w = Some w'"
  shows "whole_inv N w'"
proof -
  obtain c cs where cs: "chunks (mem w) t = c # cs" and m': "mem w' = run_chunk t (mem w)" and s': "sync w' = sync w"
    and jo: "\<And>u. u \<noteq> t \<Longrightarrow> job w' u = job w u"
    using st by (auto simp: run_step_def split: reclaim_job.splits list.splits)
  obtain r sn where idle: "pc (thread_of w t) = Idle" and lt: "ch_epoch c < r" and g: "granted w t r sn"
    and j': "job_inv w' t"
  proof -
    have ch: "chunks (mem w') t = cs" "thread_of w' t = thread_of w t" by (simp_all add: m' run_chunk_def cs)
    have gr: "granted w' t r sn" if "granted w t r sn" for r sn
      using that by (auto simp: granted_def covered_def s' ch cs)
    from st cs consider (below) r sn where "job w t = Run_Below r sn" "job w' t = (if cs \<noteq> [] \<and> ch_epoch (hd cs) < r then Run_Below r sn else No_Job)"
      | (all) sn where "job w t = Run_All sn" "job w' t = (if cs \<noteq> [] then Run_All sn else No_Job)"
      by (auto simp: run_step_def split: reclaim_job.splits)
    then show ?thesis
    proof cases
      case below
      then show ?thesis
        using whole_invD(4) [OF inv, of t] gr that [of r sn] by (auto simp: job_inv_def Let_def cs ch)
    next
      case all
      then obtain r where "pc (thread_of w t) = Idle" "\<forall>c \<in> set (c # cs). ch_epoch c < r" "granted w t r sn"
        using whole_invD(4) [OF inv, of t] by (auto simp: job_inv_def Let_def cs)
      moreover from this have "job_inv w' t" using all gr by (auto simp: job_inv_def Let_def ch)
      ultimately show ?thesis using that [of r sn] by simp
    qed
  qed
  have "chunk_quiet (mem w) (hd (chunks (mem w) t)) u" for u
    by (rule run_chunk_quiet [OF inv _ g]) (simp_all add: cs lt)
  then have "mem_step (mem w) (mem w')" unfolding m' using idle by (intro run_chunk_step) (simp_all add: cs)
  then show ?thesis
    using jo j' whole_invD(3) [OF inv]
    by (intro whole_inv_step [OF inv t]) (simp_all add: s' m' run_chunk_def agree_def)
qed

lemma whole_inv_start: "whole_start N w \<Longrightarrow> whole_inv N w"
proof -
  assume "whole_start N w"
  then obtain m where m: "mem_start m" "N < 2 ^ 62" and w: "w = \<lparr> mem = m, sync = new_sync_sys, job = (\<lambda>_. No_Job) \<rparr>"
    by (auto simp: whole_start_def)
  have "node_inv (base m) t" for t using memory_inv_start [OF m(1)] by (simp add: memory_inv_def reclaim_inv_def)
  moreover have "pc (threads (base m) t) = Idle" "sections m t = 0" for t
    using m(1) by (auto simp: mem_start_def stm_start_def new_mem_def new_sys_def new_thread_def)
  ultimately show ?thesis
    using m by (auto simp: whole_inv_def w agree_def job_inv_def new_sync_sys_def new_node_def node_inv_def in_section_def reg_start_def
        intro!: reach_start)
qed

interpretation whole: invariant_system "whole_start N" "whole_step N" "whole_inv N" for N
  by unfold_locales
    (auto simp: whole_step_def intro: whole_inv_start transaction_step_inv lifetime_step_inv reclaim_slow_path_step_inv
      reclaim_all_step_inv synchronize_step_inv run_step_inv)

section \<open>A run\<close>

datatype whole_move = Transact nat | Live_On nat | Reclaim_Slow nat | Reclaim_All nat | Wait_On nat | Run_Chunk nat

fun move_of :: "whole_move \<Rightarrow> 'r whole \<Rightarrow> 'r whole option" where
  "move_of (Transact t) w = transaction_step t w"
| "move_of (Live_On t) w = lifetime_step t False w"
| "move_of (Reclaim_Slow t) w = reclaim_slow_path_step t w"
| "move_of (Reclaim_All t) w = reclaim_all_step t w"
| "move_of (Wait_On t) w = synchronize_step t False w"
| "move_of (Run_Chunk t) w = run_step t w"

primrec whole_run :: "whole_move list \<Rightarrow> 'r whole \<Rightarrow> 'r whole" where
  "whole_run [] w = w"
| "whole_run (x # xs) w = whole_run xs (case move_of x w of None \<Rightarrow> w | Some w' \<Rightarrow> w')"

fun mover :: "whole_move \<Rightarrow> nat" where
  "mover (Transact t) = t"
| "mover (Live_On t) = t"
| "mover (Reclaim_Slow t) = t"
| "mover (Reclaim_All t) = t"
| "mover (Wait_On t) = t"
| "mover (Run_Chunk t) = t"

lemma whole_run_reachable:
  "reachable (whole_start N) (whole_step N) w \<Longrightarrow> \<forall>x \<in> set xs. mover x < N \<Longrightarrow> reachable (whole_start N) (whole_step N) (whole_run xs w)"
proof (induction xs arbitrary: w)
  case (Cons x xs)
  show ?case
  proof (cases "move_of x w")
    case None
    then show ?thesis using Cons by simp
  next
    case (Some w')
    then have "whole_step N w w'" using Cons.prems(2) by (cases x) (auto simp: whole_step_def)
    then show ?thesis using Cons Some reach_step by fastforce
  qed
qed simp

lemma whole_run_append: "whole_run (xs @ ys) w = whole_run ys (whole_run xs w)"
  by (induction xs arbitrary: w) simp_all

text \<open>A thread that registers, and one that waits, until the call is over; one \<open>()\<close> for each step.\<close>

fun is_live :: "reg_pc \<Rightarrow> bool" where
  "is_live Live = True"
| "is_live _ = False"

fun is_unshare :: "reg_pc \<Rightarrow> bool" where
  "is_unshare (Unshare c r sn) = True"
| "is_unshare _ = False"

primrec lifetime_run :: "unit list \<Rightarrow> nat \<Rightarrow> sync_sys \<Rightarrow> sync_sys option" where
  "lifetime_run [] t s = Some s"
| "lifetime_run (x # xs) t s = (if is_live (place s t) then None else lifetime_run xs t (reg_tstep t Destruct False s))"

primrec wait_run :: "unit list \<Rightarrow> nat \<Rightarrow> sync_sys \<Rightarrow> sync_sys option" where
  "wait_run [] t s = Some s"
| "wait_run (x # xs) t s = (if is_unshare (place s t) then None else wait_run xs t (reg_tstep t Leave False s))"

lemma run_lifetime:
  assumes "job w t = No_Job" and "pc (thread_of w t) = Idle" and "lifetime_run xs t (sync w) = Some s"
  shows "whole_run (map (\<lambda>_. Live_On t) xs) w = w\<lparr> sync := s \<rparr>"
  using assms by (induction xs arbitrary: w) (auto simp: lifetime_step_def split: if_splits)

lemma run_wait:
  assumes "job w t = Sync_All \<or> job w t = Sync_First" and "wait_run xs t (sync w) = Some s"
  shows "whole_run (map (\<lambda>_. Wait_On t) xs) w = w\<lparr> sync := s \<rparr>"
  using assms
proof (induction xs arbitrary: w)
  case (Cons x xs)
  have "synchronize_step t False w = Some (w\<lparr> sync := reg_tstep t Leave False (sync w) \<rparr>)"
    using Cons.prems by (cases "place (sync w) t") (auto simp: synchronize_step_def)
  then show ?case using Cons by (auto split: if_splits)
qed simp

definition demo_registered :: sync_sys where
  "demo_registered = the (lifetime_run [(),(),(),(),(),(),(),()] 0 new_sync_sys)"

definition demo_waiting :: sync_sys where
  "demo_waiting = reg_tstep 0 (Synchronize 0) False (demo_registered\<lparr> announced := (announced demo_registered)(0 := new_node),
     entered := (entered demo_registered)(0 := 1) \<rparr>)"

lemma demo_registered:
  "lifetime_run [(),(),(),(),(),(),(),()] 0 new_sync_sys \<noteq> None"
  "is_live (place demo_registered 0)" "active (announced demo_registered 0) = off_state"
  "entered demo_registered 0 = 0"
  by code_simp+

lemma is_live_iff: "is_live p \<longleftrightarrow> p = Live"
  by (cases p) simp_all

lemma demo_live: "place demo_registered 0 = Live" "announced demo_registered 0 = new_node"
  using demo_registered(2,3) by (simp_all add: is_live_iff new_node_def)

lemma demo_registered_run: "lifetime_run [(),(),(),(),(),(),(),()] 0 new_sync_sys = Some demo_registered"
  using demo_registered(1) by (auto simp: demo_registered_def)

lemma demo_waits:
  "case wait_run [(),(),()] 0 demo_waiting of None \<Rightarrow> False | Some s \<Rightarrow> is_unshare (place s 0)"
  by code_simp

definition demo_registered_whole :: "var_storage whole" where
  "demo_registered_whole = \<lparr> mem = new_mem demo_sys, sync = demo_registered, job = (\<lambda>_. No_Job) \<rparr>"

definition demo_committed :: "var_storage whole" where
  "demo_committed = whole_run [Transact 0, Transact 0, Transact 0, Transact 0, Transact 0, Transact 0, Transact 0, Transact 0,
     Transact 0, Transact 0, Transact 0, Transact 0, Transact 0] demo_registered_whole"

lemma demo_committed:
  "let w = demo_committed in
     chunks (mem w) 0 = [\<lparr> ch_epoch = 0, ch_replaced = [16 \<mapsto> 5], ch_ticket = 1, ch_entered = (\<lambda>_. 0)(0 := 1) \<rparr>]
     \<and> pc (thread_of w 0) = Idle \<and> job w = (\<lambda>_. No_Job) \<and> place (sync w) 0 = Live \<and> freed (mem w) = []
     \<and> sync w = demo_registered\<lparr> announced := (announced demo_registered)(0 := new_node), entered := (entered demo_registered)(0 := 1) \<rparr>"
  by (simp add: demo_committed_def demo_registered_whole_def transaction_step_def node_call_def mem_run_defs demo_live demo_registered(4)
      reg_tstep_def step_live_def call_assert_def announce_def access_lock_assert_def access_unlock_assert_def access_lock_def access_unlock_def node_in_critical_section_def new_node_def off_state_def)

definition demo_freed :: "var_storage whole" where
  "demo_freed = whole_run ([Reclaim_All 0] @ map (\<lambda>_. Wait_On 0) [(),(),()] @ [Wait_On 0, Run_Chunk 0]) demo_committed"

lemma demo_freed:
  "freed (mem demo_freed) = [\<lparr> ch_epoch = 0, ch_replaced = [16 \<mapsto> 5], ch_ticket = 1, ch_entered = (\<lambda>_. 0)(0 := 1) \<rparr>]"
proof -
  let ?w = "demo_committed"
  note c = demo_committed [unfolded Let_def]
  have w1: "whole_run [Reclaim_All 0] ?w = ?w\<lparr> sync := demo_waiting, job := (\<lambda>_. No_Job)(0 := Sync_All) \<rparr>"
    using c demo_live(1) by (simp add: reclaim_all_step_def demo_waiting_def)
  obtain s where s: "wait_run [(),(),()] 0 demo_waiting = Some s" and u: "is_unshare (place s 0)"
    using demo_waits by (auto split: option.splits)
  have w2: "whole_run (map (\<lambda>_. Wait_On 0) [(),(),()]) (?w\<lparr> sync := demo_waiting, job := (\<lambda>_. No_Job)(0 := Sync_All) \<rparr>)
      = ?w\<lparr> job := (\<lambda>_. No_Job)(0 := Sync_All), sync := s \<rparr>"
    using s by (subst run_wait) simp_all
  obtain e r sn where "place s 0 = Unshare e r sn" using u by (cases "place s 0") auto
  then show ?thesis
    unfolding demo_freed_def whole_run_append w1 w2 using c by (simp add: synchronize_step_def run_step_def run_chunk_def)
qed

lemma demo_freed_reachable: "reachable (whole_start 1) (whole_step 1) demo_freed"
proof -
  let ?w0 = "\<lparr> mem = new_mem demo_sys, sync = new_sync_sys, job = (\<lambda>_. No_Job) \<rparr> :: var_storage whole"
  have "stm_start demo_sys" unfolding stm_start_def demo_sys_def by (intro exI conjI) (auto simp: good_jobs_def)
  then have "whole_start 1 ?w0" by (auto simp: whole_start_def mem_start_def)
  then have w0: "reachable (whole_start 1) (whole_step 1) ?w0" by (rule reach_start)
  have "whole_run (map (\<lambda>_. Live_On 0) [(),(),(),(),(),(),(),()]) ?w0 = demo_registered_whole"
    by (subst run_lifetime [where s = demo_registered])
      (simp_all only: whole.simps demo_registered_run, simp_all add: demo_registered_whole_def new_mem_def demo_sys_def new_sys_def new_thread_def)
  then have "reachable (whole_start 1) (whole_step 1) demo_registered_whole"
    using whole_run_reachable [OF w0, of "map (\<lambda>_. Live_On 0) [(),(),(),(),(),(),(),()]"] by simp
  then show ?thesis
    unfolding demo_freed_def demo_committed_def by (intro whole_run_reachable) auto
qed

section \<open>Properties\<close>

text \<open>C5: The library refines the machine in which chunks run as soon as nobody is in their way: whatever threads register,
  run transactions, wait for grace periods and leave, every state of the memory is one that machine reaches, every state of
  the thread list is one the list reaches by itself, and the epoch in the node of each thread is the one its transaction announces.\<close>

theorem library_refines_reclamation:
  assumes "reachable (whole_start N) (whole_step N) w"
  shows "reachable mem_start mem_step (mem w) \<and> reachable (reg_start N) (reg_step N) (sync w)
    \<and> active (announced (sync w) t) = td_epoch (td (threads (base (mem w)) t))"
  using whole.reachable_inv [OF assms] by (simp add: whole_inv_def agree_def)

theorem library_refines_reclamation_witness:
  "reachable mem_start mem_step (mem demo_freed) \<and> freed (mem demo_freed) \<noteq> []"
  using library_refines_reclamation [OF demo_freed_reachable] demo_freed by simp

end
