(* ===== verification/Reentrant_Callbacks.thy ===== *)
theory Reentrant_Callbacks
  imports Quiescence_Buffer
begin

text \<open>
  Grace-period callbacks that run transactions. \<^verbatim>\<open>quiescence_buffer::do_first_epoch_callbacks\<close> invokes the
  callbacks of the oldest chunk and moves \<open>ring_begin\<close> behind them only when all have returned. A callback
  that destroys an object of the user may run a transaction (\<^verbatim>\<open>test/destructor_transaction.cpp\<close> does), whose
  commit appends to the same buffer and calls \<^verbatim>\<open>thread_data::reclaim\<close> again.

  \<open>body n c\<close> is what callback \<open>c\<close> does to the buffer: the epoch its transaction commits with and the
  callbacks that transaction registers, none when it runs no transaction or writes nothing. \<open>n\<close> is the fuel
  left, so that a callback need not do the same every time. The functions return the callbacks in the order
  they are started and, when the code returns within the fuel, the buffer it leaves. \<open>min_epoch\<close> is the result
  of \<open>synchronize_min_epoch\<close>.
\<close>

section \<open>Definitions\<close>

type_synonym 'cb callback_body = "nat \<Rightarrow> 'cb \<Rightarrow> epoch_t \<times> 'cb list"
type_synonym 'cb outcome = "'cb list \<times> 'cb quiescence_buffer option"

text \<open>Doing one thing after the other.\<close>

definition and_then :: "'cb outcome \<Rightarrow> ('cb quiescence_buffer \<Rightarrow> 'cb outcome) \<Rightarrow> 'cb outcome" where
  "and_then r f = (case r of
       (tr, None) \<Rightarrow> (tr, None)
     | (tr, Some q) \<Rightarrow> (tr @ fst (f q), snd (f q)))"

lemma and_then_cong [fundef_cong]:
  assumes "r = r'" and "\<And>q. snd r' = Some q \<Longrightarrow> f q = f' q"
  shows "and_then r f = and_then r' f'"
  using assms by (auto simp: and_then_def split: prod.splits option.splits)

function callbacks_from :: "'cb callback_body \<Rightarrow> epoch_t \<Rightarrow> nat \<Rightarrow> uword \<Rightarrow> uword \<Rightarrow> 'cb quiescence_buffer \<Rightarrow> 'cb outcome"
  and first_epoch_callbacks :: "'cb callback_body \<Rightarrow> epoch_t \<Rightarrow> nat \<Rightarrow> 'cb quiescence_buffer \<Rightarrow> 'cb outcome"
  and reclaim_loop :: "'cb callback_body \<Rightarrow> epoch_t \<Rightarrow> nat \<Rightarrow> 'cb quiescence_buffer \<Rightarrow> 'cb outcome"
  and commit_callbacks :: "'cb callback_body \<Rightarrow> epoch_t \<Rightarrow> nat \<Rightarrow> epoch_t \<times> 'cb list \<Rightarrow> 'cb quiescence_buffer \<Rightarrow> 'cb outcome"
where
  "callbacks_from body min_epoch n cur_idx fin q =
     (if cur_idx = fin then ([], Some q)
      else case n of
          0 \<Rightarrow> ([], None)
        | Suc m \<Rightarrow>
            (case qb_buffer q (qb_wrap q cur_idx) of
               Some (Callback c) \<Rightarrow>
                 and_then ([c], Some q) (\<lambda>q.
                 and_then (commit_callbacks body min_epoch m (body m c) q) (\<lambda>q.
                   callbacks_from body min_epoch m (cur_idx + 1) fin q))
             | _ \<Rightarrow> ([], None)))"
| "first_epoch_callbacks body min_epoch n q =
     (let cur_idx = qb_ring_begin q in
      case Option.bind (header_at q cur_idx) qh_size of
        None \<Rightarrow> ([], None)
      | Some cur_size \<Rightarrow>
          let fin = cur_idx + cur_size
          in and_then (callbacks_from body min_epoch n (cur_idx + 1) fin q)
               (\<lambda>q. ([], Some (q\<lparr> qb_ring_begin := qb_wrap q fin \<rparr>))))"
| "reclaim_loop body min_epoch n q =
     and_then (first_epoch_callbacks body min_epoch n q) (\<lambda>q.
       if \<not> qb_empty q \<and> (case front_epoch q of None \<Rightarrow> False | Some e \<Rightarrow> e < min_epoch)
       then (case n of 0 \<Rightarrow> ([], None) | Suc m \<Rightarrow> reclaim_loop body min_epoch m q)
       else ([], Some q))"
| "commit_callbacks body min_epoch n tx q =
     (let (full, q) = finalize_epoch (fst tx) (fold qb_emplace_back (snd tx) q)
      in if full then reclaim_loop body min_epoch n q else ([], Some q))"
  by pat_completeness auto
termination
  by (relation "measures [\<lambda>x. case x of Inl (Inl (b, e, n, _)) \<Rightarrow> n | Inl (Inr (b, e, n, _)) \<Rightarrow> n
        | Inr (Inl (b, e, n, _)) \<Rightarrow> n | Inr (Inr (b, e, n, _)) \<Rightarrow> n,
      \<lambda>x. case x of Inl (Inl _) \<Rightarrow> 0 | Inl (Inr _) \<Rightarrow> 1 | Inr (Inl _) \<Rightarrow> 2 | Inr (Inr _) \<Rightarrow> 3]")
    auto

declare callbacks_from.simps [simp del] first_epoch_callbacks.simps [simp del] reclaim_loop.simps [simp del]
  commit_callbacks.simps [simp del]

lemma and_then_simps [simp]:
  "and_then (tr, None) f = (tr, None)"
  "and_then (tr, Some q) f = (tr @ fst (f q), snd (f q))"
  by (simp_all add: and_then_def)

section \<open>Callbacks that register nothing\<close>

text \<open>Then the functions are those of \<open>Quiescence_Buffer\<close>.\<close>

lemma commit_nothing: "working_epoch_empty q \<Longrightarrow> commit_callbacks body min_epoch n (e, []) q = ([], Some q)"
  by (simp add: commit_callbacks.simps finalize_epoch_def)

lemma callbacks_from_run:
  assumes "\<And>m c. snd (body m c) = []" and "working_epoch_empty q"
  shows "run_callbacks q cur fin = Some cbs \<Longrightarrow> length cbs \<le> n \<Longrightarrow>
    callbacks_from body min_epoch n cur fin q = (cbs, Some q)"
proof (induction cbs arbitrary: cur n)
  case Nil
  then have "cur = fin"
    by (subst (asm) run_callbacks.simps) (auto split: if_splits option.splits quiescence_buf_elem.splits)
  then show ?case by (simp add: callbacks_from.simps)
next
  case (Cons c cbs)
  have c: "cur \<noteq> fin" "qb_buffer q (qb_wrap q cur) = Some (Callback c)" "run_callbacks q (cur + 1) fin = Some cbs"
    using Cons.prems(1) by (subst (asm) run_callbacks.simps; auto split: if_splits option.splits quiescence_buf_elem.splits)+
  obtain m where n: "n = Suc m" "length cbs \<le> m"
    using Cons.prems(2) by (cases n) auto
  have "body m c = (fst (body m c), [])"
    using assms(1) [of m c] by (cases "body m c") simp
  then have "commit_callbacks body min_epoch m (body m c) q = ([], Some q)"
    using commit_nothing [OF assms(2)] by metis
  then show ?case
    using c n Cons.IH [OF c(3) n(2)] by (subst callbacks_from.simps) simp
qed

lemma first_epoch_callbacks_plain:
  assumes "\<And>m c. snd (body m c) = []" and "working_epoch_empty q"
    and "do_first_epoch_callbacks q = Some (cbs, q')" and "length cbs \<le> n"
  shows "first_epoch_callbacks body min_epoch n q = (cbs, Some q')"
  using assms(3,4) callbacks_from_run [where body = body and q = q and n = n and min_epoch = min_epoch, OF assms(1,2)]
  by (auto simp: do_first_epoch_callbacks_def first_epoch_callbacks.simps Let_def split: option.splits)

section \<open>Callbacks that commit\<close>

text \<open>The front of the buffer as the loop finds it.\<close>

lemma front_chunk:
  assumes "qb_rep q ((e, c # cbs) # cs) w"
  obtains h where "header_at q (qb_ring_begin q) = Some h" "qh_size h = Some (chunk_size (c # cbs))"
    and "qb_buffer q (qb_wrap q (qb_ring_begin q + 1)) = Some (Callback c)"
    and "qb_ring_begin q + 1 \<noteq> qb_ring_begin q + chunk_size (c # cbs)"
proof -
  obtain k p where h: "qb_holds q k (qb_elems p ((e, c # cbs) # cs) w)" "queue_slots ((e, c # cbs) # cs) w < 2 ^ k"
    using assms by (rule qb_rep_cases)
  have k: "k < 64" "qb_last_valid_index q = mask k"
    using h(1) by (simp_all add: qb_holds_def)
  have b: "qb_buffer q (qb_pos k (qb_ring_begin q) 1) = Some (Callback c)"
    using h(1) unfolding qb_holds_def by (auto simp: qb_elems_def dest!: spec [of _ 1])
  have "qb_wrap q (qb_ring_begin q + 1) = qb_pos k (qb_ring_begin q) 1"
    by (simp add: qb_wrap_take_bit [OF k(2)] qb_pos_def)
  moreover have "chunk_size (c # cbs) \<noteq> 1"
    using chunk_size_eq_1 [OF k(1), of "c # cbs"] h(2) by (simp add: queue_slots_def)
  ultimately show thesis
    using that [OF header_at_front [OF h(1)]] b by simp
qed

lemma queue_slots_commit:
  "queue_slots (cs @ [(e, w)]) [] = queue_slots cs [] + Suc (length w)"
  by (simp add: queue_slots_def)

lemma queue_slots_working: "queue_slots cs w = queue_slots cs [] + length w"
  by (simp add: queue_slots_def)

lemma push_many_small:
  assumes "qb_rep q cs []" and "queue_slots cs [] + length xs < 2 ^ 62"
  shows "qb_rep (fold qb_emplace_back xs q) cs xs \<and> qb_room (fold qb_emplace_back xs q)"
proof -
  have "qb_rep (fold qb_emplace_back (take i xs) q) cs (take i xs) \<and> qb_room (fold qb_emplace_back (take i xs) q)"
    if "i \<le> length xs" for i
    using that
  proof (induction i)
    case 0
    show ?case
      using assms qb_room_slots [OF assms(1)] by simp
  next
    case (Suc i)
    then have i: "i < length xs" "qb_rep (fold qb_emplace_back (take i xs) q) cs (take i xs)"
      "qb_room (fold qb_emplace_back (take i xs) q)"
      by simp_all
    have r: "qb_rep (fold qb_emplace_back (take (Suc i) xs) q) cs (take (Suc i) xs)"
      using qb.rep_push [OF i(2,3), of "xs ! i"] by (simp add: take_Suc_conv_app_nth [OF i(1)])
    show ?case
      using r by (intro conjI qb_room_slots [OF r])
        (use assms(2) i(1) in \<open>simp_all add: queue_slots_working [of cs "take (Suc i) xs"]\<close>)
  qed
  from this [of "length xs"] show ?thesis by simp
qed

text \<open>What the commit inside the callback leaves: one more chunk, and a reclaim.\<close>

lemma commit_reclaims:
  assumes r: "qb_rep q cs []" and tx: "snd tx \<noteq> []" and l: "1024 \<le> queue_slots cs []"
    and room: "queue_slots cs [] + length (snd tx) < 2 ^ 62"
  obtains q' where "qb_rep q' (cs @ [tx]) []"
    and "commit_callbacks body min_epoch n tx q = reclaim_loop body min_epoch n q'"
proof -
  let ?q = "fold qb_emplace_back (snd tx) q"
  have full: "qb_rep ?q cs (snd tx)" and rm: "qb_room ?q"
    using push_many_small [OF r room] by simp_all
  note fin = finalize_epoch_rep [OF full tx rm, of "fst tx"]
  have "fst (finalize_epoch (fst tx) ?q)"
    using fin(2) l queue_slots_commit [of cs "fst tx" "snd tx"] by simp
  then have "commit_callbacks body min_epoch n tx q = reclaim_loop body min_epoch n (snd (finalize_epoch (fst tx) ?q))"
    by (cases "finalize_epoch (fst tx) ?q") (simp add: commit_callbacks.simps)
  then show thesis
    using that fin(1) by simp
qed

lemma first_epoch_never_ends:
  assumes "\<And>m. snd (body m c) \<noteq> [] \<and> length (snd (body m c)) \<le> B"
  shows "qb_rep q ((e, c # cbs) # cs) [] \<Longrightarrow> 1024 \<le> queue_slots ((e, c # cbs) # cs) [] \<Longrightarrow>
    queue_slots ((e, c # cbs) # cs) [] + n * Suc B < 2 ^ 62 \<Longrightarrow>
    first_epoch_callbacks body min_epoch n q = (replicate n c, None)"
proof (induction n arbitrary: q cs)
  case 0
  obtain h where "header_at q (qb_ring_begin q) = Some h" "qh_size h = Some (chunk_size (c # cbs))"
    "qb_ring_begin q + 1 \<noteq> qb_ring_begin q + chunk_size (c # cbs)"
    using front_chunk [OF 0(1)] by metis
  then show ?case
    by (simp add: first_epoch_callbacks.simps callbacks_from.simps Let_def)
next
  case (Suc m)
  obtain h where h: "header_at q (qb_ring_begin q) = Some h" "qh_size h = Some (chunk_size (c # cbs))"
    "qb_buffer q (qb_wrap q (qb_ring_begin q + 1)) = Some (Callback c)"
    "qb_ring_begin q + 1 \<noteq> qb_ring_begin q + chunk_size (c # cbs)"
    using front_chunk [OF Suc.prems(1)] by metis
  let ?cs = "(e, c # cbs) # cs" and ?tx = "body m c"
  have tx: "snd ?tx \<noteq> []" "length (snd ?tx) \<le> B"
    using assms [of m] by simp_all
  then have "queue_slots ?cs [] + length (snd ?tx) < 2 ^ 62"
    using Suc.prems(3) by simp
  then obtain q' where q': "qb_rep q' (?cs @ [?tx]) []"
    "commit_callbacks body min_epoch m ?tx q = reclaim_loop body min_epoch m q'"
    using commit_reclaims [OF Suc.prems(1) tx(1) Suc.prems(2)] by metis
  have s: "queue_slots (?cs @ [?tx]) [] = queue_slots ?cs [] + Suc (length (snd ?tx))"
    by (metis queue_slots_commit prod.collapse)
  have "first_epoch_callbacks body min_epoch m q' = (replicate m c, None)"
  proof (rule Suc.IH)
    show "qb_rep q' ((e, c # cbs) # (cs @ [?tx])) []" using q'(1) by simp
    show "1024 \<le> queue_slots ((e, c # cbs) # (cs @ [?tx])) []" using s Suc.prems(2) by simp
    show "queue_slots ((e, c # cbs) # (cs @ [?tx])) [] + m * Suc B < 2 ^ 62" using s Suc.prems(3) tx(2) by simp
  qed
  then have "commit_callbacks body min_epoch m ?tx q = (replicate m c, None)"
    by (simp add: q'(2) reclaim_loop.simps)
  then show ?case
    using h by (simp add: first_epoch_callbacks.simps callbacks_from.simps [of body min_epoch "Suc m"] Let_def)
qed

section \<open>Properties\<close>

text \<open>C21: Callbacks that register nothing are run as \<open>do_first_epoch_callbacks\<close> says. But once the buffer has reached the
  reclaim limit, a first callback whose transaction registers a callback of its own is started again before it
  has returned, and again: as far as the address space reaches, the code does nothing but start that same
  callback, and never returns. An object destroyed by it is destroyed over and over.\<close>

theorem reentrant_callback_starts_again:
  assumes "qb_rep q ((e, c # cbs) # cs) []" and "1024 \<le> queue_slots ((e, c # cbs) # cs) []"
    and "\<And>m. snd (body m c) \<noteq> [] \<and> length (snd (body m c)) \<le> B"
    and "queue_slots ((e, c # cbs) # cs) [] + n * Suc B < 2 ^ 62"
  shows "first_epoch_callbacks body min_epoch n q = (replicate n c, None)
    \<and> (\<exists>q'. do_first_epoch_callbacks q = Some (c # cbs, q')
         \<and> first_epoch_callbacks (\<lambda>m c. (0, [])) min_epoch (Suc (length cbs)) q = (c # cbs, Some q'))"
proof
  show "first_epoch_callbacks body min_epoch n q = (replicate n c, None)"
    by (rule first_epoch_never_ends [where body = body, OF assms(3)]) (rule assms)+
  have w: "working_epoch_empty q"
    using working_epoch_empty_rep [OF assms(1)] by simp
  obtain q' where "do_first_epoch_callbacks q = Some (c # cbs, q')"
    using assms(1) by (rule do_first_epoch_callbacks_rep)
  then show "\<exists>q'. do_first_epoch_callbacks q = Some (c # cbs, q')
      \<and> first_epoch_callbacks (\<lambda>m c. (0, [])) min_epoch (Suc (length cbs)) q = (c # cbs, Some q')"
    using first_epoch_callbacks_plain [OF _ w, of "\<lambda>m c. (0, [])" "c # cbs" q'] by auto
qed

text \<open>One transaction that deferred 1100 callbacks; the first runs a transaction that defers one.\<close>

theorem reentrant_callback_starts_again_witness:
  "\<exists>q. first_epoch_callbacks (\<lambda>m c. (9, ''y'')) 9 3 q = (''xxx'', None)
     \<and> qb_rep q [(7, replicate 1100 (CHR ''x''))] []"
proof -
  let ?xs = "replicate 1100 CHR ''x''"
  have new: "qb_rep (qb_new :: char quiescence_buffer) [] []" by (rule qb_new_rep)
  have r: "qb_rep (fold qb_emplace_back ?xs qb_new) [] ?xs" and "qb_room (fold qb_emplace_back ?xs qb_new)"
    using push_many_small [OF new, of ?xs] by (simp_all add: queue_slots_def)
  from qb.rep_finish [OF r _ this(2), of 7]
  obtain q where q: "qb_rep q [(7, ?xs)] []" by auto
  have xs: "?xs = CHR ''x'' # replicate 1099 CHR ''x''"
    by (simp flip: replicate_Suc)
  have q1: "qb_rep q [(7, CHR ''x'' # replicate 1099 CHR ''x'')] []"
    using q xs by simp
  have "first_epoch_callbacks (\<lambda>m c. (9, ''y'')) 9 3 q = (replicate 3 CHR ''x'', None)"
    using reentrant_callback_starts_again [OF q1, of "\<lambda>m c. (9, ''y'')" 1 3 9]
    by (simp add: queue_slots_def)
  then show ?thesis
    using q by (auto simp: numeral_3_eq_3)
qed

end
