(* ===== verification/Backoff.thy ===== *)
theory Backoff
  imports Versions
begin

text \<open>
  The delays of \<^verbatim>\<open>detail/backoff.hpp\<close>. The strategies sleep or yield and change nothing the library reads;
  what they keep is the length of the next delay, which is modelled. The default strategy is \<open>yield\<close>, which
  keeps nothing.
\<close>

section \<open>Definitions\<close>

text \<open>\<open>exponential_delay<Interval, Min, Max>\<close>: \<open>min_delay\<close> and \<open>max_delay\<close> are the template arguments, with their two static assertions.\<close>

record exponential_delay =
  interval :: uword

definition delay_static_asserts :: "uword \<Rightarrow> uword \<Rightarrow> bool" where
  "delay_static_asserts min_delay max_delay \<longleftrightarrow> min_delay \<le> max_delay \<and> max_delay AND push_bit (8 * 8 - 1) 1 = 0"

definition delay_new :: "uword \<Rightarrow> exponential_delay" where
  "delay_new min_delay = \<lparr> interval = min_delay \<rparr>"

text \<open>A call sleeps for the first result.\<close>

definition delay_call :: "uword \<Rightarrow> exponential_delay \<Rightarrow> uword \<times> exponential_delay" where
  "delay_call max_delay d =
     (let slept = interval d;
          d1 = d\<lparr> interval := push_bit 1 (interval d) \<rparr>;
          d2 = (if interval d1 > max_delay then d1\<lparr> interval := max_delay \<rparr> else d1)
      in (slept, d2))"

definition delay_reset :: "uword \<Rightarrow> exponential_delay \<Rightarrow> exponential_delay" where
  "delay_reset min_delay d = d\<lparr> interval := min_delay \<rparr>"

text \<open>The delays of \<open>n\<close> calls in a row.\<close>

primrec delay_calls :: "uword \<Rightarrow> nat \<Rightarrow> exponential_delay \<Rightarrow> uword list \<times> exponential_delay" where
  "delay_calls max_delay 0 d = ([], d)"
| "delay_calls max_delay (Suc n) d =
     (let (slept, d1) = delay_call max_delay d; (rest, d2) = delay_calls max_delay n d1 in (slept # rest, d2))"

section \<open>Lemmas\<close>

lemma static_asserts_bound: "delay_static_asserts min_delay max_delay \<Longrightarrow> unat min_delay \<le> unat max_delay \<and> unat max_delay < 2 ^ 63"
proof
  assume a: "delay_static_asserts min_delay max_delay"
  then show "unat min_delay \<le> unat max_delay"
    by (simp add: delay_static_asserts_def word_le_nat_alt)
  have "\<not> locked max_delay"
    using a by (simp add: delay_static_asserts_def locked_def lock_bit_def)
  then show "unat max_delay < 2 ^ 63"
    by (simp add: locked_iff_ge lock_bit_val word_le_nat_alt not_le)
qed

lemma min_double: "min m (min m (2 * a) * 2 ^ j) = min m (a * 2 ^ Suc j)" for m a :: nat
proof (cases "2 * a \<le> m")
  case False
  have "1 \<le> (2 :: nat) ^ j" by simp
  then have "m \<le> m * 2 ^ j" "2 * a \<le> 2 * a * 2 ^ j"
    by (metis mult_le_mono2 mult.right_neutral)+
  moreover have "2 * a * 2 ^ j = a * 2 ^ Suc j" by simp
  ultimately have "m \<le> m * 2 ^ j" "m \<le> a * 2 ^ Suc j"
    using False by linarith+
  then show ?thesis using False by (simp add: min_def)
qed (simp add: min_def)

lemma delay_call_interval:
  assumes "unat (interval d) \<le> unat max_delay" "unat max_delay < 2 ^ 63"
  shows "unat (interval (snd (delay_call max_delay d))) = min (unat max_delay) (2 * unat (interval d))"
proof -
  have "unat (push_bit 1 (interval d)) = 2 * unat (interval d)"
    using assms by (simp add: push_bit_eq_mult unat_word_ariths)
  then show ?thesis
    by (auto simp: delay_call_def Let_def word_less_nat_alt min_def)
qed

lemma delay_calls_interval:
  assumes "unat max_delay < 2 ^ 63"
  shows "unat (interval d) \<le> unat max_delay \<Longrightarrow>
    map unat (fst (delay_calls max_delay n d)) = map (\<lambda>i. min (unat max_delay) (unat (interval d) * 2 ^ i)) [0..<n]
    \<and> unat (interval (snd (delay_calls max_delay n d))) \<le> unat max_delay"
proof (induction n arbitrary: d)
  case (Suc n)
  let ?d = "snd (delay_call max_delay d)"
  have i: "unat (interval ?d) = min (unat max_delay) (2 * unat (interval d))"
    by (rule delay_call_interval [OF Suc.prems assms])
  have f: "fst (delay_calls max_delay (Suc n) d) = interval d # fst (delay_calls max_delay n ?d)"
    "snd (delay_calls max_delay (Suc n) d) = snd (delay_calls max_delay n ?d)"
    by (simp_all add: delay_call_def Let_def split: prod.splits)
  have u: "[0..<Suc n] = 0 # map Suc [0..<n]"
    by (simp add: upt_conv_Cons map_Suc_upt del: upt_Suc)
  have ih: "map unat (fst (delay_calls max_delay n ?d)) = map (\<lambda>i. min (unat max_delay) (unat (interval ?d) * 2 ^ i)) [0..<n]"
    "unat (interval (snd (delay_calls max_delay n ?d))) \<le> unat max_delay"
    using Suc.IH [of ?d] i by simp_all
  show ?case
    unfolding f u using ih Suc.prems i min_double [of "unat max_delay" "unat (interval d)"]
    by (simp add: comp_def)
qed simp

section \<open>Properties\<close>

text \<open>C37: The delays double from \<open>min_delay\<close> on until they reach \<open>max_delay\<close> and stay there, whatever the number of calls: the
  shift never overflows, which is what the second static assertion is for.\<close>

theorem delays_double_up_to_max:
  assumes "delay_static_asserts min_delay max_delay"
  shows "map unat (fst (delay_calls max_delay n (delay_new min_delay))) = map (\<lambda>i. min (unat max_delay) (unat min_delay * 2 ^ i)) [0..<n]"
  using static_asserts_bound [OF assms] delay_calls_interval [of max_delay "delay_new min_delay" n] by (simp add: delay_new_def)

theorem delays_double_up_to_max_witness:
  "map unat (fst (delay_calls 100 5 (delay_new 10))) = [10, 20, 40, 80, 100]"
proof -
  have "delay_static_asserts 10 100" by (simp add: delay_static_asserts_def)
  from delays_double_up_to_max [OF this, of 5] show ?thesis by (simp add: upt_rec)
qed

end
