(* ===== verification/Perf_Stats.thy ===== *)
theory Perf_Stats
  imports Prelude
begin

text \<open>
  The counters of \<^verbatim>\<open>detail/perf_stats.hpp\<close>, which exist when \<^verbatim>\<open>LSTM_PERF_STATS_ON\<close> is defined: a record of
  64-bit counters per thread, which wrap around, and the list of the records threads publish when they end. A
  rate divides a counter by a \<open>float\<close>; that division is a parameter \<open>fdiv\<close>. The report is the list of its
  lines, a label and a value each; the formatting of the numbers is that of the standard library.
\<close>

section \<open>The record of a thread\<close>

record perf_stats_tls_record =
  rec_reads :: uword
  rec_writes :: uword
  rec_max_read_size :: uword
  rec_max_write_size :: uword
  rec_quiesces :: uword
  rec_user_failures :: uword
  rec_failures :: uword
  rec_successes :: uword
  rec_bloom_collisions :: uword
  rec_bloom_successes :: uword
  rec_backoffs :: uword

definition new_record :: perf_stats_tls_record where
  "new_record = \<lparr> rec_reads = 0, rec_writes = 0, rec_max_read_size = 0, rec_max_write_size = 0, rec_quiesces = 0,
     rec_user_failures = 0, rec_failures = 0, rec_successes = 0, rec_bloom_collisions = 0, rec_bloom_successes = 0, rec_backoffs = 0 \<rparr>"

text \<open>Counters computed from others.\<close>

definition rec_internal_failures :: "perf_stats_tls_record \<Rightarrow> uword" where
  "rec_internal_failures r = rec_failures r - rec_user_failures r"

definition rec_transactions :: "perf_stats_tls_record \<Rightarrow> uword" where
  "rec_transactions r = rec_failures r + rec_successes r"

definition rec_bloom_checks :: "perf_stats_tls_record \<Rightarrow> uword" where
  "rec_bloom_checks r = rec_bloom_successes r + rec_bloom_collisions r"

type_synonym 'f float_div = "uword \<Rightarrow> uword \<Rightarrow> 'f"

definition rec_success_rate :: "'f float_div \<Rightarrow> perf_stats_tls_record \<Rightarrow> 'f" where
  "rec_success_rate fdiv r = fdiv (rec_successes r) (rec_transactions r)"

definition rec_failure_rate :: "'f float_div \<Rightarrow> perf_stats_tls_record \<Rightarrow> 'f" where
  "rec_failure_rate fdiv r = fdiv (rec_failures r) (rec_transactions r)"

definition rec_internal_failure_rate :: "'f float_div \<Rightarrow> perf_stats_tls_record \<Rightarrow> 'f" where
  "rec_internal_failure_rate fdiv r = fdiv (rec_internal_failures r) (rec_transactions r)"

definition rec_user_failure_rate :: "'f float_div \<Rightarrow> perf_stats_tls_record \<Rightarrow> 'f" where
  "rec_user_failure_rate fdiv r = fdiv (rec_user_failures r) (rec_transactions r)"

definition rec_bloom_collision_rate :: "'f float_div \<Rightarrow> perf_stats_tls_record \<Rightarrow> 'f" where
  "rec_bloom_collision_rate fdiv r = fdiv (rec_bloom_collisions r) (rec_bloom_checks r)"

definition rec_quiesce_rate :: "'f float_div \<Rightarrow> perf_stats_tls_record \<Rightarrow> 'f" where
  "rec_quiesce_rate fdiv r = fdiv (rec_quiesces r) (rec_transactions r)"

definition rec_average_read_size :: "'f float_div \<Rightarrow> perf_stats_tls_record \<Rightarrow> 'f" where
  "rec_average_read_size fdiv r = fdiv (rec_reads r) (rec_transactions r)"

definition rec_average_write_size :: "'f float_div \<Rightarrow> perf_stats_tls_record \<Rightarrow> 'f" where
  "rec_average_write_size fdiv r = fdiv (rec_writes r) (rec_transactions r)"

definition rec_backoff_rate :: "'f float_div \<Rightarrow> perf_stats_tls_record \<Rightarrow> 'f" where
  "rec_backoff_rate fdiv r = fdiv (rec_backoffs r) (rec_transactions r)"

datatype 'f report_value = Count uword | Rate 'f

definition record_results :: "'f float_div \<Rightarrow> perf_stats_tls_record \<Rightarrow> (string \<times> 'f report_value) list" where
  "record_results fdiv r = [
       (''Transactions'', Count (rec_transactions r)),
       (''Success Rate'', Rate (rec_success_rate fdiv r)),
       (''Failure Rate'', Rate (rec_failure_rate fdiv r)),
       (''Quiesce Rate'', Rate (rec_quiesce_rate fdiv r)),
       (''Backoff Rate'', Rate (rec_backoff_rate fdiv r)),
       (''Average Write Size'', Rate (rec_average_write_size fdiv r)),
       (''Average Read Size'', Rate (rec_average_read_size fdiv r)),
       (''Max Write Size'', Count (rec_max_write_size r)),
       (''Max Read Size'', Count (rec_max_read_size r)),
       (''Bloom Collision Rate'', Rate (rec_bloom_collision_rate fdiv r)),
       (''Reads'', Count (rec_reads r)),
       (''Writes'', Count (rec_writes r)),
       (''Quiesces'', Count (rec_quiesces r)),
       (''Backoffs'', Count (rec_backoffs r)),
       (''Successes'', Count (rec_successes r)),
       (''Failures'', Count (rec_failures r)),
       (''Internal Failure Rate'', Rate (rec_internal_failure_rate fdiv r)),
       (''User Failure Rate'', Rate (rec_user_failure_rate fdiv r)),
       (''Internal Failures'', Count (rec_internal_failures r)),
       (''User Failures'', Count (rec_user_failures r)),
       (''Bloom Collisions'', Count (rec_bloom_collisions r)),
       (''Bloom Successes'', Count (rec_bloom_successes r)),
       (''Bloom Checks'', Count (rec_bloom_checks r))]"

section \<open>All threads\<close>

text \<open>\<open>perf_stats\<close> keeps the published records in order.\<close>

type_synonym perf_stats = "perf_stats_tls_record list"

fun total_loop :: "(perf_stats_tls_record \<Rightarrow> uword) \<Rightarrow> uword \<Rightarrow> perf_stats \<Rightarrow> uword" where
  "total_loop accessor result [] = result"
| "total_loop accessor result (tid_record # records) = total_loop accessor (result + accessor tid_record) records"

definition total_count :: "(perf_stats_tls_record \<Rightarrow> uword) \<Rightarrow> perf_stats \<Rightarrow> uword" where
  "total_count accessor records = total_loop accessor 0 records"

fun max_loop :: "(perf_stats_tls_record \<Rightarrow> uword) \<Rightarrow> uword \<Rightarrow> perf_stats \<Rightarrow> uword" where
  "max_loop accessor result [] = result"
| "max_loop accessor result (tid_record # records) = max_loop accessor (max result (accessor tid_record)) records"

definition max_count :: "(perf_stats_tls_record \<Rightarrow> uword) \<Rightarrow> perf_stats \<Rightarrow> uword" where
  "max_count accessor records = max_loop accessor 0 records"

definition publish_record :: "perf_stats_tls_record \<Rightarrow> perf_stats \<Rightarrow> perf_stats" where
  "publish_record r s = s @ [r]"

definition thread_count :: "perf_stats \<Rightarrow> nat" where
  "thread_count s = length s"

definition stats_clear :: "perf_stats \<Rightarrow> perf_stats" where
  "stats_clear s = []"

definition all_reads :: "perf_stats \<Rightarrow> uword" where
  "all_reads s = total_count rec_reads s"

definition all_writes :: "perf_stats \<Rightarrow> uword" where
  "all_writes s = total_count rec_writes s"

definition all_max_read_size :: "perf_stats \<Rightarrow> uword" where
  "all_max_read_size s = max_count rec_max_read_size s"

definition all_max_write_size :: "perf_stats \<Rightarrow> uword" where
  "all_max_write_size s = max_count rec_max_write_size s"

definition all_quiesces :: "perf_stats \<Rightarrow> uword" where
  "all_quiesces s = total_count rec_quiesces s"

definition all_user_failures :: "perf_stats \<Rightarrow> uword" where
  "all_user_failures s = total_count rec_user_failures s"

definition all_failures :: "perf_stats \<Rightarrow> uword" where
  "all_failures s = total_count rec_failures s"

definition all_successes :: "perf_stats \<Rightarrow> uword" where
  "all_successes s = total_count rec_successes s"

definition all_bloom_collisions :: "perf_stats \<Rightarrow> uword" where
  "all_bloom_collisions s = total_count rec_bloom_collisions s"

definition all_bloom_successes :: "perf_stats \<Rightarrow> uword" where
  "all_bloom_successes s = total_count rec_bloom_successes s"

definition all_backoffs :: "perf_stats \<Rightarrow> uword" where
  "all_backoffs s = total_count rec_backoffs s"

definition all_internal_failures :: "perf_stats \<Rightarrow> uword" where
  "all_internal_failures s = all_failures s - all_user_failures s"

definition all_transactions :: "perf_stats \<Rightarrow> uword" where
  "all_transactions s = all_failures s + all_successes s"

definition all_bloom_checks :: "perf_stats \<Rightarrow> uword" where
  "all_bloom_checks s = all_bloom_successes s + all_bloom_collisions s"

definition all_success_rate :: "'f float_div \<Rightarrow> perf_stats \<Rightarrow> 'f" where
  "all_success_rate fdiv s = fdiv (all_successes s) (all_transactions s)"

definition all_failure_rate :: "'f float_div \<Rightarrow> perf_stats \<Rightarrow> 'f" where
  "all_failure_rate fdiv s = fdiv (all_failures s) (all_transactions s)"

definition all_internal_failure_rate :: "'f float_div \<Rightarrow> perf_stats \<Rightarrow> 'f" where
  "all_internal_failure_rate fdiv s = fdiv (all_internal_failures s) (all_transactions s)"

definition all_user_failure_rate :: "'f float_div \<Rightarrow> perf_stats \<Rightarrow> 'f" where
  "all_user_failure_rate fdiv s = fdiv (all_user_failures s) (all_transactions s)"

definition all_bloom_collision_rate :: "'f float_div \<Rightarrow> perf_stats \<Rightarrow> 'f" where
  "all_bloom_collision_rate fdiv s = fdiv (all_bloom_collisions s) (all_bloom_checks s)"

definition all_quiesce_rate :: "'f float_div \<Rightarrow> perf_stats \<Rightarrow> 'f" where
  "all_quiesce_rate fdiv s = fdiv (all_quiesces s) (all_transactions s)"

definition all_average_read_size :: "'f float_div \<Rightarrow> perf_stats \<Rightarrow> 'f" where
  "all_average_read_size fdiv s = fdiv (all_reads s) (all_transactions s)"

definition all_average_write_size :: "'f float_div \<Rightarrow> perf_stats \<Rightarrow> 'f" where
  "all_average_write_size fdiv s = fdiv (all_writes s) (all_transactions s)"

definition all_backoff_rate :: "'f float_div \<Rightarrow> perf_stats \<Rightarrow> 'f" where
  "all_backoff_rate fdiv s = fdiv (all_backoffs s) (all_transactions s)"

text \<open>The report; with \<open>per_thread\<close> the report of each thread follows under its number.\<close>

definition stats_results :: "'f float_div \<Rightarrow> bool \<Rightarrow> perf_stats \<Rightarrow> (string \<times> 'f report_value) list \<times> (nat \<times> (string \<times> 'f report_value) list) list" where
  "stats_results fdiv per_thread s = ([
       (''Transactions'', Count (all_transactions s)),
       (''Success Rate'', Rate (all_success_rate fdiv s)),
       (''Failure Rate'', Rate (all_failure_rate fdiv s)),
       (''Quiesce Rate'', Rate (all_quiesce_rate fdiv s)),
       (''Backoff Rate'', Rate (all_backoff_rate fdiv s)),
       (''Average Write Size'', Rate (all_average_write_size fdiv s)),
       (''Average Read Size'', Rate (all_average_read_size fdiv s)),
       (''Max Write Size'', Count (all_max_write_size s)),
       (''Max Read Size'', Count (all_max_read_size s)),
       (''Bloom Collision Rate'', Rate (all_bloom_collision_rate fdiv s)),
       (''Reads'', Count (all_reads s)),
       (''Writes'', Count (all_writes s)),
       (''Quiesces'', Count (all_quiesces s)),
       (''Backoffs'', Count (all_backoffs s)),
       (''Successes'', Count (all_successes s)),
       (''Failures'', Count (all_failures s)),
       (''Internal Failure Rate'', Rate (all_internal_failure_rate fdiv s)),
       (''User Failure Rate'', Rate (all_user_failure_rate fdiv s)),
       (''Internal Failures'', Count (all_internal_failures s)),
       (''User Failures'', Count (all_user_failures s)),
       (''Bloom Collisions'', Count (all_bloom_collisions s)),
       (''Bloom Successes'', Count (all_bloom_successes s)),
       (''Bloom Checks'', Count (all_bloom_checks s))],
     if per_thread then map (\<lambda>i. (i, record_results fdiv (s ! i))) [0..<length s] else [])"

section \<open>Counting\<close>

text \<open>The macros the library counts with; \<open>Publish_Record\<close> is the end of a thread.\<close>

datatype perf_event =
    Reads uword
  | Writes uword
  | Max_Read_Size uword
  | Max_Write_Size uword
  | Quiesces
  | User_Failures
  | Failures
  | Successes
  | Bloom_Collisions
  | Bloom_Successes
  | Backoffs
  | Publish_Record

record perf_sys =
  tls_record :: "nat \<Rightarrow> perf_stats_tls_record"
  published :: perf_stats

primrec record_event :: "perf_event \<Rightarrow> perf_stats_tls_record \<Rightarrow> perf_stats_tls_record" where
  "record_event (Reads amt) r = r\<lparr> rec_reads := rec_reads r + amt \<rparr>"
| "record_event (Writes amt) r = r\<lparr> rec_writes := rec_writes r + amt \<rparr>"
| "record_event (Max_Read_Size amt) r = r\<lparr> rec_max_read_size := max (rec_max_read_size r) amt \<rparr>"
| "record_event (Max_Write_Size amt) r = r\<lparr> rec_max_write_size := max (rec_max_write_size r) amt \<rparr>"
| "record_event Quiesces r = r\<lparr> rec_quiesces := rec_quiesces r + 1 \<rparr>"
| "record_event User_Failures r = r\<lparr> rec_user_failures := rec_user_failures r + 1 \<rparr>"
| "record_event Failures r = r\<lparr> rec_failures := rec_failures r + 1 \<rparr>"
| "record_event Successes r = r\<lparr> rec_successes := rec_successes r + 1 \<rparr>"
| "record_event Bloom_Collisions r = r\<lparr> rec_bloom_collisions := rec_bloom_collisions r + 1 \<rparr>"
| "record_event Bloom_Successes r = r\<lparr> rec_bloom_successes := rec_bloom_successes r + 1 \<rparr>"
| "record_event Backoffs r = r\<lparr> rec_backoffs := rec_backoffs r + 1 \<rparr>"
| "record_event Publish_Record r = new_record"

definition perf_step :: "nat \<times> perf_event \<Rightarrow> perf_sys \<Rightarrow> perf_sys" where
  "perf_step = (\<lambda>(t, ev) s.
     s\<lparr> tls_record := (tls_record s)(t := record_event ev (tls_record s t)),
        published := (if ev = Publish_Record then publish_record (tls_record s t) (published s) else published s) \<rparr>)"

definition new_perf_sys :: perf_sys where
  "new_perf_sys = \<lparr> tls_record = (\<lambda>_. new_record), published = [] \<rparr>"

section \<open>Lemmas\<close>

lemma total_loop_sum: "total_loop f r s = r + sum_list (map f s)"
  by (induction f r s rule: total_loop.induct) (simp_all add: add.assoc)

lemma total_count_sum: "total_count f s = sum_list (map f s)"
  by (simp add: total_count_def total_loop_sum)

lemma total_transactions: "sum_list (map rec_transactions s) = sum_list (map rec_failures s) + sum_list (map rec_successes s)"
  by (induction s) (simp_all add: rec_transactions_def)

text \<open>The counter that adds up, and what an event adds to it.\<close>

datatype perf_counter = C_Reads | C_Writes | C_Quiesces | C_User_Failures | C_Failures | C_Successes
  | C_Bloom_Collisions | C_Bloom_Successes | C_Backoffs

primrec accessor_of :: "perf_counter \<Rightarrow> perf_stats_tls_record \<Rightarrow> uword" where
  "accessor_of C_Reads = rec_reads"
| "accessor_of C_Writes = rec_writes"
| "accessor_of C_Quiesces = rec_quiesces"
| "accessor_of C_User_Failures = rec_user_failures"
| "accessor_of C_Failures = rec_failures"
| "accessor_of C_Successes = rec_successes"
| "accessor_of C_Bloom_Collisions = rec_bloom_collisions"
| "accessor_of C_Bloom_Successes = rec_bloom_successes"
| "accessor_of C_Backoffs = rec_backoffs"

primrec amount :: "perf_counter \<Rightarrow> perf_event \<Rightarrow> uword" where
  "amount C_Reads ev = (case ev of Reads amt \<Rightarrow> amt | _ \<Rightarrow> 0)"
| "amount C_Writes ev = (case ev of Writes amt \<Rightarrow> amt | _ \<Rightarrow> 0)"
| "amount C_Quiesces ev = (case ev of Quiesces \<Rightarrow> 1 | _ \<Rightarrow> 0)"
| "amount C_User_Failures ev = (case ev of User_Failures \<Rightarrow> 1 | _ \<Rightarrow> 0)"
| "amount C_Failures ev = (case ev of Failures \<Rightarrow> 1 | _ \<Rightarrow> 0)"
| "amount C_Successes ev = (case ev of Successes \<Rightarrow> 1 | _ \<Rightarrow> 0)"
| "amount C_Bloom_Collisions ev = (case ev of Bloom_Collisions \<Rightarrow> 1 | _ \<Rightarrow> 0)"
| "amount C_Bloom_Successes ev = (case ev of Bloom_Successes \<Rightarrow> 1 | _ \<Rightarrow> 0)"
| "amount C_Backoffs ev = (case ev of Backoffs \<Rightarrow> 1 | _ \<Rightarrow> 0)"

lemma new_record_zero [simp]: "accessor_of k new_record = 0"
  by (cases k) (simp_all add: new_record_def)

lemma amount_publish: "amount k Publish_Record = 0"
  by (cases k) simp_all

lemma record_event_amount:
  "ev \<noteq> Publish_Record \<Longrightarrow> accessor_of k (record_event ev r) = accessor_of k r + amount k ev"
  by (cases k; cases ev) simp_all

text \<open>What threads hold and what they have published.\<close>

definition grand_total :: "nat \<Rightarrow> perf_counter \<Rightarrow> perf_sys \<Rightarrow> uword" where
  "grand_total N k s = total_count (accessor_of k) (published s) + (\<Sum>t < N. accessor_of k (tls_record s t))"

lemma sum_upd: "t < (N :: nat) \<Longrightarrow> (\<Sum>u < N. g ((f(t := x)) u)) = (\<Sum>u < N. g (f u)) - g (f t) + (g x :: uword)"
proof -
  assume t: "t < N"
  have "(\<Sum>u \<in> {..<N} - {t}. g ((f(t := x)) u)) = (\<Sum>u \<in> {..<N} - {t}. g (f u))"
    by (rule sum.cong) auto
  then show ?thesis
    using t by (simp add: sum.remove [of "{..<N}" t])
qed

lemma perf_step_total:
  assumes "t < N"
  shows "grand_total N k (perf_step (t, ev) s) = grand_total N k s + amount k ev"
proof (cases "ev = Publish_Record")
  case True
  then show ?thesis
    using sum_upd [OF assms, of "accessor_of k" "tls_record s" new_record]
    by (simp add: grand_total_def perf_step_def publish_record_def total_count_sum amount_publish)
next
  case False
  then show ?thesis
    using sum_upd [OF assms, of "accessor_of k" "tls_record s" "record_event ev (tls_record s t)"]
    by (simp add: grand_total_def perf_step_def record_event_amount)
qed

lemma perf_run_total:
  "\<forall>(t, ev) \<in> set evs. t < N \<Longrightarrow>
   grand_total N k (fold perf_step evs s) = grand_total N k s + sum_list (map (\<lambda>(t, ev). amount k ev) evs)"
  by (induction evs arbitrary: s) (auto simp: perf_step_total add.assoc)

section \<open>Properties\<close>

text \<open>C36: No count is lost: whatever threads count and in whatever order they end, the totals of the report together
  with the records of the threads that still run are the sum of everything counted, modulo \<open>2 ^ 64\<close>; in particular
  the reported number of transactions is that of the successes and failures of the threads that have ended.\<close>

theorem perf_totals_complete:
  assumes "\<forall>(t, ev) \<in> set evs. t < N"
  shows "total_count (accessor_of k) (published (fold perf_step evs new_perf_sys))
      + (\<Sum>t < N. accessor_of k (tls_record (fold perf_step evs new_perf_sys) t))
      = sum_list (map (\<lambda>(t, ev). amount k ev) evs)
    \<and> all_transactions (published (fold perf_step evs new_perf_sys))
      = sum_list (map rec_transactions (published (fold perf_step evs new_perf_sys)))"
proof
  have "grand_total N k new_perf_sys = 0"
    by (simp add: grand_total_def new_perf_sys_def total_count_sum)
  then show "total_count (accessor_of k) (published (fold perf_step evs new_perf_sys))
      + (\<Sum>t < N. accessor_of k (tls_record (fold perf_step evs new_perf_sys) t))
      = sum_list (map (\<lambda>(t, ev). amount k ev) evs)"
    using perf_run_total [OF assms, of k new_perf_sys] by (simp add: grand_total_def)
  show "all_transactions (published (fold perf_step evs new_perf_sys))
      = sum_list (map rec_transactions (published (fold perf_step evs new_perf_sys)))"
    by (simp add: all_transactions_def all_failures_def all_successes_def total_count_sum total_transactions)
qed

theorem perf_totals_complete_witness:
  "total_count rec_reads (published (fold perf_step [(0, Reads 3), (1, Reads 4), (0, Publish_Record), (1, Reads 5)] new_perf_sys)) = 3"
proof -
  let ?evs = "[(0 :: nat, Reads 3), (1, Reads 4), (0, Publish_Record), (1, Reads 5)]"
  have "\<forall>(t, ev) \<in> set ?evs. t < (2 :: nat)" by simp
  from perf_totals_complete [OF this, of C_Reads] show ?thesis
    by (simp add: perf_step_def new_perf_sys_def new_record_def publish_record_def numeral_2_eq_2 total_count_sum)
qed

end
