(* ===== verification/Var_Access.thy ===== *)
theory Var_Access
  imports Transaction_Base
begin

text \<open>
  The accessors a user of \<^verbatim>\<open>var.hpp\<close> calls inside a transaction, and the registration of callbacks of
  \<^verbatim>\<open>transaction.hpp\<close>. Each passes its call on to the transaction handle. The overloads for a variable on the
  heap and for an atomic one are two definitions; the value type is a type parameter for the former and the
  64-bit storage word for the latter.
\<close>

section \<open>Definitions\<close>

definition var_get :: "transaction_base \<Rightarrow> 'v shared \<Rightarrow> var_ref \<Rightarrow> 'c thread_data \<Rightarrow> (cxx_error + 'v) \<times> 'c thread_data" where
  "var_get tx sh v td = rw_read tx sh v td"

definition var_get_atomic :: "transaction_base \<Rightarrow> 'v shared \<Rightarrow> var_ref \<Rightarrow> 'c thread_data \<Rightarrow> (cxx_error + uword) \<times> 'c thread_data" where
  "var_get_atomic tx sh v td = rw_read_atomic tx sh v td"

definition var_get_ro :: "transaction_base \<Rightarrow> 'v shared \<Rightarrow> var_ref \<Rightarrow> 'c thread_data \<Rightarrow> (cxx_error + 'v) \<times> 'c thread_data" where
  "var_get_ro tx sh v td = ro_read tx sh v td"

definition ro_read_atomic :: "transaction_base \<Rightarrow> 'v shared \<Rightarrow> var_ref \<Rightarrow> 'c thread_data \<Rightarrow> (cxx_error + uword) \<times> 'c thread_data" where
  "ro_read_atomic tx sh v td = (let (r, td') = ro_read_base tx sh v td in (map_sum id atomic_load r, td'))"

definition var_get_ro_atomic :: "transaction_base \<Rightarrow> 'v shared \<Rightarrow> var_ref \<Rightarrow> 'c thread_data \<Rightarrow> (cxx_error + uword) \<times> 'c thread_data" where
  "var_get_ro_atomic tx sh v td = ro_read_atomic tx sh v td"

definition var_untracked_get :: "transaction_base \<Rightarrow> 'v shared \<Rightarrow> var_ref \<Rightarrow> 'c thread_data \<Rightarrow> cxx_error + 'v" where
  "var_untracked_get tx sh v td = rw_untracked_read tx sh v td"

definition rw_untracked_read_atomic :: "transaction_base \<Rightarrow> 'v shared \<Rightarrow> var_ref \<Rightarrow> 'c thread_data \<Rightarrow> cxx_error + uword" where
  "rw_untracked_read_atomic tx sh v td = map_sum id atomic_load (rw_untracked_read_base tx sh v td)"

definition var_untracked_get_atomic :: "transaction_base \<Rightarrow> 'v shared \<Rightarrow> var_ref \<Rightarrow> 'c thread_data \<Rightarrow> cxx_error + uword" where
  "var_untracked_get_atomic tx sh v td = rw_untracked_read_atomic tx sh v td"

definition var_untracked_get_ro :: "transaction_base \<Rightarrow> 'v shared \<Rightarrow> var_ref \<Rightarrow> 'c thread_data \<Rightarrow> cxx_error + 'v" where
  "var_untracked_get_ro tx sh v td = ro_untracked_read tx sh v td"

definition ro_untracked_read_atomic :: "transaction_base \<Rightarrow> 'v shared \<Rightarrow> var_ref \<Rightarrow> 'c thread_data \<Rightarrow> cxx_error + uword" where
  "ro_untracked_read_atomic tx sh v td = map_sum id atomic_load (ro_untracked_read_base tx sh v td)"

definition var_untracked_get_ro_atomic :: "transaction_base \<Rightarrow> 'v shared \<Rightarrow> var_ref \<Rightarrow> 'c thread_data \<Rightarrow> cxx_error + uword" where
  "var_untracked_get_ro_atomic tx sh v td = ro_untracked_read_atomic tx sh v td"

definition var_set ::
    "var_layout \<Rightarrow> transaction_base \<Rightarrow> var_ref \<Rightarrow> 'v option \<Rightarrow> 'v shared \<Rightarrow> 'c thread_data
     \<Rightarrow> (cxx_error + unit) \<times> 'v shared \<times> 'c thread_data" where
  "var_set l tx v u sh td = rw_write l tx v u sh td"

definition var_set_atomic ::
    "transaction_base \<Rightarrow> 'v shared \<Rightarrow> var_ref \<Rightarrow> uword \<Rightarrow> 'c thread_data \<Rightarrow> (cxx_error + unit) \<times> 'c thread_data" where
  "var_set_atomic tx sh v u td = rw_write_atomic tx sh v u td"

text \<open>Registering callbacks through the handle of a writing transaction, under its assertion.\<close>

definition handle_assert :: "transaction_base \<Rightarrow> nat \<times> 'c thread_data \<Rightarrow> bool" where
  "handle_assert tx = (\<lambda>(i, td). tls_td tx = Some i \<and> tx_valid tx (Some (i, td)))"

definition tx_sometime_synchronized_after :: "'c gp_callback \<Rightarrow> 'c thread_data \<Rightarrow> 'c thread_data" where
  "tx_sometime_synchronized_after func td = td_sometime_synchronized_after func td"

definition tx_after_fail :: "'c gp_callback \<Rightarrow> 'c thread_data \<Rightarrow> 'c thread_data" where
  "tx_after_fail func td = td_after_fail func td"

text \<open>The handle of a writing transaction as that of a nested reading one, and the question a reading one answers.\<close>

definition get_thread_data :: "transaction_base \<Rightarrow> nat" where
  "get_thread_data tx = the (tls_td tx)"

definition to_read_transaction :: "transaction_base \<Rightarrow> transaction_base" where
  "to_read_transaction tx = nested_read_transaction (get_thread_data tx) (version tx)"

definition nested_in_rw :: "transaction_base \<Rightarrow> bool" where
  "nested_in_rw tx \<longleftrightarrow> can_write tx"

text \<open>The conversion keeps what the transaction reads: its own writes and the version it started at. Demoting does so
  only while nothing is pending.\<close>

lemma to_read_transaction_reads:
  assumes "can_write tx"
  shows "to_read_transaction tx = tx" "nested_in_rw (to_read_transaction tx)"
    "\<not> can_demote_safely td \<Longrightarrow> unsafe_checked_demote tx td = to_read_transaction tx"
    "can_demote_safely td \<Longrightarrow> \<not> nested_in_rw (unsafe_checked_demote tx td)"
  using assms
  by (auto simp: to_read_transaction_def nested_read_transaction_def get_thread_data_def can_write_def nested_in_rw_def
      unsafe_checked_demote_def read_transaction_def)

section \<open>Reading what was written\<close>

lemma ro_untracked_read_base_nested: "can_write tx \<Longrightarrow> ro_untracked_read_base tx sh v td = rw_untracked_read_base tx sh v td"
  by (simp add: ro_untracked_read_base_def ro_untracked_read_slow_path_def)

lemma var_get_pending:
  assumes "td_rep td cs w" "hs_view (write_set td) v = Some p" "version_lock (vars sh v) \<le> version tx"
    "mem_blocks (heap sh) p = Some (Object x)"
  shows "var_get tx sh v td = (Inr x, td)" "var_untracked_get tx sh v td = Inr x"
    "can_write tx \<Longrightarrow> var_get_ro tx sh v td = (Inr x, td)" "can_write tx \<Longrightarrow> var_untracked_get_ro tx sh v td = Inr x"
  using assms
  by (simp_all add: var_get_def rw_read_def var_untracked_get_def rw_untracked_read_def load_result_def
      rw_read_base_view [OF assms(1)] rw_untracked_read_base_view [OF assms(1)] var_load_def mem_load_def
      var_get_ro_def ro_read_def ro_read_base_nested var_untracked_get_ro_def ro_untracked_read_def ro_untracked_read_base_nested)

text \<open>The pending writes of a transaction are objects of the heap.\<close>

definition pending_objects :: "'v shared \<Rightarrow> 'c thread_data \<Rightarrow> bool" where
  "pending_objects sh td \<longleftrightarrow> (\<forall>v p. hs_view (write_set td) v = Some p \<longrightarrow> (\<exists>y. mem_blocks (heap sh) p = Some (Object y)))"

lemma var_set_pending:
  assumes "td_rep td cs w" and "var_object_hash l v = var_hash v" and "qb_room (succ_callbacks td)"
    and "version_lock (vars sh v) \<le> version tx" and "mem_inv (heap sh)" and "mem_free (heap sh) = p # ps"
    and "pending_objects sh td"
  obtains sh' td' w' q where "var_set l tx v (Some x) sh td = (Inr (), sh', td')" "td_rep td' cs w'"
    "vars sh' = vars sh" "hs_view (write_set td') = (hs_view (write_set td))(v \<mapsto> q)"
    "mem_blocks (heap sh') q = Some (Object x)" "pending_objects sh' td'"
proof (cases "hs_view (write_set td) v")
  case None
  obtain td' where td': "rw_write l tx v (Some x) sh td =
       (Inr (), sh\<lparr> heap := (heap sh)\<lparr> mem_blocks := (mem_blocks (heap sh))(p := Some (Object x)), mem_free := ps \<rparr> \<rparr>, td')"
    "td_rep td' cs (w @ [Destroy_Deallocate (storage (vars sh v))])"
    "hs_view (write_set td') = (hs_view (write_set td))(v \<mapsto> p)"
    by (rule rw_write_first [OF assms(1,2,3) None assms(4,5,6), of x])
  let ?sh = "sh\<lparr> heap := (heap sh)\<lparr> mem_blocks := (mem_blocks (heap sh))(p := Some (Object x)), mem_free := ps \<rparr> \<rparr>"
  have "pending_objects ?sh td'"
    using assms(7) td'(3) by (simp add: pending_objects_def)
  then show thesis
    by (intro that [OF td'(1) [folded var_set_def] td'(2) _ td'(3)]) simp_all
next
  case (Some q)
  then obtain y where y: "mem_blocks (heap sh) q = Some (Object y)"
    using assms(7) by (auto simp: pending_objects_def)
  note again = rw_write_again [OF assms(1,2) Some assms(4) y, of x]
  let ?sh = "sh\<lparr> heap := (heap sh)\<lparr> mem_blocks := (mem_blocks (heap sh))(q := Some (Object x)) \<rparr> \<rparr>"
  have "hs_view (write_set td) = (hs_view (write_set td))(v \<mapsto> q)"
    using Some by auto
  moreover have "pending_objects ?sh td"
    using assms(7) by (simp add: pending_objects_def)
  ultimately show thesis
    by (intro that [OF again [folded var_set_def] assms(1), of q]) simp_all
qed

section \<open>Properties\<close>

text \<open>C20: A transaction reads its own writes: after \<open>set\<close> on a valid variable, \<open>get\<close> and \<open>untracked_get\<close>, through
  the writing handle and through the read handle of a nested transaction, return the value set, while the variables
  themselves, and with them what other threads see, are unchanged until the commit. For a heap variable this holds where
  the hash of the variable is that of its \<open>var_base\<close>, as with every allocator without state. For an atomic variable it always
  holds, and every other variable reads as before.\<close>

theorem reads_own_writes:
  assumes "td_rep td cs w" and "qb_room (succ_callbacks td)" and "version_lock (vars sh v) \<le> version tx" and "mem_inv (heap sh)"
    and "mem_free (heap sh) = p # ps" and "pending_objects sh td" and "can_write tx"
  shows "(var_object_hash l v = var_hash v \<longrightarrow>
      (\<exists>sh' td'. var_set l tx v (Some x) sh td = (Inr (), sh', td') \<and> vars sh' = vars sh \<and> pending_objects sh' td'
        \<and> var_get tx sh' v td' = (Inr x, td') \<and> var_untracked_get tx sh' v td' = Inr x
        \<and> var_get_ro (to_read_transaction tx) sh' v td' = (Inr x, td')
        \<and> var_untracked_get_ro (to_read_transaction tx) sh' v td' = Inr x))
    \<and> (\<exists>td'. var_set_atomic tx sh v a td = (Inr (), td') \<and> var_get_atomic tx sh v td' = (Inr a, td')
        \<and> var_get_ro_atomic (to_read_transaction tx) sh v td' = (Inr a, td')
        \<and> (\<forall>u. var_untracked_get_atomic tx sh u td' = (if u = v then Inr a else var_untracked_get_atomic tx sh u td)
              \<and> var_untracked_get_ro_atomic (to_read_transaction tx) sh u td' =
                  (if u = v then Inr a else var_untracked_get_ro_atomic (to_read_transaction tx) sh u td)))"
proof -
  note nested = to_read_transaction_reads(1) [OF assms(7)]
  have heap_var: "\<exists>sh' td'. var_set l tx v (Some x) sh td = (Inr (), sh', td') \<and> vars sh' = vars sh \<and> pending_objects sh' td'
      \<and> var_get tx sh' v td' = (Inr x, td') \<and> var_untracked_get tx sh' v td' = Inr x
      \<and> var_get_ro (to_read_transaction tx) sh' v td' = (Inr x, td')
      \<and> var_untracked_get_ro (to_read_transaction tx) sh' v td' = Inr x" if hash: "var_object_hash l v = var_hash v"
  proof -
    obtain sh' td' w' q where s: "var_set l tx v (Some x) sh td = (Inr (), sh', td')" "td_rep td' cs w'"
      "vars sh' = vars sh" "hs_view (write_set td') = (hs_view (write_set td))(v \<mapsto> q)"
      "mem_blocks (heap sh') q = Some (Object x)" "pending_objects sh' td'"
      by (rule var_set_pending [OF assms(1) hash assms(2-6), of x])
    have "version_lock (vars sh' v) \<le> version tx" "hs_view (write_set td') v = Some q"
      using s assms(3) by simp_all
    then show ?thesis
      using s var_get_pending [OF s(2) _ _ s(5)] assms(7) by (simp add: nested)
  qed
  obtain r td1 where t: "rw_atomic_write_base tx sh v a td = (r, td1)"
    by (cases "rw_atomic_write_base tx sh v a td")
  note aw = rw_atomic_write_base_view [OF assms(1) t]
  have "\<exists>td'. var_set_atomic tx sh v a td = (Inr (), td') \<and> var_get_atomic tx sh v td' = (Inr a, td')
      \<and> var_get_ro_atomic (to_read_transaction tx) sh v td' = (Inr a, td')
      \<and> (\<forall>u. var_untracked_get_atomic tx sh u td' = (if u = v then Inr a else var_untracked_get_atomic tx sh u td)
            \<and> var_untracked_get_ro_atomic (to_read_transaction tx) sh u td' =
                (if u = v then Inr a else var_untracked_get_ro_atomic (to_read_transaction tx) sh u td))"
    using t aw assms(3,7) unfolding nested
    by (intro exI [of _ td1])
      (auto simp: var_set_atomic_def rw_write_atomic_def atomic_allocate_construct_def var_get_atomic_def rw_read_atomic_def
        rw_read_base_view [OF aw(1)] var_get_ro_atomic_def ro_read_atomic_def ro_read_base_nested atomic_load_def
        var_untracked_get_atomic_def rw_untracked_read_atomic_def rw_untracked_read_base_view [OF aw(1)]
        rw_untracked_read_base_view [OF assms(1)] var_untracked_get_ro_atomic_def ro_untracked_read_atomic_def
        ro_untracked_read_base_nested)
  then show ?thesis using heap_var by blast
qed

theorem reads_own_writes_witness:
  "\<exists>sh' td'. var_set empty_alloc_layout (transaction 0 3) 32 (Some 5) quiet_shared (new_thread_data :: char thread_data)
     = (Inr (), sh', td') \<and> var_get (transaction 0 3) sh' 32 td' = (Inr 5, td') \<and> vars sh' 32 = vars quiet_shared 32"
proof -
  let ?td = "new_thread_data :: char thread_data"
  have m: "mem_inv (heap quiet_shared)" "mem_free (heap quiet_shared) = 64 # [128]"
    by (simp_all add: mem_inv_def quiet_shared_def)
  have v: "version_lock (vars quiet_shared 32) \<le> version (transaction 0 3)" "can_write (transaction 0 3)"
    by (simp_all add: quiet_shared_def transaction_def can_write_def)
  have q: "qb_room (succ_callbacks ?td)"
    by (rule small_queue_room [OF new_thread_data_rep]) (simp add: queue_slots_def)
  have p: "pending_objects quiet_shared ?td"
    by (simp add: pending_objects_def new_thread_data_def hs_new_refines)
  show ?thesis
    using reads_own_writes [OF new_thread_data_rep q v(1) m p v(2), of empty_alloc_layout 5 0] by auto
qed

end
