(* ===== verification/Storage_Upkeep.thy ===== *)
theory Storage_Upkeep imports Thread_Data begin

text \<open>
  The operations that keep the buffers of a thread in order and are not part of the life of a
  transaction: the remaining members of \<^verbatim>\<open>pod_hash_set\<close> (\<^verbatim>\<open>pod_hash_set.hpp\<close>),
  \<^verbatim>\<open>shrink_to_fit\<close> of \<^verbatim>\<open>quiescence_buffer\<close> and of \<^verbatim>\<open>thread_data\<close>, and the lookup of
  the thread-local object, \<^verbatim>\<open>tls_thread_data\<close> (\<^verbatim>\<open>thread_data.hpp\<close>). The theorems say that erasing and
  shrinking a write set act on the map of pending writes as expected, that \<^verbatim>\<open>shrink_to_fit\<close> of a
  thread never returns, and that a thread has one \<^verbatim>\<open>thread_data\<close>, constructed once.
\<close>

section \<open>The write set\<close>

definition hs_capacity :: "pod_hash_set \<Rightarrow> nat" where
  "hs_capacity w = pv_capacity (hs_data w)"

definition hs_reset_filter :: "hash_t \<Rightarrow> pod_hash_set \<Rightarrow> pod_hash_set" where
  "hs_reset_filter new_filter w = w\<lparr> hs_filter := new_filter \<rparr>"

definition hs_unordered_erase :: "nat \<Rightarrow> pod_hash_set \<Rightarrow> pod_hash_set" where
  "hs_unordered_erase ptr w = w\<lparr> hs_data := unordered_erase ptr (hs_data w) \<rparr>"

definition hs_shrink_to_fit :: "pod_hash_set \<Rightarrow> pod_hash_set" where
  "hs_shrink_to_fit w = w\<lparr> hs_data := shrink_to_fit (hs_data w) \<rparr>"

lemma hs_unordered_erase_items:
  assumes "i < hs_end w"
  shows "mset (hs_items (hs_unordered_erase i w)) = mset (hs_items w) - {# hs_items w ! i #}"
proof -
  have "unordered_erase_assert i (hs_data w)"
    using assms by (simp add: unordered_erase_assert_def hs_end_def)
  then show ?thesis
    by (simp add: hs_items_def hs_unordered_erase_def unordered_erase_mset)
qed

text \<open>With distinct keys a map of a list depends on the entries only.\<close>

lemma map_of_eq_remove:
  assumes "distinct (map fst xs)" and "mset ys = mset xs - {# (a, b) #}" and "(a, b) \<in> set xs"
  shows "map_of ys = (map_of xs)(a := None)" and "distinct (map fst ys)"
proof -
  have xs: "mset xs = mset ((a, b) # ys)"
    using assms(2,3) by simp
  then have m: "mset (map fst xs) = mset (map fst ((a, b) # ys))"
    by (simp only: mset_map)
  then have d: "distinct (map fst ((a, b) # ys))"
    using assms(1) by (metis mset_eq_imp_distinct_iff)
  then show "distinct (map fst ys)" by simp
  have "map_of xs = map_of ((a, b) # ys)"
    using assms(1) d mset_eq_setD [OF xs] by (simp only: map_of_inject_set)
  moreover have "map_of ys a = None"
    using d by (simp add: map_of_eq_None_iff)
  ultimately show "map_of ys = (map_of xs)(a := None)"
    by (simp add: fun_eq_iff)
qed

text \<open>Erasing an entry removes its variable from the pending writes and nothing else; the filter
  keeps a bit that may now be superfluous. Shrinking changes the capacity only.\<close>

theorem write_set_erase_and_shrink:
  assumes "hs_inv w" and "i < hs_end w"
  shows "hs_inv (hs_unordered_erase i w)"
    and "hs_view (hs_unordered_erase i w) = (hs_view w)(dest_var (hs_items w ! i) := None)"
    and "hs_inv (hs_shrink_to_fit w)"
    and "hs_view (hs_shrink_to_fit w) = hs_view w"
    and "hs_capacity (hs_shrink_to_fit w) = hs_size w + 1"
proof -
  let ?kv = "\<lambda>e. (dest_var e, pending_write e)" and ?e = "hs_items w ! i" and ?w = "hs_unordered_erase i w"
  have m: "mset (hs_items ?w) = mset (hs_items w) - {# ?e #}"
    by (rule hs_unordered_erase_items [OF assms(2)])
  have mem: "?e \<in> set (hs_items w)"
    using assms(2) by (simp add: hs_end_length)
  have kv: "mset (map ?kv (hs_items ?w)) = mset (map ?kv (hs_items w)) - {# ?kv ?e #}"
    using m mem by (simp add: image_mset_Diff)
  have d: "distinct (map fst (map ?kv (hs_items w)))"
    using assms(1) by (simp add: hs_inv_def hs_dests_def comp_def)
  note r = map_of_eq_remove [OF d kv]
  show "hs_view ?w = (hs_view w)(dest_var ?e := None)"
    using r(1) mem by (simp add: hs_view_def)
  have "distinct (hs_dests ?w)"
    using r(2) mem by (simp add: hs_dests_def comp_def)
  moreover have "set (hs_dests ?w) \<subseteq> set (hs_dests w)"
    using arg_cong [OF m, of set_mset] in_diffD [of _ "mset (hs_items w)" "{# ?e #}"]
    by (fastforce simp: hs_dests_def)
  moreover have "pv_inv (hs_data ?w)"
    using assms unordered_erase_inv [of "hs_data w" i]
    by (simp add: hs_unordered_erase_def hs_inv_def unordered_erase_assert_def hs_end_def)
  moreover have "hs_filter ?w = hs_filter w"
    by (simp add: hs_unordered_erase_def)
  ultimately show "hs_inv ?w"
    using assms(1) by (auto simp: hs_inv_def)
  show "hs_inv (hs_shrink_to_fit w)" "hs_view (hs_shrink_to_fit w) = hs_view w"
    using assms(1) by (simp_all add: hs_inv_def hs_view_def hs_dests_def hs_items_def hs_shrink_to_fit_def
        shrink_to_fit_refines)
  show "hs_capacity (hs_shrink_to_fit w) = hs_size w + 1"
    by (auto simp: hs_capacity_def hs_shrink_to_fit_def hs_size_def shrink_to_fit_def Let_def
        pv_capacity_def pv_size_def)
qed

section \<open>Shrinking the buffers of a thread\<close>

text \<open>
  \<^verbatim>\<open>quiescence_buffer::shrink_to_fit\<close> is \<^verbatim>\<open>throw "TODO"\<close> in a function that is \<^verbatim>\<open>noexcept\<close> when
  the allocation of its allocator is: leaving a \<^verbatim>\<open>noexcept\<close> function by an exception ends the
  program.
\<close>

datatype shrink_result = Shrunk | Thrown string | Terminated

definition throw_from :: "bool \<Rightarrow> string \<Rightarrow> shrink_result" where
  "throw_from is_noexcept what = (if is_noexcept then Terminated else Thrown what)"

definition qb_shrink_to_fit :: "bool \<Rightarrow> 'c quiescence_buffer \<Rightarrow> shrink_result \<times> 'c quiescence_buffer" where
  "qb_shrink_to_fit has_noexcept_alloc q = (throw_from has_noexcept_alloc ''TODO'', q)"

text \<open>\<^verbatim>\<open>thread_data::shrink_to_fit\<close>: the callbacks run, how it ends, and the state; \<open>None\<close> is a wait
  that does not end.\<close>

definition td_shrink_to_fit ::
  "bool \<Rightarrow> epoch_t list list \<Rightarrow> 'c thread_data \<Rightarrow> ('c gp_callback list \<times> shrink_result \<times> 'c thread_data) option" where
  "td_shrink_to_fit has_noexcept_alloc nodes td =
     Option.bind
       (if \<not> in_critical_section td \<and> \<not> qb_empty (succ_callbacks td) then reclaim_all nodes td else Some ([], td))
       (\<lambda>(cbs, td1).
          let td2 = td1\<lparr> read_set := shrink_to_fit (read_set td1) \<rparr>;
              td3 = td2\<lparr> write_set := hs_shrink_to_fit (write_set td2) \<rparr>;
              td4 = td3\<lparr> fail_callbacks := shrink_to_fit (fail_callbacks td3) \<rparr>;
              (r, q) = qb_shrink_to_fit has_noexcept_alloc (succ_callbacks td4)
          in Some (cbs, r, td4\<lparr> succ_callbacks := q \<rparr>))"

text \<open>Whatever the state of the thread, \<^verbatim>\<open>shrink_to_fit\<close> never returns: with the allocator of the
  library the program ends, with one that can throw the caller gets the exception.\<close>

theorem shrink_to_fit_never_returns:
  assumes "td_shrink_to_fit has_noexcept_alloc nodes td = Some (cbs, r, td')"
  shows "r = (if has_noexcept_alloc then Terminated else Thrown ''TODO'')"
  using assms by (auto simp: td_shrink_to_fit_def qb_shrink_to_fit_def throw_from_def Let_def
      split: bind_splits if_splits prod.splits)

text \<open>Up to that point it has run every callback and shrunk the other buffers without losing an
  element, in a thread that is in no critical section and whose waits end.\<close>

theorem shrink_to_fit_reclaims:
  assumes "td_rep td (cs @ [(e, cbs)]) []" and "\<not> in_critical_section td" and "synchronize_min_epoch e nodes = Some m"
  obtains r td' where "td_shrink_to_fit n nodes td = Some (concat (map snd cs) @ cbs, r, td')"
    and "td_rep td' [] []" and "pv_capacity (read_set td') = length (pv_items (read_set td')) + 1"
proof -
  obtain td1 where td1: "reclaim_all nodes td = Some (concat (map snd cs) @ cbs, td1)" "td_rep td1 [] []"
    by (rule reclaim_all_rep [OF assms(1,3)])
  have "\<not> qb_empty (succ_callbacks td)"
    using assms(1) by (simp add: tdq.rep_is_empty)
  with assms(2) td1 have eq: "td_shrink_to_fit n nodes td = Some (concat (map snd cs) @ cbs, throw_from n ''TODO'',
      td1\<lparr> read_set := shrink_to_fit (read_set td1), write_set := hs_shrink_to_fit (write_set td1),
           fail_callbacks := shrink_to_fit (fail_callbacks td1) \<rparr>)" (is "_ = Some (_, _, ?td')")
    by (simp add: td_shrink_to_fit_def qb_shrink_to_fit_def Let_def)
  have "td_rep ?td' [] []"
    using td1(2) by (simp add: td_rep_def shrink_to_fit_refines hs_inv_def hs_dests_def hs_items_def
        hs_shrink_to_fit_def)
  moreover have "pv_capacity (shrink_to_fit v) = length (pv_items (shrink_to_fit v)) + 1" for v :: "var_ref pod_vector"
    by (auto simp: shrink_to_fit_def Let_def pv_capacity_def pv_size_def vec_simps)
  ultimately show thesis
    using eq that by simp
qed

section \<open>The thread-local object\<close>

text \<open>
  The two objects of static storage duration a thread has: the pointer, zero-initialised to
  \<^verbatim>\<open>nullptr\<close>, and the function-local \<^verbatim>\<open>tls_thread_data\<close>, constructed when control first passes its
  declaration. \<open>tls_address\<close> is where the thread keeps the latter.
\<close>

record 'c tls =
  tls_thread_data_ptr :: "var_ref option"
  tls_object :: "'c thread_data option"

definition tls_data_init :: "var_ref \<Rightarrow> 'c tls \<Rightarrow> var_ref \<times> 'c tls" where
  "tls_data_init tls_address s =
     (let s1 = (case tls_object s of None \<Rightarrow> s\<lparr> tls_object := Some new_thread_data \<rparr> | Some _ \<Rightarrow> s);
          s2 = s1\<lparr> tls_thread_data_ptr := Some tls_address \<rparr>
      in (tls_address, s2))"

definition tls_thread_data :: "var_ref \<Rightarrow> 'c tls \<Rightarrow> var_ref \<times> 'c tls" where
  "tls_thread_data tls_address s =
     (case tls_thread_data_ptr s of None \<Rightarrow> tls_data_init tls_address s | Some p \<Rightarrow> (p, s))"

definition tls_start :: "'c tls" where
  "tls_start = \<lparr> tls_thread_data_ptr = None, tls_object = None \<rparr>"

text \<open>The first call constructs the object; every later one returns the same address and leaves what
  the thread has stored there since.\<close>

theorem tls_thread_data_once:
  shows "tls_thread_data a tls_start = (a, \<lparr> tls_thread_data_ptr = Some a, tls_object = Some new_thread_data \<rparr>)"
    and "tls_thread_data a ((snd (tls_thread_data a tls_start))\<lparr> tls_object := Some td \<rparr>) =
      (a, \<lparr> tls_thread_data_ptr = Some a, tls_object = Some td \<rparr>)"
  by (simp_all add: tls_thread_data_def tls_data_init_def tls_start_def)

section \<open>The fibers build\<close>

text \<open>
  With \<^verbatim>\<open>LSTM_USE_BOOST_FIBERS\<close> the pointer is fiber-specific, and its object comes from \<^verbatim>\<open>new\<close>: \<open>fresh_address\<close> is
  what that returns. Several fibers run on one thread.
\<close>

record 'c fibers =
  fiber_ptr :: "nat \<Rightarrow> var_ref option"
  fiber_heap :: "var_ref \<rightharpoonup> 'c thread_data"

definition fiber_data_init_assert :: "nat \<Rightarrow> 'c fibers \<Rightarrow> bool" where
  "fiber_data_init_assert f s \<longleftrightarrow> fiber_ptr s f = None"

definition fiber_data_init :: "nat \<Rightarrow> var_ref \<Rightarrow> 'c fibers \<Rightarrow> 'c fibers" where
  "fiber_data_init f fresh_address s =
     s\<lparr> fiber_ptr := (fiber_ptr s)(f := Some fresh_address), fiber_heap := (fiber_heap s)(fresh_address \<mapsto> new_thread_data) \<rparr>"

definition fiber_thread_data :: "nat \<Rightarrow> var_ref \<Rightarrow> 'c fibers \<Rightarrow> var_ref \<times> 'c fibers" where
  "fiber_thread_data f fresh_address s =
     (let s' = (case fiber_ptr s f of None \<Rightarrow> fiber_data_init f fresh_address s | Some _ \<Rightarrow> s)
      in (the (fiber_ptr s' f), s'))"

text \<open>No two fibers ever share an object, and a fiber keeps its own, when \<^verbatim>\<open>new\<close> returns an address that is not in use.\<close>

definition fibers_apart :: "'c fibers \<Rightarrow> bool" where
  "fibers_apart s \<longleftrightarrow> (\<forall>f g a. fiber_ptr s f = Some a \<longrightarrow> a \<in> dom (fiber_heap s) \<and> (fiber_ptr s g = Some a \<longrightarrow> f = g))"

lemma fiber_thread_data_apart:
  assumes "fibers_apart s" and "fresh_address \<notin> dom (fiber_heap s)" and r: "fiber_thread_data f fresh_address s = (a, s')"
  shows "fibers_apart s' \<and> fiber_ptr s' f = Some a \<and> (\<forall>g. g \<noteq> f \<longrightarrow> fiber_ptr s' g = fiber_ptr s g \<and> fiber_ptr s g \<noteq> Some a)"
proof (cases "fiber_ptr s f")
  case None
  then have s': "s' = fiber_data_init f fresh_address s" "a = fresh_address"
    using r by (auto simp: fiber_thread_data_def fiber_data_init_def)
  have fr: "fiber_ptr s g \<noteq> Some fresh_address" for g using assms(1,2) by (auto simp: fibers_apart_def)
  have "fibers_apart s'"
    unfolding fibers_apart_def
  proof (intro allI impI)
    fix h g b assume "fiber_ptr s' h = Some b"
    then show "b \<in> dom (fiber_heap s') \<and> (fiber_ptr s' g = Some b \<longrightarrow> h = g)"
      using assms(1) fr by (auto simp: s' fiber_data_init_def fibers_apart_def split: if_splits)
  qed
  then show ?thesis using fr by (simp add: s' fiber_data_init_def)
next
  case (Some b)
  then have "s' = s" "a = b" using r by (auto simp: fiber_thread_data_def)
  then show ?thesis using Some assms(1) by (auto simp: fibers_apart_def)
qed

end
