(* ===== verification/Overloads.thy ===== *)
theory Overloads imports Var_Detail begin

text \<open>
  What is decided at compile time: the traits of \<^verbatim>\<open>detail/lstm_fwd.hpp\<close>, the overloads of
  \<^verbatim>\<open>lstm::read_write\<close>, \<^verbatim>\<open>lstm::read_only\<close>, \<^verbatim>\<open>lstm::atomic\<close> and \<^verbatim>\<open>lstm::relative\<close> and the
  overloads of the constructors of \<^verbatim>\<open>lstm::var\<close> (\<^verbatim>\<open>var.hpp\<close>). What the compiler knows of a
  user's type is data: whether an expression is well-formed, \<^verbatim>\<open>noexcept\<close>, of type \<^verbatim>\<open>void\<close>. The
  theorems say which functions are accepted, that an accepted one is run by the transaction the README
  announces, and that \<^verbatim>\<open>lstm::relative\<close> accepts \<^verbatim>\<open>noexcept\<close> functions without running them.
\<close>

section \<open>Traits\<close>

text \<open>
  \<^verbatim>\<open>and_\<close> compares the sequence of the conditions followed by \<^verbatim>\<open>true\<close> with \<^verbatim>\<open>true\<close> followed by the
  sequence.
\<close>

definition and_trait :: "bool list \<Rightarrow> bool" where
  "and_trait bs \<longleftrightarrow> bs @ [True] = True # bs"

definition not_trait :: "bool \<Rightarrow> bool" where
  "not_trait b = (\<not> b)"

fun all_same :: "'ty list \<Rightarrow> bool" where
  "all_same [] = True"
| "all_same (t # ts) = and_trait (map (\<lambda>s. t = s) ts)"

theorem and_all: "and_trait bs \<longleftrightarrow> (\<forall>b \<in> set bs. b)"
proof (induction bs)
  case (Cons b bs)
  then show ?case by (cases b) (auto simp: and_trait_def)
qed (simp add: and_trait_def)

lemma all_same_iff: "all_same ts \<longleftrightarrow> (\<forall>x \<in> set ts. \<forall>y \<in> set ts. x = y)"
proof (cases ts)
  case (Cons t us)
  then have "all_same ts \<longleftrightarrow> (\<forall>s \<in> set us. t = s)"
    by (simp add: and_all)
  with Cons show ?thesis by (metis set_ConsD list.set_intros)
qed simp

text \<open>
  \<^verbatim>\<open>is_convertible<To, Froms...>\<close>: can \<^verbatim>\<open>To\<close> be copy-list-initialised from the arguments, without its
  constructor from an initializer list being chosen. The answers of the compiler to the single
  questions are the fields of \<open>conversions\<close>.
\<close>

datatype ilist_element = Uncvref | Const | Volatile | Const_Volatile

record 'ty conversions =
  braced_convertible :: "'ty list \<Rightarrow> bool"
  std_is_convertible :: "'ty \<Rightarrow> bool"
  ilist_convertible :: "ilist_element \<Rightarrow> 'ty list \<Rightarrow> bool"
  uncvref :: "'ty \<Rightarrow> 'ty"

fun is_convertible :: "'ty conversions \<Rightarrow> 'ty list \<Rightarrow> bool" where
  "is_convertible To [] = braced_convertible To []"
| "is_convertible To [From] = std_is_convertible To From"
| "is_convertible To (From0 # From1 # FromTail) =
     (let Froms = From0 # From1 # FromTail in
      and_trait [braced_convertible To Froms,
            \<not> all_same (map (uncvref To) Froms)
            \<or> (\<not> ilist_convertible To Uncvref Froms \<and> \<not> ilist_convertible To Const Froms
               \<and> \<not> ilist_convertible To Volatile Froms \<and> \<not> ilist_convertible To Const_Volatile Froms)])"

section \<open>Functions that can be transactions\<close>

text \<open>
  A call of the function that is well-formed has a signature. \<open>func_traits\<close> says what the calls
  with a \<^verbatim>\<open>const Tx&\<close> in front of the arguments, and with the arguments alone, are for one value
  category of the function.
\<close>

record call_sig =
  cs_nothrow :: bool
  cs_void :: bool

record func_traits =
  ft_with_tx :: "call_sig option"
  ft_plain :: "call_sig option"

definition callable_with_tx :: "func_traits \<Rightarrow> bool" where
  "callable_with_tx f \<longleftrightarrow> ft_with_tx f \<noteq> None"

definition callable :: "func_traits \<Rightarrow> bool" where
  "callable f \<longleftrightarrow> ft_plain f \<noteq> None"

fun transact_result_impl :: "bool \<Rightarrow> bool \<Rightarrow> func_traits \<Rightarrow> call_sig option" where
  "transact_result_impl True b f = ft_with_tx f"
| "transact_result_impl False True f = ft_plain f"
| "transact_result_impl False False f = None"

definition transact_result :: "func_traits \<Rightarrow> call_sig option" where
  "transact_result f = transact_result_impl (callable_with_tx f) (callable f) f"

definition is_transact_function_base :: "func_traits \<Rightarrow> bool" where
  "is_transact_function_base f \<longleftrightarrow> transact_result f \<noteq> None"

definition is_nothrow_transact_function :: "func_traits \<Rightarrow> bool" where
  "is_nothrow_transact_function f \<longleftrightarrow>
     (case transact_result_impl (callable_with_tx f) (callable f) f of None \<Rightarrow> False | Some s \<Rightarrow> cs_nothrow s)"

text \<open>\<open>None\<close>: \<^verbatim>\<open>transact_result\<close> is ill-formed, and so is every use of the trait.\<close>

definition is_void_transact_function :: "func_traits \<Rightarrow> bool option" where
  "is_void_transact_function f = map_option cs_void (transact_result f)"

text \<open>The categories the overloads ask for: as passed (\<^verbatim>\<open>Func&&\<close>), as an lvalue, as an rvalue.\<close>

record func_use =
  fu_passed :: func_traits
  fu_lvalue :: func_traits
  fu_rvalue :: func_traits

definition is_transact_function :: "func_use \<Rightarrow> bool" where
  "is_transact_function u \<longleftrightarrow>
     and_trait [is_transact_function_base (fu_passed u), not_trait (is_nothrow_transact_function (fu_passed u)),
           is_transact_function_base (fu_lvalue u), not_trait (is_nothrow_transact_function (fu_lvalue u))]"

text \<open>A function is passed as an lvalue or as an rvalue.\<close>


text \<open>The two overloads of \<^verbatim>\<open>atomic_base_fn::call\<close>: the one that is enabled, and what it calls.\<close>

definition call_overload :: "func_traits \<Rightarrow> call_sig option" where
  "call_overload f = (if callable_with_tx f then ft_with_tx f else ft_plain f)"

lemma call_overload_type: "call_overload f = transact_result f"
  by (cases "ft_plain f") (auto simp: call_overload_def transact_result_def callable_def callable_with_tx_def)

section \<open>Overloads\<close>

text \<open>
  What a call comes to: it does not compile, it runs the function, it reaches a body without a
  return statement (which does nothing when the return type is \<^verbatim>\<open>void\<close> and is undefined otherwise).
\<close>

datatype call_outcome =
    Does_not_compile
  | Runs_read_write
  | Runs_read_only
  | Runs_relative
  | Returns_without_calling
  | Flows_off_the_end

text \<open>
  The two overloads of a \<^verbatim>\<open>slow_path\<close>. \<open>Result\<close> is what the default template argument of the first
  one names; that overload needs a \<open>Result\<close> other than \<^verbatim>\<open>void\<close> for its variable. The type of the
  chosen one has to fit the result of the operator that returns it.
\<close>

definition slow_path_compiles :: "call_sig option \<Rightarrow> func_use \<Rightarrow> bool" where
  "slow_path_compiles Result u \<longleftrightarrow>
     (case is_void_transact_function (fu_lvalue u) of
        None \<Rightarrow> False
      | Some True \<Rightarrow> is_void_transact_function (fu_passed u) = Some True
      | Some False \<Rightarrow> map_option cs_void Result = Some False \<and> is_void_transact_function (fu_passed u) = Some False)"

text \<open>The body of the overloads that are there for their static assertions.\<close>

definition empty_body :: "bool \<Rightarrow> call_outcome" where
  "empty_body returns_void = (if returns_void then Returns_without_calling else Flows_off_the_end)"

definition fallback_call :: "bool \<Rightarrow> func_use \<Rightarrow> call_outcome" where
  "fallback_call static_asserts u =
     (case transact_result (fu_passed u) of
        None \<Rightarrow> Does_not_compile
      | Some s \<Rightarrow> if static_asserts then empty_body (cs_void s) else Does_not_compile)"

definition assert_callable :: "func_use \<Rightarrow> bool" where
  "assert_callable u \<longleftrightarrow> is_transact_function_base (fu_passed u) \<and> is_transact_function_base (fu_lvalue u)"

definition assert_not_nothrow :: "func_use \<Rightarrow> bool" where
  "assert_not_nothrow u \<longleftrightarrow>
     \<not> is_nothrow_transact_function (fu_passed u) \<and> \<not> is_nothrow_transact_function (fu_lvalue u)"

definition read_write_call :: "func_use \<Rightarrow> call_outcome" where
  "read_write_call u =
     (if is_transact_function u
      then if slow_path_compiles (transact_result (fu_rvalue u)) u then Runs_read_write else Does_not_compile
      else fallback_call (assert_callable u \<and> assert_not_nothrow u) u)"

definition read_only_call :: "func_use \<Rightarrow> call_outcome" where
  "read_only_call u =
     (if is_transact_function u
      then if slow_path_compiles (transact_result (fu_rvalue u)) u then Runs_read_only else Does_not_compile
      else fallback_call (assert_callable u \<and> assert_not_nothrow u) u)"

definition relative_call :: "func_use \<Rightarrow> call_outcome" where
  "relative_call u =
     (if is_transact_function u
      then if slow_path_compiles (transact_result (fu_passed u)) u then Runs_relative else Does_not_compile
      else fallback_call (assert_callable u) u)"

text \<open>\<^verbatim>\<open>lstm::atomic\<close> on a function used with a \<^verbatim>\<open>transaction\<close> and with a \<^verbatim>\<open>read_transaction\<close>.\<close>

definition atomic_call :: "func_use \<Rightarrow> func_use \<Rightarrow> call_outcome" where
  "atomic_call u ru =
     (if is_transact_function u then read_write_call u
      else if is_transact_function ru then read_only_call ru
      else if (assert_callable u \<or> assert_callable ru) \<and> assert_not_nothrow u \<and> assert_not_nothrow ru
      then empty_body True
      else Does_not_compile)"

section \<open>Which functions run\<close>

lemma is_transact_function_iff: "is_transact_function u \<longleftrightarrow> assert_callable u \<and> assert_not_nothrow u"
  by (auto simp: is_transact_function_def and_all not_trait_def assert_callable_def assert_not_nothrow_def)

lemma transaction_call_cases:
  shows "read_write_call u = (if is_transact_function u \<and> slow_path_compiles (transact_result (fu_rvalue u)) u
      then Runs_read_write else Does_not_compile)"
    and "read_only_call u = (if is_transact_function u \<and> slow_path_compiles (transact_result (fu_rvalue u)) u
      then Runs_read_only else Does_not_compile)"
  by (auto simp: read_write_call_def read_only_call_def fallback_call_def simp flip: is_transact_function_iff
      split: option.splits)

text \<open>C35: A call of \<^verbatim>\<open>lstm::atomic\<close> that compiles runs its function: as a writing transaction if the
  function can take a \<^verbatim>\<open>transaction\<close> (or nothing) and is not \<^verbatim>\<open>noexcept\<close>, whether or not it could take a
  \<^verbatim>\<open>read_transaction\<close> too, and as a reading one if only the latter works.\<close>

theorem atomic_runs_what_it_accepts:
  shows "atomic_call u ru \<in> {Does_not_compile, Runs_read_write, Runs_read_only}
    \<and> (atomic_call u ru = Runs_read_write \<longleftrightarrow>
         is_transact_function u \<and> slow_path_compiles (transact_result (fu_rvalue u)) u)
    \<and> (atomic_call u ru = Runs_read_only \<longleftrightarrow>
         \<not> is_transact_function u \<and> is_transact_function ru \<and> slow_path_compiles (transact_result (fu_rvalue ru)) ru)"
proof -
  have "\<not> ((assert_callable u \<or> assert_callable ru) \<and> assert_not_nothrow u \<and> assert_not_nothrow ru)"
    if "\<not> is_transact_function u" "\<not> is_transact_function ru"
    using that by (auto simp: is_transact_function_iff)
  then show ?thesis
    by (cases "is_transact_function u"; cases "is_transact_function ru")
      (auto simp: atomic_call_def transaction_call_cases)
qed

text \<open>C22: \<^verbatim>\<open>lstm::relative\<close> accepts a callable \<^verbatim>\<open>noexcept\<close> function and does not run it: the overload that
  is left asserts only that the function can be called, and its body is empty. A function of type
  \<^verbatim>\<open>void\<close> is silently skipped, with any other result the behaviour is undefined.
  \<^verbatim>\<open>read_write\<close> and \<^verbatim>\<open>read_only\<close> reject the same function.\<close>

theorem relative_skips_noexcept_functions:
  assumes "assert_callable u" and "\<not> assert_not_nothrow u"
  shows "relative_call u =
      (if is_void_transact_function (fu_passed u) = Some True then Returns_without_calling else Flows_off_the_end)
    \<and> read_write_call u = Does_not_compile \<and> read_only_call u = Does_not_compile"
  using assms
  by (auto simp: relative_call_def transaction_call_cases is_transact_function_iff fallback_call_def
      empty_body_def is_void_transact_function_def is_transact_function_base_def assert_callable_def)

text \<open>Its witness: \<^verbatim>\<open>[]() noexcept {}\<close>.\<close>

definition noexcept_lambda :: func_use where
  "noexcept_lambda =
     (let f = \<lparr> ft_with_tx = None, ft_plain = Some \<lparr> cs_nothrow = True, cs_void = True \<rparr> \<rparr>
      in \<lparr> fu_passed = f, fu_lvalue = f, fu_rvalue = f \<rparr>)"

theorem relative_skips_noexcept_functions_witness:
  "relative_call noexcept_lambda = Returns_without_calling \<and> read_write_call noexcept_lambda = Does_not_compile"
proof -
  have "assert_callable noexcept_lambda" "\<not> assert_not_nothrow noexcept_lambda"
    "is_void_transact_function (fu_passed noexcept_lambda) = Some True"
    by code_simp+
  with relative_skips_noexcept_functions show ?thesis by simp
qed

text \<open>A function that can only be called as an lvalue and returns a value passes the check of
  \<^verbatim>\<open>read_write\<close>, and its \<^verbatim>\<open>slow_path\<close> does not compile: the default template argument there asks for a
  call on an rvalue.\<close>

theorem lvalue_function_rejected:
  assumes "is_transact_function u" and "is_void_transact_function (fu_lvalue u) = Some False"
    and "transact_result (fu_rvalue u) = None"
  shows "read_write_call u = Does_not_compile \<and> read_only_call u = Does_not_compile"
  using assms by (simp add: transaction_call_cases slow_path_compiles_def)

theorem lvalue_function_rejected_witness:
  "read_write_call \<lparr> fu_passed = \<lparr> ft_with_tx = Some \<lparr> cs_nothrow = False, cs_void = False \<rparr>, ft_plain = None \<rparr>,
     fu_lvalue = \<lparr> ft_with_tx = Some \<lparr> cs_nothrow = False, cs_void = False \<rparr>, ft_plain = None \<rparr>,
     fu_rvalue = \<lparr> ft_with_tx = None, ft_plain = None \<rparr> \<rparr> = Does_not_compile"
proof -
  let ?f = "\<lparr> ft_with_tx = Some \<lparr> cs_nothrow = False, cs_void = False \<rparr>, ft_plain = None \<rparr>"
  let ?u = "\<lparr> fu_passed = ?f, fu_lvalue = ?f, fu_rvalue = \<lparr> ft_with_tx = None, ft_plain = None \<rparr> \<rparr>"
  have "is_transact_function ?u" "is_void_transact_function (fu_lvalue ?u) = Some False"
    "transact_result (fu_rvalue ?u) = None"
    by code_simp+
  then show ?thesis using lvalue_function_rejected by blast
qed

section \<open>Constructors of var\<close>

text \<open>
  Every constructor of \<^verbatim>\<open>lstm::var\<close> comes as an implicit and an \<^verbatim>\<open>explicit\<close> overload. For each
  argument list, the list of the overloads that are enabled: \<open>False\<close> for the implicit one and \<open>True\<close>
  for the \<^verbatim>\<open>explicit\<close> one. \<open>constructible\<close> and \<open>convertible\<close> are
  \<^verbatim>\<open>is_constructible<value_type, Args...>\<close> and \<^verbatim>\<open>is_convertible<value_type, Args...>\<close>;
  \<open>default_alloc\<close> is \<^verbatim>\<open>is_default_constructible<allocator_type>\<close>.
\<close>

definition enabled :: "(bool \<times> bool) list \<Rightarrow> bool list" where
  "enabled overloads = map snd (filter fst overloads)"

definition var_default_ctor :: "bool \<Rightarrow> bool \<Rightarrow> bool \<Rightarrow> bool \<Rightarrow> bool list" where
  "var_default_ctor with_alloc default_constructible default_alloc convertible =
     enabled (if with_alloc
        then [(default_constructible \<and> convertible, False),
              (default_constructible \<and> \<not> convertible, True)]
        else [(default_constructible \<and> default_alloc \<and> convertible, False),
              (default_constructible \<and> default_alloc \<and> \<not> convertible, True)])"

definition var_ilist_ctor :: "bool \<Rightarrow> nat \<Rightarrow> bool \<Rightarrow> bool \<Rightarrow> bool \<Rightarrow> bool list" where
  "var_ilist_ctor with_alloc n_us constructible default_alloc convertible =
     enabled (if with_alloc
        then [(constructible \<and> convertible, False),
              (constructible \<and> \<not> convertible, True)]
        else if n_us > 0
        then [(constructible \<and> convertible \<and> default_alloc, False),
              (constructible \<and> \<not> convertible \<and> default_alloc, True)]
        else [(constructible \<and> convertible \<and> default_alloc, False),
              (constructible \<and> \<not> convertible \<and> default_alloc, True)])"

definition var_forwarding_ctor :: "bool \<Rightarrow> bool \<Rightarrow> bool \<Rightarrow> bool \<Rightarrow> bool \<Rightarrow> bool list" where
  "var_forwarding_ctor with_alloc u_is_allocator_arg constructible default_alloc convertible =
     enabled (if with_alloc
        then [(constructible \<and> convertible, False),
              (constructible \<and> \<not> convertible, True)]
        else [(constructible \<and> convertible \<and> \<not> u_is_allocator_arg \<and> default_alloc, False),
              (constructible \<and> \<not> convertible \<and> \<not> u_is_allocator_arg \<and> default_alloc, True)])"

definition var_value_ctor :: "bool \<Rightarrow> bool \<Rightarrow> bool \<Rightarrow> bool \<Rightarrow> bool list" where
  "var_value_ctor with_alloc move_constructible default_alloc convertible =
     enabled (if with_alloc
        then [(move_constructible \<and> convertible, False),
              (move_constructible \<and> \<not> convertible, True)]
        else [(move_constructible \<and> convertible \<and> default_alloc, False),
              (move_constructible \<and> \<not> convertible \<and> default_alloc, True)])"

text \<open>No two overloads of a group are enabled together: one is, and it is \<^verbatim>\<open>explicit\<close> exactly when the
  value is not convertible from the arguments, or none is.\<close>

theorem var_ctor_unambiguous:
  "var_default_ctor al c d v = (if c \<and> (al \<or> d) then [\<not> v] else [])"
  "var_ilist_ctor al n c d v = (if c \<and> (al \<or> d) then [\<not> v] else [])"
  "var_forwarding_ctor al False c d v = (if c \<and> (al \<or> d) then [\<not> v] else [])"
  "var_value_ctor al c d v = (if c \<and> (al \<or> d) then [\<not> v] else [])"
  by (auto simp: var_default_ctor_def var_ilist_ctor_def var_forwarding_ctor_def var_value_ctor_def enabled_def)

section \<open>The requirements on the parameters of \<^verbatim>\<open>var\<close>\<close>

record value_traits =
  is_reference :: bool
  is_const :: bool
  is_volatile :: bool
  is_array :: bool
  alloc_qualified :: bool
  alloc_value_matches :: bool
  alloc_value_cv :: bool
  alloc_raw_pointer :: bool

text \<open>The assertions of the class template: all hold, or the program does not compile.\<close>

definition var_params_ok :: "value_traits \<Rightarrow> bool" where
  "var_params_ok t \<longleftrightarrow> \<not> alloc_qualified t \<and> \<not> is_reference t \<and> alloc_value_matches t \<and> \<not> alloc_value_cv t
     \<and> \<not> is_array t \<and> alloc_raw_pointer t"

text \<open>\<^verbatim>\<open>set\<close> and \<^verbatim>\<open>unsafe_set\<close>: the list of the enabled overloads, each with whether its body compiles. The second one
  only exists to fail an assertion, and is left out with \<^verbatim>\<open>LSTM_MAKE_SFINAE_FRIENDLY\<close>.\<close>

definition set_overloads :: "bool \<Rightarrow> bool \<Rightarrow> bool list" where
  "set_overloads assignable constructible =
     enabled [(assignable \<and> constructible, True), (\<not> assignable \<or> \<not> constructible, assignable \<and> constructible)]"

definition unsafe_set_overloads :: "bool \<Rightarrow> bool list" where
  "unsafe_set_overloads assignable = enabled [(assignable, True), (\<not> assignable, assignable)]"

lemma set_overload_unique:
  "set_overloads a c = [a \<and> c]" "unsafe_set_overloads a = [a]"
  by (cases a; cases c; simp add: set_overloads_def unsafe_set_overloads_def enabled_def)+

section \<open>Raw pointers\<close>

text \<open>
  \<^verbatim>\<open>to_raw_pointer\<close>: a raw pointer is returned as it is; a fancy pointer is null or has an
  \<^verbatim>\<open>operator->\<close> that returns another pointer.
\<close>

datatype pointer = Raw_pointer uword | Fancy_pointer "pointer option"

fun to_raw_pointer :: "pointer \<Rightarrow> uword" where
  "to_raw_pointer (Raw_pointer p) = p"
| "to_raw_pointer (Fancy_pointer None) = 0"
| "to_raw_pointer (Fancy_pointer (Some p)) = to_raw_pointer p"

end
