(* ===== verification/Build_Config.thy ===== *)
theory Build_Config imports Prelude begin

text \<open>
  What the preprocessor decides before anything is compiled: \<^verbatim>\<open>detail/compiler.hpp\<close> detects the compiler,
  rejects those without \<^verbatim>\<open>thread_local\<close> and chooses attributes, assertions and hardware transactions;
  \<^verbatim>\<open>detail/lstm_fwd.hpp\<close> chooses memory orders and alignment, \<^verbatim>\<open>detail/namespace_macros.hpp\<close> the
  namespace, \<^verbatim>\<open>detail/perf_stats.hpp\<close> whether events are counted. The input is the set of macros the
  compiler and the user have defined, each with its value as an integer; \<^verbatim>\<open>__has_feature(cxx_thread_local)\<close> is
  an argument.
\<close>

section \<open>Macros\<close>

type_synonym macros = "string \<rightharpoonup> int"

definition is_defined :: "macros \<Rightarrow> string \<Rightarrow> bool" where
  "is_defined m x \<longleftrightarrow> m x \<noteq> None"

text \<open>The value of a name in \<^verbatim>\<open>#if\<close>: 0 when it is not defined.\<close>

definition pp_value :: "macros \<Rightarrow> string \<Rightarrow> int" where
  "pp_value m x = (case m x of None \<Rightarrow> 0 | Some n \<Rightarrow> n)"

section \<open>The compiler\<close>

datatype compiler =
    Comeau | Intel | PathScale | Embarcadero | Borland | Watcom | OpenWatcom | SunPro | HP | Compaq | ZOS | XL | VisualAge
  | PGI | Cray | TI | Fujitsu | SCO | AppleClang | Clang | GNU | MSVC | ADSP | IAR | ARMCC | MIPSpro

text \<open>\<open>compiler_of m = Some c\<close> when \<^verbatim>\<open>LSTM_COMPILER_IS_c\<close> is 1; all others stay 0.\<close>

definition compiler_of :: "macros \<Rightarrow> compiler option" where
  "compiler_of m =
     (let def = is_defined m; val = pp_value m in
      if def ''__COMO__'' then Some Comeau
      else if def ''__INTEL_COMPILER'' \<or> def ''__ICC'' then Some Intel
      else if def ''__PATHCC__'' then Some PathScale
      else if def ''__BORLANDC__'' \<and> def ''__CODEGEARC_VERSION__'' then Some Embarcadero
      else if def ''__BORLANDC__'' then Some Borland
      else if def ''__WATCOMC__'' \<and> val ''__WATCOMC__'' < 1200 then Some Watcom
      else if def ''__WATCOMC__'' then Some OpenWatcom
      else if def ''__SUNPRO_CC'' then Some SunPro
      else if def ''__HP_aCC'' then Some HP
      else if def ''__DECCXX'' then Some Compaq
      else if def ''__IBMCPP__'' \<and> def ''__COMPILER_VER__'' then Some ZOS
      else if def ''__IBMCPP__'' \<and> \<not> def ''__COMPILER_VER__'' \<and> val ''__IBMCPP__'' \<ge> 800 then Some XL
      else if def ''__IBMCPP__'' \<and> \<not> def ''__COMPILER_VER__'' \<and> val ''__IBMCPP__'' < 800 then Some VisualAge
      else if def ''__PGI'' then Some PGI
      else if def ''_CRAYC'' then Some Cray
      else if def ''__TI_COMPILER_VERSION__'' then Some TI
      else if def ''__FUJITSU'' \<or> def ''__FCC_VERSION'' \<or> def ''__fcc_version'' then Some Fujitsu
      else if def ''__SCO_VERSION__'' then Some SCO
      else if def ''__clang__'' \<and> def ''__apple_build_version__'' then Some AppleClang
      else if def ''__clang__'' then Some Clang
      else if def ''__GNUC__'' then Some GNU
      else if def ''_MSC_VER'' then Some MSVC
      else if def ''__VISUALDSPVERSION__'' \<or> def ''__ADSPBLACKFIN__'' \<or> def ''__ADSPTS__'' \<or> def ''__ADSP21000__'' then Some ADSP
      else if def ''__IAR_SYSTEMS_ICC__'' \<or> def ''__IAR_SYSTEMS_ICC'' then Some IAR
      else if def ''__ARMCC_VERSION'' then Some ARMCC
      else if def ''_SGI_COMPILER_VERSION'' \<or> def ''_COMPILER_VERSION'' then Some MIPSpro
      else None)"

section \<open>Versions and thread-local storage\<close>

datatype config_error = Bad_ndebug | Unsupported_version | Unsupported_compiler | No_thread_local

record version_info =
  version_major :: int
  version_minor :: "int option"
  version_patch :: "int option"
  version_tweak :: "int option"
  simulate :: "(int \<times> int) option"

definition gnu_version :: "macros \<Rightarrow> int" where
  "gnu_version m = pp_value m ''__GNUC__'' * 100 + pp_value m ''__GNUC_MINOR__''"

definition clang_version :: "macros \<Rightarrow> int" where
  "clang_version m = pp_value m ''__clang_major__'' * 100 + pp_value m ''__clang_minor__''"

definition clang_info :: "macros \<Rightarrow> version_info" where
  "clang_info m = \<lparr> version_major = pp_value m ''__clang_major__'', version_minor = Some (pp_value m ''__clang_minor__''),
     version_patch = Some (pp_value m ''__clang_patchlevel__''), version_tweak = None,
     simulate = (if is_defined m ''_MSC_VER'' then Some (pp_value m ''_MSC_VER'' div 100, pp_value m ''_MSC_VER'' mod 100) else None) \<rparr>"

definition gnu_support :: "macros \<Rightarrow> config_error + (version_info \<times> bool)" where
  "gnu_support m =
     (if \<not> gnu_version m \<ge> 404 then Inl Unsupported_version
      else Inr (\<lparr> version_major = pp_value m ''__GNUC__'', version_minor = m ''__GNUC_MINOR__'', version_patch = m ''__GNUC_PATCHLEVEL__'',
                  version_tweak = None, simulate = None \<rparr>,
                gnu_version m \<ge> 408 \<and> pp_value m ''__cplusplus'' \<ge> 201103))"

definition clang_support :: "bool \<Rightarrow> macros \<Rightarrow> config_error + (version_info \<times> bool)" where
  "clang_support has_feature m =
     (if \<not> clang_version m \<ge> 304 then Inl Unsupported_version else Inr (clang_info m, clang_version m \<ge> 304 \<and> has_feature))"

definition apple_clang_support :: "bool \<Rightarrow> macros \<Rightarrow> config_error + (version_info \<times> bool)" where
  "apple_clang_support has_feature m =
     (if \<not> clang_version m \<ge> 400 then Inl Unsupported_version
      else Inr ((clang_info m)\<lparr> version_tweak := m ''__apple_build_version__'' \<rparr>, clang_version m \<ge> 400 \<and> has_feature))"

definition msvc_support :: "macros \<Rightarrow> config_error + (version_info \<times> bool)" where
  "msvc_support m =
     (let v = pp_value m ''_MSC_VER'' in
      if \<not> v \<ge> 1600 then Inl Unsupported_version
      else Inr (\<lparr> version_major = v div 100, version_minor = Some (v mod 100),
                  version_patch = map_option (\<lambda>full. if v \<ge> 1400 then full mod 100000 else full mod 10000) (m ''_MSC_FULL_VER''),
                  version_tweak = m ''_MSC_BUILD'', simulate = None \<rparr>, v \<ge> 1900))"

definition compiler_support :: "bool \<Rightarrow> macros \<Rightarrow> config_error + (version_info \<times> bool)" where
  "compiler_support has_feature m =
     (case compiler_of m of
        Some GNU \<Rightarrow> gnu_support m
      | Some Clang \<Rightarrow> clang_support has_feature m
      | Some AppleClang \<Rightarrow> apple_clang_support has_feature m
      | Some MSVC \<Rightarrow> msvc_support m
      | _ \<Rightarrow> Inl Unsupported_compiler)"

definition thread_local_check :: "bool \<Rightarrow> macros \<Rightarrow> config_error + version_info" where
  "thread_local_check has_feature m =
     (case compiler_support has_feature m of
        Inl e \<Rightarrow> Inl e
      | Inr (info, cxx_thread_local) \<Rightarrow> if cxx_thread_local then Inr info else Inl No_thread_local)"

section \<open>Attributes and assertions\<close>

record inline_macros =
  always_inline :: string
  noinline :: string
  noinline_lukewarm :: string
  expects :: bool

text \<open>\<open>expects\<close>: whether \<^verbatim>\<open>LSTM_LIKELY\<close> and \<^verbatim>\<open>LSTM_UNLIKELY\<close> are branch hints or just parentheses.\<close>

definition inline_of :: "macros \<Rightarrow> inline_macros" where
  "inline_of m =
     (if \<not> is_defined m ''NDEBUG'' then \<lparr> always_inline = ''inline'', noinline = '''', noinline_lukewarm = '''', expects = False \<rparr>
      else if compiler_of m = Some MSVC
      then \<lparr> always_inline = ''inline __forceinline'', noinline = ''__declspec(noinline)'', noinline_lukewarm = ''__declspec(noinline)'',
             expects = False \<rparr>
      else if compiler_of m \<in> {Some Clang, Some GNU, Some AppleClang}
      then \<lparr> always_inline = ''inline __attribute__((always_inline))'', noinline = ''__attribute__((noinline, cold))'',
             noinline_lukewarm = ''__attribute__((noinline))'', expects = True \<rparr>
      else \<lparr> always_inline = ''inline'', noinline = '''', noinline_lukewarm = '''', expects = False \<rparr>)"

text \<open>\<^verbatim>\<open>LSTM_ASSERT(a)\<close> is \<^verbatim>\<open>assert(a)\<close> in every branch; \<^verbatim>\<open><cassert>\<close> checks it unless \<^verbatim>\<open>NDEBUG\<close> is defined.\<close>

definition assert_checked :: "macros \<Rightarrow> bool" where
  "assert_checked m \<longleftrightarrow> \<not> is_defined m ''NDEBUG''"

text \<open>\<^verbatim>\<open>LSTM_PURE\<close> and \<^verbatim>\<open>LSTM_CONST\<close>.\<close>

definition pure_of :: "macros \<Rightarrow> string \<times> string" where
  "pure_of m =
     (if is_defined m ''NDEBUG'' \<and> compiler_of m \<in> {Some Clang, Some GNU, Some AppleClang}
      then (''__attribute__((pure))'', ''__attribute__((const))'') else ('''', ''''))"

definition htm_on :: "macros \<Rightarrow> bool" where
  "htm_on m \<longleftrightarrow> \<not> is_defined m ''LSTM_NO_HTM'' \<and> is_defined m ''__GNUC__'' \<and> is_defined m ''__x86_64__''"

section \<open>The other headers\<close>

definition ndebug_check :: "macros \<Rightarrow> bool" where
  "ndebug_check m \<longleftrightarrow> is_defined m ''NDEBUG'' \<longrightarrow> pp_value m ''NDEBUG'' = 1"

definition configure :: "bool \<Rightarrow> macros \<Rightarrow> config_error + version_info" where
  "configure has_feature m = (if \<not> ndebug_check m then Inl Bad_ndebug else thread_local_check has_feature m)"

datatype memory_order = Acquire | Release | Acq_Rel | Relaxed | Consume | Seq_Cst

text \<open>The order \<^verbatim>\<open>LSTM_ACQUIRE\<close> and the others stand for.\<close>

definition order_of :: "macros \<Rightarrow> memory_order \<Rightarrow> memory_order" where
  "order_of m o' = (if \<not> is_defined m ''LSTM_ALWAYS_SEQ_CST'' then o' else Seq_Cst)"

definition cache_line_size :: "macros \<Rightarrow> int" where
  "cache_line_size m = (case m ''LSTM_CACHE_LINE_SIZE'' of None \<Rightarrow> 64 | Some n \<Rightarrow> n)"

definition cache_aligned :: "macros \<Rightarrow> int option" where
  "cache_aligned m = (if \<not> is_defined m ''LSTM_NO_CACHE_ALIGNMENT'' then Some (cache_line_size m) else None)"

text \<open>The inline namespaces between \<^verbatim>\<open>LSTM_BEGIN\<close> and \<^verbatim>\<open>LSTM_END\<close>; they are part of every symbol.\<close>

definition namespaces :: "macros \<Rightarrow> string list" where
  "namespaces m = [''lstm'', ''v1''] @ (if \<not> is_defined m ''NDEBUG'' then [''debug''] else [])
     @ (if is_defined m ''LSTM_PERF_STATS_TRANSACTIONS'' then [''logged''] else [])"

definition stats_counted :: "macros \<Rightarrow> bool" where
  "stats_counted m \<longleftrightarrow> is_defined m ''LSTM_PERF_STATS_ON''"

section \<open>Properties\<close>

text \<open>A build is accepted exactly when \<^verbatim>\<open>NDEBUG\<close> is undefined or 1 and the compiler is a GCC from 4.8 in C++11 mode, a Clang
  from 3.4 or an Apple Clang from 4.0 with \<^verbatim>\<open>thread_local\<close>, or a Visual C++ from 2015; every other one is stopped by an \<^verbatim>\<open>#error\<close>,
  the older GCCs and Visual C++ by the last of them.\<close>

lemma accepted_builds:
  "configure has_feature m =
     (if \<not> ndebug_check m then Inl Bad_ndebug
      else case compiler_of m of
        Some GNU \<Rightarrow> if gnu_version m < 404 then Inl Unsupported_version
          else if gnu_version m < 408 \<or> pp_value m ''__cplusplus'' < 201103 then Inl No_thread_local else map_sum id fst (gnu_support m)
      | Some Clang \<Rightarrow> if clang_version m < 304 then Inl Unsupported_version
          else if has_feature then Inr (clang_info m) else Inl No_thread_local
      | Some AppleClang \<Rightarrow> if clang_version m < 400 then Inl Unsupported_version
          else if has_feature then Inr ((clang_info m)\<lparr> version_tweak := m ''__apple_build_version__'' \<rparr>) else Inl No_thread_local
      | Some MSVC \<Rightarrow> if pp_value m ''_MSC_VER'' < 1600 then Inl Unsupported_version
          else if pp_value m ''_MSC_VER'' < 1900 then Inl No_thread_local else map_sum id fst (msvc_support m)
      | _ \<Rightarrow> Inl Unsupported_compiler)"
  by (auto simp: configure_def thread_local_check_def compiler_support_def gnu_support_def clang_support_def apple_clang_support_def
      msvc_support_def Let_def split: option.splits compiler.splits)

text \<open>Turning the statistics on does not change the namespace: it is another macro, which nothing defines, that is asked for there.
  So a file compiled with counters and one without link against each other.\<close>

lemma stats_keep_namespace:
  "namespaces (m(''LSTM_PERF_STATS_ON'' \<mapsto> n)) = namespaces m" "stats_counted (m(''LSTM_PERF_STATS_ON'' \<mapsto> n))"
  by (simp_all add: namespaces_def is_defined_def stats_counted_def)

end
