(* ===== verification/Htm.thy ===== *)
theory Htm imports Build_Config begin

unbundle bit_operations_syntax

text \<open>
  \<^verbatim>\<open>detail/htm.hpp\<close>: the wrappers of hardware transactions and of the compare-and-exchange with hardware lock
  elision, which the library does not use. With \<^verbatim>\<open>LSTM_INTEL_RTM_SUPPORT\<close> they are intrinsics and inline
  assembly, otherwise fallbacks. What the processor does in \<^verbatim>\<open>_xbegin\<close> and \<^verbatim>\<open>_xtest\<close> is an argument; \<^verbatim>\<open>lock
  cmpxchg\<close> compares the accumulator with the destination, stores the new value when they are equal, and sets ZF then.
\<close>

section \<open>Support\<close>

definition intel_rtm_support :: "macros \<Rightarrow> bool" where
  "intel_rtm_support m \<longleftrightarrow> htm_on m \<and> is_defined m ''__x86_64__'' \<and> is_defined m ''__GNUC__''"

section \<open>Transactions\<close>

type_synonym begin_code = "32 word"

text \<open>The enumerators of the fallback.\<close>

definition started :: begin_code where "started = 0"
definition abort_explicit :: begin_code where "abort_explicit = 1"
definition abort_retry :: begin_code where "abort_retry = 2"
definition abort_conflict :: begin_code where "abort_conflict = 3"
definition abort_capacity :: begin_code where "abort_capacity = 4"
definition abort_debug :: begin_code where "abort_debug = 5"
definition abort_nested :: begin_code where "abort_nested = 6"

definition get_abort_code :: "begin_code \<Rightarrow> 32 word" where
  "get_abort_code c = drop_bit 24 c AND 0xFF"

text \<open>\<open>None\<close>: the call ends the program.\<close>

definition htm_begin :: "macros \<Rightarrow> begin_code \<Rightarrow> begin_code" where
  "htm_begin m xbegin = (if intel_rtm_support m then xbegin else abort_capacity)"

definition htm_end :: "macros \<Rightarrow> unit option" where
  "htm_end m = (if intel_rtm_support m then Some () else None)"

definition in_hardware_tx :: "macros \<Rightarrow> bool \<Rightarrow> bool" where
  "in_hardware_tx m xtest \<longleftrightarrow> (if intel_rtm_support m then xtest else False)"

text \<open>\<^verbatim>\<open>_xabort(1)\<close>: control goes back to \<open>begin\<close>, with the code given.\<close>

definition htm_abort :: "macros \<Rightarrow> 32 word option" where
  "htm_abort m = (if intel_rtm_support m then Some 1 else None)"

section \<open>Compare and exchange\<close>

text \<open>The results: what is returned, the destination and \<open>e\<close>.\<close>

definition cmpxchg_asm :: "'w \<Rightarrow> 'w \<Rightarrow> 'w \<Rightarrow> bool \<times> 'w" where
  "cmpxchg_asm mem oldVal newVal = (if mem = oldVal then (True, newVal) else (False, mem))"

definition cas_release :: "'w \<Rightarrow> 'w \<Rightarrow> 'w \<Rightarrow> bool \<times> 'w" where
  "cas_release mem oldVal newVal = (let (ret, mem') = cmpxchg_asm mem oldVal newVal in (ret, mem'))"

definition cas_acquire :: "'w \<Rightarrow> 'w \<Rightarrow> 'w \<Rightarrow> bool \<times> 'w" where
  "cas_acquire mem oldVal newVal = (let (ret, mem') = cmpxchg_asm mem oldVal newVal in (\<not> ret, mem'))"

text \<open>\<^verbatim>\<open>compare_exchange_strong\<close> and \<^verbatim>\<open>compare_exchange_weak\<close> of \<^verbatim>\<open>std::atomic\<close>, which load the value into \<open>e\<close> when they fail.\<close>

definition exchange_weak :: "bool \<Rightarrow> 'w \<Rightarrow> 'w \<Rightarrow> 'w \<Rightarrow> bool \<times> 'w \<times> 'w" where
  "exchange_weak spurious v e d = (if v = e \<and> \<not> spurious then (True, d, e) else (False, v, v))"

definition exchange_strong :: "'w \<Rightarrow> 'w \<Rightarrow> 'w \<Rightarrow> bool \<times> 'w \<times> 'w" where
  "exchange_strong v e d = exchange_weak False v e d"

text \<open>\<open>same_size\<close>: \<^verbatim>\<open>sizeof(std::atomic<Integral>) == sizeof(Integral)\<close>.\<close>

definition cmpxchg_strong_acquire :: "macros \<Rightarrow> bool \<Rightarrow> 'w \<Rightarrow> 'w \<Rightarrow> 'w \<Rightarrow> bool \<times> 'w \<times> 'w" where
  "cmpxchg_strong_acquire m same_size v e d =
     (if intel_rtm_support m \<and> same_size then (let (ok, v') = cas_acquire v e d in (ok, v', e)) else exchange_strong v e d)"

definition cmpxchg_strong_release :: "macros \<Rightarrow> bool \<Rightarrow> 'w \<Rightarrow> 'w \<Rightarrow> 'w \<Rightarrow> bool \<times> 'w \<times> 'w" where
  "cmpxchg_strong_release m same_size v e d =
     (if intel_rtm_support m \<and> same_size then (let (ok, v') = cas_release v e d in (ok, v', e)) else exchange_strong v e d)"

definition cmpxchg_weak_acquire :: "macros \<Rightarrow> bool \<Rightarrow> bool \<Rightarrow> 'w \<Rightarrow> 'w \<Rightarrow> 'w \<Rightarrow> bool \<times> 'w \<times> 'w" where
  "cmpxchg_weak_acquire m same_size spurious v e d =
     (if intel_rtm_support m \<and> same_size then (let (ok, v') = cas_acquire v e d in (ok, v', e)) else exchange_weak spurious v e d)"

definition cmpxchg_weak_release :: "macros \<Rightarrow> bool \<Rightarrow> bool \<Rightarrow> 'w \<Rightarrow> 'w \<Rightarrow> 'w \<Rightarrow> bool \<times> 'w \<times> 'w" where
  "cmpxchg_weak_release m same_size spurious v e d =
     (if intel_rtm_support m \<and> same_size then (let (ok, v') = cas_release v e d in (ok, v', e)) else exchange_weak spurious v e d)"

lemmas cmpxchg_defs = cas_acquire_def cas_release_def cmpxchg_asm_def exchange_weak_def exchange_strong_def cmpxchg_strong_acquire_def
  cmpxchg_strong_release_def cmpxchg_weak_acquire_def cmpxchg_weak_release_def Let_def

section \<open>Properties\<close>

text \<open>Without hardware support the fallback keeps everybody out of hardware transactions.\<close>

lemma fallback_never_starts:
  "\<not> intel_rtm_support m \<Longrightarrow> htm_begin m xbegin \<noteq> started \<and> get_abort_code (htm_begin m xbegin) = 0
     \<and> \<not> in_hardware_tx m xtest \<and> htm_end m = None \<and> htm_abort m = None"
  by (simp add: htm_begin_def htm_end_def htm_abort_def in_hardware_tx_def started_def abort_capacity_def get_abort_code_def)

lemma get_abort_code_byte: "get_abort_code c < 256"
proof -
  have "get_abort_code c \<le> 0xFF" unfolding get_abort_code_def by (rule word_and_le1)
  then show ?thesis by (rule order_le_less_trans) simp
qed

text \<open>On every compiler with \<^verbatim>\<open>__GNUC__\<close> for x86-64, unless \<^verbatim>\<open>LSTM_NO_HTM\<close> is defined, the compare-and-exchange with
  acquire semantics says the opposite of what has happened, while the one with release semantics and both fallbacks
  say that the exchange has been made exactly when it has; with hardware support neither loads the value into \<open>e\<close>.\<close>

theorem acquire_exchange_inverted:
  "cmpxchg_strong_acquire m True v e d = ((v = e) \<noteq> intel_rtm_support m, if v = e then d else v, if intel_rtm_support m then e else v)
    \<and> cmpxchg_strong_release m True v e d = (v = e, if v = e then d else v, if intel_rtm_support m then e else v)
    \<and> cmpxchg_strong_acquire m False v e d = (v = e, if v = e then d else v, v)
    \<and> (intel_rtm_support m \<longleftrightarrow> m ''LSTM_NO_HTM'' = None \<and> m ''__GNUC__'' \<noteq> None \<and> m ''__x86_64__'' \<noteq> None)"
  by (auto simp: cmpxchg_defs intel_rtm_support_def htm_on_def is_defined_def)

end
