(* ===== verification/Spec2Isabelle.thy ===== *)
theory Spec2Isabelle
  imports Atomic_Proof Serializability Fast_RW_Mutex Memory_Alloc RBTree_Props Stm_List Easy_Var Privatized_Future Thread_Registry
    Stm_Whole Reentrant_Callbacks Backoff Perf_Stats Var_Access Storage_Upkeep Overloads Htm
begin

text \<open>
  LSTM, a software transactional memory for C++ (\<^verbatim>\<open>src/include/lstm\<close>): a model of the whole library
  and the theorems that make it correct. Paths below are relative to that directory.

  \<^bold>\<open>The program.\<close> A transactional variable is a version lock and a storage word
  (\<^verbatim>\<open>detail/var_detail.hpp\<close>, \<^verbatim>\<open>var.hpp\<close>). A transaction loads the global clock
  (\<^verbatim>\<open>detail/transaction_domain.hpp\<close>), reads variables whose version is not newer than that, records
  them in a read set (\<^verbatim>\<open>detail/pod_vector.hpp\<close>) and buffers its writes in a write set with a Bloom
  filter (\<^verbatim>\<open>detail/pod_hash_set.hpp\<close>, \<^verbatim>\<open>detail/transaction_base.hpp\<close>). The commit locks the written
  variables, validates the read ones, stores the new words, advances the clock and publishes the new
  version (\<^verbatim>\<open>detail/commit_algorithm.hpp\<close>); on a conflict the attempt is undone and repeated
  (\<^verbatim>\<open>detail/atomic_base.hpp\<close>, \<^verbatim>\<open>read_write.hpp\<close>, \<^verbatim>\<open>read_only.hpp\<close>, \<^verbatim>\<open>atomic.hpp\<close>,
  \<^verbatim>\<open>retry.hpp\<close>, \<^verbatim>\<open>detail/backoff.hpp\<close>). What a transaction frees is a callback in the ring buffer of its thread
  (\<^verbatim>\<open>detail/quiescence_buffer.hpp\<close>, \<^verbatim>\<open>detail/gp_callback.hpp\<close>, \<^verbatim>\<open>thread_data.hpp\<close>,
  \<^verbatim>\<open>memory.hpp\<close>), which runs after a grace period: every thread announces in its node the version
  it entered its critical section with, and the list of nodes is protected by a reader-writer mutex
  (\<^verbatim>\<open>detail/thread_synchronization.hpp\<close>, \<^verbatim>\<open>detail/fast_rw_mutex.hpp\<close>, \<^verbatim>\<open>relative.hpp\<close>,
  \<^verbatim>\<open>critical_section.hpp\<close>). On top of that are a red-black tree, a list, arithmetic variables and
  futures (\<^verbatim>\<open>containers/\<close>, \<^verbatim>\<open>easy_var.hpp\<close>, \<^verbatim>\<open>privatized_future.hpp\<close>).

  \<^bold>\<open>Theories, from the bottom.\<close>

  \<^item> \<^verbatim>\<open>Prelude\<close>: machine types, collections of rewrite rules, the do-while loop, \<^verbatim>\<open>reachable\<close> and the locale
    \<^verbatim>\<open>invariant_system\<close> in which invariants of transition systems are proved once.
  \<^item> \<^verbatim>\<open>Versions\<close>: version locks and the clock. \<^verbatim>\<open>Backoff\<close>: the lengths of the delays.
  \<^item> \<^verbatim>\<open>Pod_Vector\<close> (refinement of lists; locale \<^verbatim>\<open>growable_sequence\<close>), \<^verbatim>\<open>Write_Set\<close> (refinement of finite
    maps; locale \<^verbatim>\<open>write_buffer\<close>), \<^verbatim>\<open>Quiescence_Buffer\<close> (refinement of a queue of chunks, the indices
    of the ring being 64-bit words that wrap; locale \<^verbatim>\<open>callback_queue\<close>).
  \<^item> \<^verbatim>\<open>Var_Detail\<close>: variables, the memory model and grace-period callbacks. \<^verbatim>\<open>Memory_Alloc\<close>:
    transactional allocation. \<^verbatim>\<open>Var_Access\<close>: the accessors of \<^verbatim>\<open>var\<close>.
  \<^item> \<^verbatim>\<open>Thread_Sync\<close>: announcing epochs and waiting for a grace period, as one thread does it.
    \<^verbatim>\<open>Fast_RW_Mutex\<close> and \<^verbatim>\<open>Thread_Registry\<close>: the mutex and the list of nodes for any number of
    threads, one step for each access to shared memory.
  \<^item> \<^verbatim>\<open>Thread_Data\<close>: sets, callbacks and reclamation of a thread. \<^verbatim>\<open>Storage_Upkeep\<close>: shrinking its
    buffers, and the thread-local lookup. \<^verbatim>\<open>Reentrant_Callbacks\<close>: success callbacks that commit
    transactions themselves.
  \<^item> \<^verbatim>\<open>Transaction_Base\<close>, \<^verbatim>\<open>Commit_Algorithm\<close>, \<^verbatim>\<open>Atomic_Fn\<close>: reads and writes, the commit and the retry
    loops, as functions on the shared state and the data of the thread. \<^verbatim>\<open>Atomic_Spec\<close> states what a
    transaction means (its program run on a plain store) and \<^verbatim>\<open>Atomic_Proof\<close> proves that the code does
    that, memory accounting and callbacks included.
  \<^item> \<^verbatim>\<open>Stm_System\<close>: the same code cut at every access to shared memory, for any number of threads.
    \<^verbatim>\<open>Stm_Inv\<close> and \<^verbatim>\<open>Stm_Steps\<close>: its invariant, one lemma for each step. \<^verbatim>\<open>Serializability\<close>: committed
    transactions are serializable, each between its start and its commit, running ones consistent. \<^verbatim>\<open>Stm_Runs\<close>: what holds of every
    program alone holds of all of them together. \<^verbatim>\<open>Stm_Solo\<close>: an undisturbed transaction commits.
  \<^item> \<^verbatim>\<open>Stm_Reclaim\<close>: the same machine over heap variables, with the callbacks that free what a write
    replaces, the chunks they are queued in and their end. \<^verbatim>\<open>Stm_Reclaim_Inv\<close>: its invariant.
    \<^verbatim>\<open>Stm_Reclaim_Props\<close>: no transaction holds an object that has been freed, and each object is freed once.
    \<^verbatim>\<open>Stm_Whole\<close>: that machine on top of \<^verbatim>\<open>Thread_Registry\<close>, with registration and the functions that wait for
    a grace period and run the queue; it refines \<^verbatim>\<open>Stm_Reclaim\<close>.
  \<^item> \<^verbatim>\<open>RBTree\<close> (the code on nodes with parent pointers), \<^verbatim>\<open>RBTree_Rep\<close>, \<^verbatim>\<open>RBTree_Insert\<close>, \<^verbatim>\<open>RBTree_Map\<close>,
    \<^verbatim>\<open>RBTree_Delete\<close>, \<^verbatim>\<open>RBTree_Destroy\<close> (the proofs; locale \<^verbatim>\<open>strict_weak_order\<close> for the comparison),
    \<^verbatim>\<open>RBTree_Props\<close> (the properties). \<^verbatim>\<open>Stm_List\<close>, \<^verbatim>\<open>Easy_Var\<close>: both as sequential code and as programs of
    \<^verbatim>\<open>Stm_System\<close>. \<^verbatim>\<open>Privatized_Future\<close>.
  \<^item> \<^verbatim>\<open>Perf_Stats\<close>: the counters and the report. \<^verbatim>\<open>Overloads\<close>: the traits of \<^verbatim>\<open>detail/lstm_fwd.hpp\<close>
    and which overload of \<^verbatim>\<open>atomic\<close>, \<^verbatim>\<open>read_write\<close>, \<^verbatim>\<open>read_only\<close>, \<^verbatim>\<open>relative\<close> and of the
    constructors of \<^verbatim>\<open>var\<close> a call selects. \<^verbatim>\<open>Build_Config\<close>: what the preprocessor decides. \<^verbatim>\<open>Htm\<close>:
    the wrappers of hardware transactions.

  \<^bold>\<open>Correspondence.\<close> A class is a record, a member function a definition on it; where a name was
  taken the class is a prefix (\<^verbatim>\<open>pv_\<close>, \<^verbatim>\<open>hs_\<close>, \<^verbatim>\<open>qb_\<close>, \<^verbatim>\<open>td_\<close>, \<^verbatim>\<open>var_\<close>). An exception is a value of
  \<^verbatim>\<open>cxx_error\<close> on the left of a sum; a null dereference, a misuse of memory or a loop that does not
  end is \<^verbatim>\<open>None\<close>. An assertion is a predicate next to its operation (\<^verbatim>\<open>_assert\<close>) and is proved where
  the operation is used, or it is a guard of a step. Iterators are offsets. A function the user
  passes is a program: the accesses it makes, with the rest of it as a HOL function of the value read.

  \<^bold>\<open>Bounds and fuel.\<close> The platform has 64-bit words. The number of threads is below \<^verbatim>\<open>2 ^ 62\<close> where
  threads are counted in a word (\<^verbatim>\<open>Fast_RW_Mutex\<close>, \<^verbatim>\<open>Thread_Registry\<close>), which is more than an address
  space holds; it is not bounded elsewhere. \<^verbatim>\<open>qb_room\<close> is the assertion of the ring buffer that its
  capacity can still be doubled. The clock stops where \<^verbatim>\<open>bump_assert\<close> stops it. The retry loops of
  \<^verbatim>\<open>Atomic_Fn\<close> take a list with what other threads do between the attempts; its length bounds the attempts,
  and \<^verbatim>\<open>read_write_solo\<close> shows that one attempt is enough when nobody interferes. Waiting for a node takes the
  list of the epochs loaded from it. \<^verbatim>\<open>Reentrant_Callbacks\<close> takes fuel, and its theorem says that no
  fuel is enough. The loops of \<^verbatim>\<open>RBTree\<close> and \<^verbatim>\<open>Prelude\<close> are partial functions, whose termination
  is part of the theorems.

  \<^bold>\<open>What the theorems show.\<close> Containers refine lists, maps and queues through every growth and wrap-around.
  A transaction alone does what its program says, commits all or nothing, and leaves nothing behind when it fails.
  Any number of transactions together are serializable, and a grace period ends only when every older
  critical section has. So, with transactions, registration and waiting interleaved in any way, no
  transaction ever holds an object that has been freed. The tree stays a sorted red-black tree, balanced, and none of its operations fails; its
  destructor frees what it frees once and touches nothing else. Of \<^verbatim>\<open>Privatized_Future\<close>, whose header does not compile, only the
  definitions and their contradiction are given. The theorems named
  after errors show what the code gets wrong: \<^verbatim>\<open>stateful_alloc_read_own_write_lost\<close>,
  \<^verbatim>\<open>reclaim_all_no_grace_period\<close>, \<^verbatim>\<open>reentrant_callback_starts_again\<close>,
  \<^verbatim>\<open>relative_skips_noexcept_functions\<close>, \<^verbatim>\<open>destructor_leaks_right_child\<close>,
  \<^verbatim>\<open>allocate_construct_throw_undefined\<close>, \<^verbatim>\<open>allocate_construct_throw_leaks\<close>,
  \<^verbatim>\<open>allocate_in_relative_freed_later\<close>, \<^verbatim>\<open>set_value_asserts_contradict\<close>,
  \<^verbatim>\<open>shrink_to_fit_never_returns\<close>, \<^verbatim>\<open>lvalue_function_rejected\<close>,
  \<^verbatim>\<open>acquire_exchange_inverted\<close>, \<^verbatim>\<open>stats_keep_namespace\<close>.

  \<^bold>\<open>Not modelled.\<close> Memory orders: shared accesses are sequentially consistent, as in the build with
  \<^verbatim>\<open>LSTM_ALWAYS_SEQ_CST\<close>. Untracked reads, nesting and the callbacks of the user are in the sequential
  theories and not in \<^verbatim>\<open>Stm_System\<close>; its programs are over atomic variables, and a heap variable is there the
  word that holds its address. \<^verbatim>\<open>Stm_Reclaim\<close> has the callbacks \<^verbatim>\<open>rw_write\<close> registers for the object it
  replaces; the new objects of a failed attempt are accounted for in \<^verbatim>\<open>Atomic_Proof\<close>. It leaves out the test of the
  fast path that the vectors of callbacks have room, so a write it does on the fast path may be a
  slow one in the code; both are equivalent (\<^verbatim>\<open>rw_write_fast_path_is_slow_path\<close>). In \<^verbatim>\<open>Stm_Whole\<close> an idle
  thread may start to reclaim at any time, not only when its buffer is full, and callbacks do not run transactions
  (\<^verbatim>\<open>Reentrant_Callbacks\<close> shows what happens when they do). What hardware transactions do is an argument of the
  definitions of \<^verbatim>\<open>Htm\<close>. Attribute macros and forward declarations compute nothing. Failure of \<^verbatim>\<open>malloc\<close> inside \<^verbatim>\<open>pod_mallocator\<close> ends the
  program and is not a branch. \<^verbatim>\<open>thread_data::reclaim_at\<close>, which \<^verbatim>\<open>privatized_future\<close> calls and no
  file declares, and the division of floats in the statistics are parameters.
\<close>

end
